(* ===== verification/Rdns_Prelude.thy ===== *)
theory Rdns_Prelude
  imports Main "HOL-Library.Word" "HOL-Library.Multiset" "HOL-Library.Char_ord"
    "HOL-Library.List_Lexorder"
begin

unbundle bit_operations_syntax

text \<open>
  Shared vocabulary of the development: the fixed-width integer types of the Go sources, the
  error values that the modelled functions return, the parameters that stand for code outside
  the repository (the zstd codec, the Unicode case tables, the unstable library sorts), and the
  generic lemmas on lists, words and folds that the component theories share.
\<close>

section \<open>Types\<close>

type_synonym u8 = "8 word"
type_synonym u16 = "16 word"
type_synonym u32 = "32 word"
type_synonym u64 = "64 word"
type_synonym bytes = "u8 list"

text \<open>
  Error values. Each constructor is one error that the sources create or hand through;
  \<open>EPanic\<close> is a Go run-time panic (index or slice bounds out of range), which is not an
  error value in Go but ends the call just as well.
\<close>

datatype go_error =
    ErrTruncatedTail
  | ErrEOF
  | ErrUnexpectedEOF
  | ErrNotExist
  | ErrBadMagic
  | ErrDecompress
  | ErrCorrupt string
  | ErrStop
  | ErrMsg string
  | EPanic

text \<open>Packages of code outside the repository, as one record of functions.\<close>

record env =
  env_zenc :: "bytes \<Rightarrow> bytes"               \<comment> \<open>zstd \<open>Encoder.EncodeAll\<close>\<close>
  env_zdec :: "bytes \<Rightarrow> bytes option"        \<comment> \<open>zstd \<open>Decoder.DecodeAll\<close>, \<open>None\<close> on error\<close>
  env_lower :: "string \<Rightarrow> string"            \<comment> \<open>\<open>strings.Map(unicode.ToLower, s)\<close> on non-ASCII strings\<close>
  env_sort_slice :: "u32 list \<Rightarrow> nat list"   \<comment> \<open>\<open>sort.Slice\<close>: the permutation chosen for the keys\<close>
  env_sort_func :: "u32 list \<Rightarrow> nat list"    \<comment> \<open>\<open>slices.SortFunc\<close>: the permutation chosen for the keys\<close>

text \<open>
  Documented behaviour of the parameters: decompression inverts compression and compression
  expands its input by a bounded amount; a sort returns a permutation that orders the keys (and
  promises nothing about the order of equal keys).
\<close>

definition zstd_ok :: "env \<Rightarrow> bool" where
  "zstd_ok E \<longleftrightarrow> (\<forall>x. env_zdec E (env_zenc E x) = Some x \<and>
     length (env_zenc E x) \<le> 2 * length x + 1024)"

definition sorts_keys :: "(u32 list \<Rightarrow> nat list) \<Rightarrow> bool" where
  "sorts_keys f \<longleftrightarrow> (\<forall>ks. mset (f ks) = mset [0..<length ks] \<and> sorted (map ((!) ks) (f ks)))"

text \<open>A sort call applies the chosen permutation to the slice.\<close>

definition sort_with :: "(u32 list \<Rightarrow> nat list) \<Rightarrow> ('a \<Rightarrow> u32) \<Rightarrow> 'a list \<Rightarrow> 'a list" where
  "sort_with f key xs = map ((!) xs) (f (map key xs))"

text \<open>A concrete instance of the sort parameter: the stable insertion sort.\<close>

definition stable_perm :: "u32 list \<Rightarrow> nat list" where
  "stable_perm ks = sort_key ((!) ks) [0..<length ks]"

definition test_env :: env where
  "test_env = \<lparr>env_zenc = (\<lambda>x. x), env_zdec = Some, env_lower = (\<lambda>s. s),
     env_sort_slice = stable_perm, env_sort_func = stable_perm\<rparr>"

section \<open>Collections of facts\<close>

named_theorems unat_simps \<open>unsigned values of word expressions\<close>
named_theorems codec_simps \<open>decoding what was just encoded\<close>
named_theorems wf_intros \<open>operations keep the well-formedness invariants\<close>

section \<open>Words\<close>

lemma unat_drop_bit_div [unat_simps]: "unat (drop_bit n (w :: 'a::len word)) = unat w div 2 ^ n"
  by (rule trans [OF unat_drop_bit_eq drop_bit_eq_div])

lemma unat_take_bit_mod [unat_simps]: "unat (take_bit n (w :: 'a::len word)) = unat w mod 2 ^ n"
  by (rule trans [OF unsigned_take_bit_eq take_bit_eq_mod])

lemma unat_ucast_mod [unat_simps]:
  "unat (ucast (x :: 'a::len word) :: 'b::len word) = unat x mod 2 ^ LENGTH('b)"
  by (simp add: unsigned_ucast_eq take_bit_eq_mod)

lemma ucast_u32_u64 [simp]: "ucast (ucast (x :: u32) :: u64) = x"
  by (rule bit_word_eqI) (simp add: bit_simps)

lemma sint_of_nat_u64: "n < 2 ^ 63 \<Longrightarrow> sint (of_nat n :: u64) = int n"
  by (simp add: signed_of_nat signed_take_bit_int_eq_self)

lemma sint_neg_u64: "2 ^ 63 \<le> unat (w :: u64) \<Longrightarrow> sint w < 0"
proof -
  assume a: "2 ^ 63 \<le> unat w"
  have "unat w < 2 ^ 64" using unsigned_less [where ?'a = nat, of w] by simp
  then have "unat w div 2 ^ 63 = 1" using a by (auto intro!: div_nat_eqI)
  then have "bit (unat w) 63" by (simp add: bit_iff_odd)
  then have "bit w 63" by (simp add: bit_unsigned_iff)
  then show ?thesis using bit_last_iff [of w] by simp
qed

lemma unat_of_nat_u64: "n < 2 ^ 64 \<Longrightarrow> unat (of_nat n :: u64) = n"
  by (simp add: unat_of_nat)

lemma unat_u32_less [simp]: "unat (x :: u32) < 4294967296"
  using unsigned_less [where ?'a = nat, of x] by simp

lemma unat_u8_less [simp]: "unat (x :: u8) < 256"
  using unsigned_less [where ?'a = nat, of x] by simp

lemma bit_less_exp:
  fixes m :: "'a::len word"
  assumes "m < 2 ^ n" and "bit m i"
  shows "i < n"
proof -
  have "m AND mask n = m"
    using assms(1) by (rule less_mask_eq)
  then have "take_bit n m = m"
    by (simp add: take_bit_eq_mask)
  with assms(2) show ?thesis
    by (metis bit_take_bit_iff)
qed

section \<open>Counter arrays\<close>

lemma sum_list_bump:
  "k < length xs \<Longrightarrow> sum_list (xs[k := xs ! k + d]) = sum_list xs + (d :: 'a::comm_monoid_add)"
proof (induction xs arbitrary: k)
  case (Cons x xs)
  then show ?case by (cases k) (auto simp: ac_simps)
qed simp

lemma sum_list_map_update:
  fixes f :: "'a \<Rightarrow> 'b :: comm_monoid_add"
  shows "i < length xs \<Longrightarrow> sum_list (map f (xs[i := y])) + f (xs ! i) = sum_list (map f xs) + f y"
proof (induction xs arbitrary: i)
  case (Cons x xs)
  show ?case
  proof (cases i)
    case (Suc k)
    then have "sum_list (map f (xs[k := y])) + f (xs ! k) = sum_list (map f xs) + f y" using Cons by simp
    then show ?thesis using Suc by (simp add: add.assoc)
  qed (simp add: ac_simps)
qed simp

section \<open>Folding with early exit\<close>

text \<open>
  A callback that may fail, run over a list: the shape of every \<open>Scan\<close> client. The state
  reached before the failing element is kept, as the closure's captured variables are.
\<close>

fun fold_err :: "('a \<Rightarrow> 's \<Rightarrow> 's \<times> go_error option) \<Rightarrow> 'a list \<Rightarrow> 's \<Rightarrow> 's \<times> go_error option" where
  "fold_err f [] s = (s, None)"
| "fold_err f (x # xs) s =
     (case f x s of (s', Some e) \<Rightarrow> (s', Some e) | (s', None) \<Rightarrow> fold_err f xs s')"

lemma fold_err_append:
  "fold_err f (xs @ ys) s =
     (case fold_err f xs s of (s', Some e) \<Rightarrow> (s', Some e) | (s', None) \<Rightarrow> fold_err f ys s')"
  by (induction xs arbitrary: s) (auto split: prod.splits option.splits)

lemma fold_err_pure:
  "(\<And>x s. f x s = (g x s, None)) \<Longrightarrow> fold_err f xs s = (fold g xs s, None)"
  by (induction xs arbitrary: s) auto

lemma fold_err_collect:
  "fold_err (\<lambda>x acc. (acc @ [x], None)) xs acc = (acc @ xs, None)"
  by (induction xs arbitrary: acc) auto

lemma fold_err_cong:
  "(\<And>x s. x \<in> set xs \<Longrightarrow> f x s = g x s) \<Longrightarrow> fold_err f xs s = fold_err g xs s"
  by (induction xs arbitrary: s) (auto split: prod.splits option.splits)

section \<open>Sorting by a permutation\<close>

lemma sorts_keys_perm:
  "sorts_keys f \<Longrightarrow> mset (f ks) = mset [0..<length ks]"
  by (simp add: sorts_keys_def)

lemma mset_sort_with:
  assumes "sorts_keys f"
  shows "mset (sort_with f key xs) = mset xs"
proof -
  have "mset (f (map key xs)) = mset [0..<length xs]"
    using sorts_keys_perm [OF assms, of "map key xs"] by simp
  then have "mset (sort_with f key xs) = image_mset ((!) xs) (mset [0..<length xs])"
    by (metis mset_map sort_with_def)
  also have "\<dots> = mset (map ((!) xs) [0..<length xs])"
    by simp
  also have "\<dots> = mset xs"
    by (simp add: map_nth)
  finally show ?thesis .
qed

lemma set_sort_with: "sorts_keys f \<Longrightarrow> set (sort_with f key xs) = set xs"
  by (metis mset_sort_with set_mset_mset)

lemma length_sort_with: "sorts_keys f \<Longrightarrow> length (sort_with f key xs) = length xs"
  by (metis mset_sort_with size_mset)

lemma sorted_sort_with:
  assumes "sorts_keys f"
  shows "sorted (map key (sort_with f key xs))"
proof -
  let ?p = "f (map key xs)"
  have "set ?p = {0..<length xs}"
    using sorts_keys_perm [OF assms, of "map key xs"] by (metis atLeast_upt length_map set_mset_mset lessThan_atLeast0)
  then have "map key (sort_with f key xs) = map ((!) (map key xs)) ?p"
    by (simp add: sort_with_def)
  moreover have "sorted (map ((!) (map key xs)) ?p)"
    using assms by (simp add: sorts_keys_def)
  ultimately show ?thesis
    by (simp only:)
qed

lemma sorts_keys_stable_perm: "sorts_keys stable_perm"
  by (simp add: sorts_keys_def stable_perm_def)

lemma zstd_ok_test_env: "zstd_ok test_env"
  by (simp add: zstd_ok_def test_env_def)

lemma test_env_sorts: "sorts_keys (env_sort_slice test_env)" "sorts_keys (env_sort_func test_env)"
  by (simp_all add: test_env_def sorts_keys_stable_perm)

end
