(* ===== verification/Go_Strings.thy ===== *)
theory Go_Strings
  imports Rdns_Prelude "HOL-Library.Sublist"
begin

text \<open>
  The string functions of the Go standard library that the sources call, on byte strings
  (\<open>string\<close> is a list of 8-bit characters, which is what a Go string is): \<open>strings.Split\<close>
  and \<open>Join\<close> on a one-byte separator, \<open>TrimSpace\<close>, \<open>TrimSuffix\<close>, \<open>LastIndex\<close>,
  \<open>ReplaceAll\<close>, \<open>NewReplacer\<close> on one-byte patterns, \<open>ToLower\<close>, and the \<open>%d\<close> verb of
  \<open>fmt\<close>. The case table of package \<open>unicode\<close> is the parameter \<open>env_lower\<close>.
\<close>

section \<open>Definitions\<close>

fun split_byte :: "char \<Rightarrow> string \<Rightarrow> string list" where
  "split_byte c [] = [[]]"
| "split_byte c (x # xs) =
     (if x = c then [] # split_byte c xs
      else case split_byte c xs of [] \<Rightarrow> [[x]] | p # ps \<Rightarrow> (x # p) # ps)"

fun go_join :: "string list \<Rightarrow> string \<Rightarrow> string" where
  "go_join [] sep = []"
| "go_join [x] sep = x"
| "go_join (x # y # ys) sep = x @ sep @ go_join (y # ys) sep"

definition trim_suffix :: "string \<Rightarrow> string \<Rightarrow> string" where
  "trim_suffix s suf = (if suffix suf s then take (length s - length suf) s else s)"

text \<open>\<open>strings.LastIndex\<close> of a one-byte string: \<open>None\<close> is Go's \<open>-1\<close>.\<close>

fun last_index :: "string \<Rightarrow> char \<Rightarrow> nat option" where
  "last_index [] c = None"
| "last_index (x # xs) c =
     (case last_index xs c of Some i \<Rightarrow> Some (Suc i)
      | None \<Rightarrow> if x = c then Some 0 else None)"

fun index_byte :: "string \<Rightarrow> char \<Rightarrow> nat option" where
  "index_byte [] c = None"
| "index_byte (x # xs) c = (if x = c then Some 0 else map_option Suc (index_byte xs c))"

text \<open>\<open>strings.ReplaceAll\<close> for a non-empty \<open>old\<close>: leftmost, non-overlapping.\<close>

fun replace_all :: "string \<Rightarrow> string \<Rightarrow> string \<Rightarrow> string" where
  "replace_all old new [] = []"
| "replace_all old new (c # cs) =
     (if old \<noteq> [] \<and> prefix old (c # cs)
      then new @ replace_all old new (drop (length old - 1) cs)
      else c # replace_all old new cs)"

text \<open>\<open>strings.NewReplacer\<close> whose old strings are single bytes; the first pair wins.\<close>

definition byte_replacer :: "(char \<times> string) list \<Rightarrow> string \<Rightarrow> string" where
  "byte_replacer tbl s =
     concat (map (\<lambda>c. case map_of tbl c of Some r \<Rightarrow> r | None \<Rightarrow> [c]) s)"

text \<open>The UTF-8 encodings of the code points for which \<open>unicode.IsSpace\<close> holds.\<close>

definition space_seqs :: "string list" where
  "space_seqs =
     [[CHR 0x09], [CHR 0x0A], [CHR 0x0B], [CHR 0x0C], [CHR 0x0D], [CHR 0x20],
      [CHR 0xC2, CHR 0x85], [CHR 0xC2, CHR 0xA0], [CHR 0xE1, CHR 0x9A, CHR 0x80],
      [CHR 0xE2, CHR 0x80, CHR 0x80], [CHR 0xE2, CHR 0x80, CHR 0x81],
      [CHR 0xE2, CHR 0x80, CHR 0x82], [CHR 0xE2, CHR 0x80, CHR 0x83],
      [CHR 0xE2, CHR 0x80, CHR 0x84], [CHR 0xE2, CHR 0x80, CHR 0x85],
      [CHR 0xE2, CHR 0x80, CHR 0x86], [CHR 0xE2, CHR 0x80, CHR 0x87],
      [CHR 0xE2, CHR 0x80, CHR 0x88], [CHR 0xE2, CHR 0x80, CHR 0x89],
      [CHR 0xE2, CHR 0x80, CHR 0x8A], [CHR 0xE2, CHR 0x80, CHR 0xA8],
      [CHR 0xE2, CHR 0x80, CHR 0xA9], [CHR 0xE2, CHR 0x80, CHR 0xAF],
      [CHR 0xE2, CHR 0x81, CHR 0x9F], [CHR 0xE3, CHR 0x80, CHR 0x80]]"

function trim_front :: "string list \<Rightarrow> string \<Rightarrow> string" where
  "trim_front qs s =
     (case find (\<lambda>q. q \<noteq> [] \<and> prefix q s) qs of
        None \<Rightarrow> s | Some q \<Rightarrow> trim_front qs (drop (length q) s))"
  by pat_completeness auto
termination
proof (relation "measure (\<lambda>(qs, s). length s)")
  fix qs s q
  assume "find (\<lambda>q. q \<noteq> [] \<and> prefix q s) qs = Some q"
  then have "q \<noteq> []" and "prefix q s"
    by (auto simp: find_Some_iff)
  then show "((qs, drop (length q) s), (qs, s)) \<in> measure (\<lambda>(qs, s). length s)"
    by (auto simp: prefix_def)
qed simp

declare trim_front.simps [simp del]

definition trim_space :: "string \<Rightarrow> string" where
  "trim_space s =
     rev (trim_front (map rev space_seqs) (rev (trim_front space_seqs s)))"

definition ascii :: "string \<Rightarrow> bool" where
  "ascii s = list_all (\<lambda>c. (of_char c :: nat) < 128) s"

definition lower_char :: "char \<Rightarrow> char" where
  "lower_char c =
     (let n = (of_char c :: nat) in if 65 \<le> n \<and> n \<le> 90 then char_of (n + 32) else c)"

definition to_lower :: "env \<Rightarrow> string \<Rightarrow> string" where
  "to_lower E s = (if ascii s then map lower_char s else env_lower E s)"

definition digit_char :: "nat \<Rightarrow> char" where
  "digit_char d = char_of (48 + d)"

fun show_nat :: "nat \<Rightarrow> string" where
  "show_nat n = (if n < 10 then [digit_char n] else show_nat (n div 10) @ [digit_char (n mod 10)])"

declare show_nat.simps [simp del]

section \<open>Split and join\<close>

lemma split_byte_not_Nil [simp]: "split_byte c s \<noteq> []"
  by (induction s) (auto split: list.splits)

lemma split_byte_no_sep: "c \<notin> set s \<Longrightarrow> split_byte c s = [s]"
  by (induction s) auto

lemma split_byte_append:
  "c \<notin> set s \<Longrightarrow> split_byte c (s @ c # t) = s # split_byte c t"
  by (induction s) auto

lemma split_byte_join:
  "xs \<noteq> [] \<Longrightarrow> (\<And>x. x \<in> set xs \<Longrightarrow> c \<notin> set x) \<Longrightarrow> split_byte c (go_join xs [c]) = xs"
proof (induction xs "[c]" rule: go_join.induct)
  case (3 x y ys)
  then show ?case by (simp add: split_byte_append)
qed (simp_all add: split_byte_no_sep)

lemma go_join_Cons: "ys \<noteq> [] \<Longrightarrow> go_join (x # ys) sep = x @ sep @ go_join ys sep"
  by (cases ys) auto

lemma join_split_byte: "go_join (split_byte c s) [c] = s"
proof (induction s)
  case (Cons x xs)
  show ?case
  proof (cases "x = c")
    case True
    then show ?thesis using Cons by (simp add: go_join_Cons)
  next
    case False
    obtain p ps where ps: "split_byte c xs = p # ps"
      by (cases "split_byte c xs") auto
    then have "go_join ((x # p) # ps) [c] = x # go_join (p # ps) [c]"
      by (cases ps) auto
    with False Cons ps show ?thesis by simp
  qed
qed simp

section \<open>Replacement\<close>

lemma length_replace_all:
  "length new \<le> length old \<Longrightarrow> length (replace_all old new s) \<le> length s"
proof (induction old new s rule: replace_all.induct)
  case (2 old new c cs)
  show ?case
  proof (cases "old \<noteq> [] \<and> prefix old (c # cs)")
    case True
    then have "length old \<le> Suc (length cs)" "old \<noteq> []"
      using prefix_length_le [of old "c # cs"] by auto
    moreover have "length (replace_all old new (drop (length old - 1) cs)) \<le> length cs - (length old - 1)"
      using "2.IH"(1) True "2.prems" by simp
    moreover have "1 \<le> length old"
      using \<open>old \<noteq> []\<close> by (cases old) auto
    ultimately show ?thesis using True "2.prems" by simp
  next
    case False
    then have "replace_all old new (c # cs) = c # replace_all old new cs"
      by auto
    then show ?thesis using "2.IH"(2) [OF False "2.prems"] by simp
  qed
qed simp

text \<open>
  Any homomorphism that sends the marker and the replaced text to the same string cannot tell
  a string from its replacement. This one fact carries the template round trip.
\<close>

lemma hom_replace_all:
  fixes h :: "string \<Rightarrow> string"
  assumes hom: "\<And>s t. h (s @ t) = h s @ h t" and same: "h old = h new"
  shows "h (replace_all old new s) = h s"
proof (induction s rule: length_induct)
  case (1 s)
  show ?case
  proof (cases s)
    case Nil
    then show ?thesis by simp
  next
    case (Cons c cs)
    show ?thesis
    proof (cases "old \<noteq> [] \<and> prefix old (c # cs)")
      case True
      then obtain t where t: "c # cs = old @ t" and "old \<noteq> []"
        by (auto simp: prefix_def)
      then have d: "drop (length old - 1) cs = t"
        by (cases old) auto
      have "length t < length s"
        using t \<open>old \<noteq> []\<close> Cons by (metis append_Nil length_append length_greater_0_conv less_add_same_cancel2)
      then have "h (replace_all old new t) = h t"
        using 1 by blast
      moreover have "replace_all old new s = new @ replace_all old new t"
        using True Cons d by simp
      ultimately have "h (replace_all old new s) = h old @ h t"
        using hom same by simp
      then show ?thesis using Cons t hom by simp
    next
      case False
      then have "replace_all old new s = [c] @ replace_all old new cs"
        using Cons by auto
      moreover have "h (replace_all old new cs) = h cs"
        using 1 Cons by simp
      ultimately show ?thesis
        using Cons hom [of "[c]" cs] hom [of "[c]" "replace_all old new cs"] by simp
    qed
  qed
qed

lemma byte_replacer_append: "byte_replacer tbl (s @ t) = byte_replacer tbl s @ byte_replacer tbl t"
  by (simp add: byte_replacer_def)

lemma byte_replacer_Nil [simp]: "byte_replacer tbl [] = []"
  by (simp add: byte_replacer_def)

lemma byte_replacer_Cons:
  "byte_replacer tbl (c # s) = (case map_of tbl c of Some r \<Rightarrow> r | None \<Rightarrow> [c]) @ byte_replacer tbl s"
  by (simp add: byte_replacer_def)

lemma byte_replacer_id: "(\<And>c. c \<in> set s \<Longrightarrow> c \<notin> fst ` set tbl) \<Longrightarrow> byte_replacer tbl s = s"
proof (induction s)
  case (Cons a s)
  then have "map_of tbl a = None"
    by (simp add: map_of_eq_None_iff)
  with Cons show ?case by (simp add: byte_replacer_Cons)
qed simp

lemma length_byte_replacer:
  assumes "\<And>c r. (c, r) \<in> set tbl \<Longrightarrow> 1 < length r"
  shows "length s \<le> length (byte_replacer tbl s)"
    and "c \<in> set s \<Longrightarrow> c \<in> fst ` set tbl \<Longrightarrow> length s < length (byte_replacer tbl s)"
proof -
  have step: "1 \<le> length (case map_of tbl c of Some r \<Rightarrow> r | None \<Rightarrow> [c]) \<and>
      (c \<in> fst ` set tbl \<longrightarrow> 1 < length (case map_of tbl c of Some r \<Rightarrow> r | None \<Rightarrow> [c]))" for c
  proof (cases "map_of tbl c")
    case None
    moreover from None have "c \<notin> fst ` set tbl"
      by (simp add: map_of_eq_None_iff)
    ultimately show ?thesis by simp
  next
    case (Some r)
    then have "1 < length r" using assms map_of_SomeD by fast
    with Some show ?thesis by simp
  qed
  show le: "length s \<le> length (byte_replacer tbl s)" for s
  proof (induction s)
    case (Cons c s)
    then show ?case using step [of c] by (simp add: byte_replacer_Cons)
  qed simp
  show "c \<in> set s \<Longrightarrow> c \<in> fst ` set tbl \<Longrightarrow> length s < length (byte_replacer tbl s)"
  proof (induction s)
    case (Cons x s)
    show ?case
    proof (cases "x = c")
      case True
      then show ?thesis using Cons.prems step [of c] le [of s] by (simp add: byte_replacer_Cons)
    next
      case False
      then show ?thesis using Cons step [of x] by (simp add: byte_replacer_Cons)
    qed
  qed simp
qed

section \<open>Trimming\<close>

definition printable :: "char \<Rightarrow> bool" where
  "printable c \<longleftrightarrow> 33 \<le> (of_char c :: nat) \<and> (of_char c :: nat) < 127"

lemma of_char_char_of_small: "n < 256 \<Longrightarrow> (of_char (char_of n) :: nat) = n"
  by simp

lemma trim_front_id:
  assumes "\<And>q. q \<in> set qs \<Longrightarrow> q \<noteq> [] \<Longrightarrow> \<not> printable (hd q)" and "s = [] \<or> printable (hd s)"
  shows "trim_front qs s = s"
proof -
  have "find (\<lambda>q. q \<noteq> [] \<and> prefix q s) qs = None"
    using assms by (fastforce simp: find_None_iff prefix_def neq_Nil_conv)
  then show ?thesis
    by (simp add: trim_front.simps)
qed

lemma space_seqs_unprintable:
  "q \<in> set space_seqs \<Longrightarrow> q \<noteq> [] \<Longrightarrow> \<not> printable (hd q)"
  "q \<in> set (map rev space_seqs) \<Longrightarrow> q \<noteq> [] \<Longrightarrow> \<not> printable (hd q)"
  by (auto simp: space_seqs_def printable_def)

lemma trim_space_id:
  assumes "s = [] \<or> printable (hd s) \<and> printable (last s)"
  shows "trim_space s = s"
proof -
  have "trim_front space_seqs s = s"
    using assms by (intro trim_front_id space_seqs_unprintable(1)) auto
  moreover have "trim_front (map rev space_seqs) (rev s) = rev s"
    using assms by (intro trim_front_id space_seqs_unprintable(2)) (auto simp: hd_rev)
  ultimately show ?thesis
    by (simp add: trim_space_def)
qed

section \<open>Decimal digits\<close>

lemma digit_char_inj: "a < 10 \<Longrightarrow> b < 10 \<Longrightarrow> digit_char a = digit_char b \<Longrightarrow> a = b"
  by (auto simp: digit_char_def dest!: arg_cong [where f = "of_char :: char \<Rightarrow> nat"])

lemma of_char_digit_char [simp]: "d < 10 \<Longrightarrow> (of_char (digit_char d) :: nat) = 48 + d"
  by (simp add: digit_char_def)

lemma show_nat_not_Nil [simp]: "show_nat n \<noteq> []"
  by (subst show_nat.simps) simp

lemma show_nat_digits: "c \<in> set (show_nat n) \<Longrightarrow> 48 \<le> (of_char c :: nat) \<and> (of_char c :: nat) \<le> 57"
proof (induction n rule: show_nat.induct)
  case (1 n)
  then show ?case
    by (subst (asm) (2) show_nat.simps) (auto split: if_splits)
qed

lemma show_nat_printable: "c \<in> set (show_nat n) \<Longrightarrow> printable c"
  using show_nat_digits by (fastforce simp: printable_def)

text \<open>The number that a string of digits stands for.\<close>

definition nat_of_digits :: "string \<Rightarrow> nat" where
  "nat_of_digits ds = foldl (\<lambda>a c. 10 * a + (of_char c - 48)) 0 ds"

lemma nat_of_digits_show: "nat_of_digits (show_nat n) = n"
proof (induction n rule: show_nat.induct)
  case (1 n)
  show ?case
  proof (cases "n < 10")
    case True
    then show ?thesis by (subst show_nat.simps) (simp add: nat_of_digits_def)
  next
    case False
    then have "nat_of_digits (show_nat n) = 10 * nat_of_digits (show_nat (n div 10)) + n mod 10"
      by (subst show_nat.simps) (simp add: nat_of_digits_def)
    then show ?thesis using 1 False by simp
  qed
qed

lemma show_nat_inj [simp]: "show_nat m = show_nat n \<longleftrightarrow> m = n"
  by (metis nat_of_digits_show)

end
