(* ===== verification/Go_Bytes.thy ===== *)
theory Go_Bytes
  imports Go_Strings
begin

unbundle bit_operations_syntax

text \<open>
  Byte-level encodings of the Go standard library that the store uses: the conversions
  between strings and byte slices, the variable-length integers of \<open>encoding/binary\<close>
  (\<open>PutUvarint\<close>, \<open>Uvarint\<close>) and its little-endian fixed-width integers. The locale
  \<open>prefix_codec\<close> is the contract of an encoding that can be decoded in front of any
  remainder; it is interpreted on each of them.
\<close>

section \<open>Definitions\<close>

definition bytes_of :: "string \<Rightarrow> bytes" where
  "bytes_of s = map (\<lambda>c. of_nat (of_char c)) s"

definition string_of :: "bytes \<Rightarrow> string" where
  "string_of bs = map (\<lambda>b. char_of (unat b)) bs"

subsection \<open>Variable-length integers\<close>

function put_uvarint :: "u64 \<Rightarrow> bytes" where
  "put_uvarint x =
     (if 0x80 \<le> x then (ucast x OR 0x80) # put_uvarint (drop_bit 7 x) else [ucast x])"
  by pat_completeness auto
termination
proof (relation "measure unat")
  fix x :: u64
  assume "0x80 \<le> x"
  then have "0 < unat x" by (simp add: word_le_nat_alt)
  then show "(drop_bit 7 x, x) \<in> measure unat"
    by (simp add: unat_simps)
qed simp

declare put_uvarint.simps [simp del]

definition MaxVarintLen64 :: nat where "MaxVarintLen64 = 10"

text \<open>
  \<open>Uvarint\<close>: the decoded value and the number of bytes read, \<open>0\<close> when the buffer is too
  short, negative on overflow. \<open>i\<close> is the loop index, \<open>x\<close> the value so far (the shift \<open>s\<close>
  of the source is \<open>7 * i\<close>).
\<close>

fun uvarint_loop :: "nat \<Rightarrow> u64 \<Rightarrow> bytes \<Rightarrow> u64 \<times> int" where
  "uvarint_loop i x [] = (0, 0)"
| "uvarint_loop i x (b # bs) =
     (if i = MaxVarintLen64 then (0, - (int i + 1))
      else if b < 0x80 then
        (if i = MaxVarintLen64 - 1 \<and> 1 < b then (0, - (int i + 1))
         else (x OR push_bit (7 * i) (ucast b), int i + 1))
      else uvarint_loop (Suc i) (x OR push_bit (7 * i) (ucast (b AND 0x7f))) bs)"

definition uvarint :: "bytes \<Rightarrow> u64 \<times> int" where
  "uvarint bs = uvarint_loop 0 0 bs"

text \<open>The reader's use of it: a non-positive count is an error, otherwise skip what was read.\<close>

definition dec_uvarint :: "bytes \<Rightarrow> (u64 \<times> bytes) option" where
  "dec_uvarint bs = (let (v, n) = uvarint bs in if n \<le> 0 then None else Some (v, drop (nat n) bs))"

subsection \<open>Little-endian integers\<close>

text \<open>The \<open>n\<close> low bytes of a number, least significant first, and back.\<close>

fun put_le :: "nat \<Rightarrow> 'a::len word \<Rightarrow> bytes" where
  "put_le 0 x = []"
| "put_le (Suc n) x = ucast x # put_le n (drop_bit 8 x)"

fun get_le :: "bytes \<Rightarrow> 'a::len word" where
  "get_le [] = 0"
| "get_le (b # bs) = ucast b OR push_bit 8 (get_le bs)"

definition put_u16 :: "u16 \<Rightarrow> bytes" where "put_u16 = put_le 2"
definition put_u32 :: "u32 \<Rightarrow> bytes" where "put_u32 = put_le 4"
definition put_u64 :: "u64 \<Rightarrow> bytes" where "put_u64 = put_le 8"

definition get_u16 :: "bytes \<Rightarrow> u16" where "get_u16 bs = get_le (take 2 bs)"
definition get_u32 :: "bytes \<Rightarrow> u32" where "get_u32 bs = get_le (take 4 bs)"
definition get_u64 :: "bytes \<Rightarrow> u64" where "get_u64 bs = get_le (take 8 bs)"

section \<open>Strings and bytes\<close>

lemma string_of_bytes_of [simp]: "string_of (bytes_of s) = s"
proof -
  have "char_of (unat (of_nat (of_char c) :: u8)) = c" for c
  proof -
    have "(of_char c :: nat) < 256"
      using char_of_eq_iff [of "of_char c :: nat" c] of_char_eq_iff by (metis nat_of_char_less_256)
    then show ?thesis by (simp add: unat_of_nat)
  qed
  then show ?thesis
    by (simp add: string_of_def bytes_of_def comp_def)
qed

lemma length_bytes_of [simp]: "length (bytes_of s) = length s"
  by (simp add: bytes_of_def)

section \<open>The codec contract\<close>

text \<open>
  An encoding whose decoder returns the value and what follows it. Laws used by the block
  format: such an encoding is injective and prefix-free, and a concatenation of encodings is
  decoded element by element.
\<close>

fun decode_n :: "(bytes \<Rightarrow> ('a \<times> bytes) option) \<Rightarrow> nat \<Rightarrow> bytes \<Rightarrow> ('a list \<times> bytes) option" where
  "decode_n dec 0 bs = Some ([], bs)"
| "decode_n dec (Suc n) bs =
     (case dec bs of None \<Rightarrow> None
      | Some (x, bs') \<Rightarrow> map_option (\<lambda>(xs, r). (x # xs, r)) (decode_n dec n bs'))"

locale prefix_codec =
  fixes enc :: "'a \<Rightarrow> bytes"
    and dec :: "bytes \<Rightarrow> ('a \<times> bytes) option"
    and ok :: "'a \<Rightarrow> bool"
  assumes dec_enc: "ok x \<Longrightarrow> dec (enc x @ rest) = Some (x, rest)"
begin

lemma prefix_free: "ok x \<Longrightarrow> ok y \<Longrightarrow> enc x @ r = enc y @ s \<Longrightarrow> x = y \<and> r = s"
  by (metis dec_enc option.inject prod.inject)

lemma enc_inj: "ok x \<Longrightarrow> ok y \<Longrightarrow> enc x = enc y \<Longrightarrow> x = y"
  using prefix_free [of x y "[]" "[]"] by simp

lemma decode_concat:
  "(\<And>x. x \<in> set xs \<Longrightarrow> ok x) \<Longrightarrow>
     decode_n dec (length xs) (concat (map enc xs) @ rest) = Some (xs, rest)"
  by (induction xs) (auto simp: dec_enc)

end

section \<open>Variable-length integers round-trip\<close>

lemma or_push_drop: "take_bit n x OR push_bit n (drop_bit n x) = (x :: u64)"
proof (rule bit_word_eqI)
  fix i assume "i < LENGTH(64)"
  then show "bit (take_bit n x OR push_bit n (drop_bit n x)) i \<longleftrightarrow> bit x i"
    by (cases "i < n") (auto simp: bit_simps)
qed

lemma varint_split:
  "push_bit s (take_bit 7 x) OR push_bit (s + 7) (drop_bit 7 x) = push_bit s (x :: u64)"
proof -
  have "push_bit s (take_bit 7 x OR push_bit 7 (drop_bit 7 x)) = push_bit s x"
    by (simp add: or_push_drop)
  then show ?thesis
    by (simp add: push_bit_or ac_simps)
qed

lemma cont_byte: "ucast ((ucast (x::u64) OR 0x80 :: u8) AND 0x7f) = (take_bit 7 x :: u64)"
proof -
  have "(ucast (x::u64) OR 0x80 :: u8) AND 0x7f = take_bit 7 (ucast x)"
    by (simp add: take_bit_eq_mask mask_eq_exp_minus_1 bit.conj_disj_distrib2)
  then show ?thesis
    by (simp add: unsigned_take_bit_eq unsigned_ucast_eq take_bit_take_bit)
qed
lemma cont_byte_ge: "\<not> (ucast (x::u64) OR 0x80 :: u8) < 0x80"
proof
  assume "(ucast x OR 0x80 :: u8) < 0x80"
  then have "\<not> bit (ucast x OR 0x80 :: u8) 7"
    using bit_less_exp [of "ucast x OR 0x80 :: u8" 7 7] by auto
  then show False by (simp add: bit_simps)
qed
lemma last_byte: "x < 0x80 \<Longrightarrow> ucast (ucast (x::u64) :: u8) = x"
  by (simp add: word_unat_eq_iff word_less_nat_alt unat_simps)
lemma last_byte_less: "x < 0x80 \<Longrightarrow> (ucast (x::u64) :: u8) < 0x80"
  by (simp add: word_less_nat_alt unat_simps)
lemma uvarint_loop_put:
  assumes "i < 10" and "unat v < 2 ^ (64 - 7 * i)"
  shows "uvarint_loop i x (put_uvarint v @ rest) = (x OR push_bit (7 * i) v, int i + int (length (put_uvarint v)))"
  using assms
proof (induction v arbitrary: i x rule: put_uvarint.induct)
  case (1 v)
  show ?case
  proof (cases "0x80 \<le> v")
    case True
    then have big: "128 \<le> unat v" by (simp add: word_le_nat_alt)
    have "i < 9"
    proof (rule ccontr)
      assume "\<not> i < 9"
      with "1.prems"(1) have "i = 9" by simp
      with "1.prems"(2) big show False by simp
    qed
    have "unat (drop_bit 7 v) < 2 ^ (64 - 7 * Suc i)"
    proof -
      have "unat v < 2 ^ (64 - 7 * Suc i) * 2 ^ 7"
        using "1.prems"(2) \<open>i < 9\<close> power_add [of "2::nat" "64 - 7 * Suc i" 7] by simp
      then show ?thesis
        by (simp add: unat_simps less_mult_imp_div_less)
    qed
    then have IH: "uvarint_loop (Suc i) y (put_uvarint (drop_bit 7 v) @ rest) =
        (y OR push_bit (7 * Suc i) (drop_bit 7 v), int (Suc i) + int (length (put_uvarint (drop_bit 7 v))))" for y
      using "1.IH" [OF True, of "Suc i" y] \<open>i < 9\<close> by simp
    have "(x OR push_bit (7 * i) (take_bit 7 v)) OR push_bit (7 * Suc i) (drop_bit 7 v) = x OR push_bit (7 * i) v"
      using varint_split [of "7 * i" v] by (simp add: or.assoc ac_simps)
    then show ?thesis
      using True \<open>i < 9\<close> IH cont_byte_ge
      by (simp add: put_uvarint.simps [of v] MaxVarintLen64_def cont_byte)
  next
    case False
    then have small: "v < 0x80" by simp
    have "i = 9 \<Longrightarrow> \<not> 1 < (ucast v :: u8)"
      using "1.prems"(2) by (auto simp: word_less_nat_alt unat_simps)
    with small False "1.prems"(1) show ?thesis
      by (simp add: put_uvarint.simps [of v] MaxVarintLen64_def last_byte last_byte_less)
  qed
qed

lemma put_uvarint_not_Nil [simp]: "put_uvarint v \<noteq> []"
  by (subst put_uvarint.simps) simp

lemma uvarint_put [codec_simps]:
  "uvarint (put_uvarint v @ rest) = (v, int (length (put_uvarint v)))"
  using uvarint_loop_put [of 0 v 0 rest] unsigned_less [where ?'a = nat, of v]
  by (simp add: uvarint_def)

lemma length_put_uvarint:
  "unat v < 2 ^ (7 * n) \<Longrightarrow> 0 < n \<Longrightarrow> length (put_uvarint v) \<le> n"
proof (induction n arbitrary: v)
  case (Suc n)
  show ?case
  proof (cases "0x80 \<le> v")
    case True
    then have "128 \<le> unat v" by (simp add: word_le_nat_alt)
    with Suc.prems have "0 < n" by (cases n) auto
    moreover have "unat (drop_bit 7 v) < 2 ^ (7 * n)"
      using Suc.prems power_add [of "2::nat" 7 "7 * n"]
      by (simp add: unat_simps less_mult_imp_div_less)
    ultimately show ?thesis
      using Suc.IH True by (simp add: put_uvarint.simps [of v])
  qed (simp add: put_uvarint.simps [of v])
qed simp

lemma length_put_uvarint_le: "length (put_uvarint v) \<le> 10"
  using length_put_uvarint [of v 10] unsigned_less [where ?'a = nat, of v] by simp

lemma uvarint_read_le: "snd (uvarint_loop i x bs) \<le> int i + int (length bs)"
  by (induction i x bs rule: uvarint_loop.induct) (auto simp: Let_def)

interpretation uvarint: prefix_codec put_uvarint dec_uvarint "\<lambda>_. True"
  by unfold_locales (simp add: dec_uvarint_def codec_simps)

lemma length_put_le [simp]: "length (put_le n x) = n"
  by (induction n arbitrary: x) auto

lemma get_put_le: "get_le (put_le n x) = (take_bit (8 * n) x :: 'a::len word)"
proof (induction n arbitrary: x)
  case (Suc n)
  have "ucast (ucast x :: u8) = take_bit 8 x"
    by (rule bit_word_eqI) (auto simp: bit_simps)
  moreover have "take_bit 8 x OR push_bit 8 (take_bit (8 * n) (drop_bit 8 x)) = take_bit (8 + 8 * n) x"
    by (rule bit_word_eqI) (auto simp: bit_simps)
  ultimately show ?case using Suc by simp
qed simp

lemma get_put_u16 [codec_simps]: "get_u16 (put_u16 x @ rest) = x"
  by (simp add: get_u16_def put_u16_def get_put_le take_bit_word_beyond_length_eq)

lemma get_put_u32 [codec_simps]: "get_u32 (put_u32 x @ rest) = x"
  by (simp add: get_u32_def put_u32_def get_put_le take_bit_word_beyond_length_eq)

lemma get_put_u64 [codec_simps]: "get_u64 (put_u64 x @ rest) = x"
  by (simp add: get_u64_def put_u64_def get_put_le take_bit_word_beyond_length_eq)

lemma length_put_fixed [simp]:
  "length (put_u16 a) = 2" "length (put_u32 b) = 4" "length (put_u64 c) = 8"
  by (simp_all add: put_u16_def put_u32_def put_u64_def)

interpretation le_u16: prefix_codec put_u16 "\<lambda>bs. Some (get_u16 bs, drop 2 bs)" "\<lambda>_. True"
  by unfold_locales (simp add: codec_simps)

interpretation le_u32: prefix_codec put_u32 "\<lambda>bs. Some (get_u32 bs, drop 4 bs)" "\<lambda>_. True"
  by unfold_locales (simp add: codec_simps)

interpretation le_u64: prefix_codec put_u64 "\<lambda>bs. Some (get_u64 bs, drop 8 bs)" "\<lambda>_. True"
  by unfold_locales (simp add: codec_simps)

end
