(* ===== verification/Store_Template.thy ===== *)
theory Store_Template
  imports Go_Bytes
begin

unbundle bit_operations_syntax

text \<open>
  IP templating (\<^verbatim>\<open>src/internal/store/template.go\<close>): the representations of a record's own
  address are replaced by one-byte markers before compression and restored when the block is
  decoded. The main fact is that the transform is reversible exactly on the host names that
  contain no marker byte, whatever overlaps the four replacements meet.
\<close>

section \<open>Definitions\<close>

definition mFwdDash :: char where "mFwdDash = CHR 0x01"
definition mRevDash :: char where "mRevDash = CHR 0x02"
definition mFwdDot :: char where "mFwdDot = CHR 0x03"
definition mRevDot :: char where "mRevDot = CHR 0x04"

definition octets :: "u32 \<Rightarrow> u32 \<times> u32 \<times> u32 \<times> u32" where
  "octets ip = (drop_bit 24 ip, drop_bit 16 ip AND 0xff, drop_bit 8 ip AND 0xff, ip AND 0xff)"

text \<open>\<open>byte('0' + v)\<close> as a character.\<close>

definition digit_byte :: "u32 \<Rightarrow> char" where
  "digit_byte v = char_of (unat (ucast (48 + v) :: u8))"

definition itoa :: "u32 \<Rightarrow> string" where
  "itoa v =
     (if v < 10 then [digit_byte v]
      else if v < 100 then [digit_byte (v div 10), digit_byte (v mod 10)]
      else [digit_byte (v div 100), digit_byte ((v div 10) mod 10), digit_byte (v mod 10)])"

definition join4 :: "u32 \<Rightarrow> u32 \<Rightarrow> u32 \<Rightarrow> u32 \<Rightarrow> string \<Rightarrow> string" where
  "join4 w x y z sep = itoa w @ sep @ itoa x @ sep @ itoa y @ sep @ itoa z"

definition encodeTemplate :: "u32 \<Rightarrow> string \<Rightarrow> string" where
  "encodeTemplate ip host =
     (let (a, b, c, d) = octets ip;
          host = replace_all (join4 a b c d ''-'') [mFwdDash] host;
          host = replace_all (join4 d c b a ''-'') [mRevDash] host;
          host = replace_all (join4 a b c d ''.'') [mFwdDot] host;
          host = replace_all (join4 d c b a ''.'') [mRevDot] host
      in host)"

definition decodeTemplate :: "u32 \<Rightarrow> string \<Rightarrow> string" where
  "decodeTemplate ip s =
     (let (a, b, c, d) = octets ip in
      byte_replacer
        [(mFwdDash, join4 a b c d ''-''), (mRevDash, join4 d c b a ''-''),
         (mFwdDot, join4 a b c d ''.''), (mRevDot, join4 d c b a ''.'')] s)"

definition markers :: "char set" where
  "markers = {mFwdDash, mRevDash, mFwdDot, mRevDot}"

lemmas marker_defs = mFwdDash_def mRevDash_def mFwdDot_def mRevDot_def

section \<open>Decimal octets\<close>

lemma unat_and_255: "unat (x AND 0xff) = unat (x :: u32) mod 256"
proof -
  have "x AND 0xff = take_bit 8 x" by (simp add: take_bit_eq_mask mask_eq_exp_minus_1)
  then have "unat (x AND 0xff) = unat x mod 2 ^ 8" by (simp only: unat_simps)
  then show ?thesis by simp
qed
lemma octets_unat:
  assumes "octets ip = (a, b, c, d)"
  shows "unat a = unat ip div 16777216" "unat b = unat ip div 65536 mod 256" "unat c = unat ip div 256 mod 256"
    "unat d = unat ip mod 256"
  using assms by (auto simp: octets_def unat_and_255 unat_simps)

lemma octet_bounds:
  assumes "octets ip = (a, b, c, d)"
  shows "unat a < 256" "unat b < 256" "unat c < 256" "unat d < 256"
  using octets_unat [OF assms] unat_u32_less [of ip] by (simp_all add: div_less_iff_less_mult)

lemma digit_byte_digit: "unat v < 10 \<Longrightarrow> digit_byte v = digit_char (unat v)"
  by (simp add: digit_byte_def digit_char_def unat_simps unat_word_ariths)

lemma itoa_show:
  assumes "unat v < 256"
  shows "itoa v = show_nat (unat v)"
proof -
  have d: "digit_byte (w mod 10) = digit_char (unat w mod 10)" for w
    by (simp add: digit_byte_digit unat_mod)
  have q: "unat (v div 10) = unat v div 10" "unat (v div 100) = unat v div 100"
    by (simp_all add: unat_div)
  consider "unat v < 10" | "10 \<le> unat v" "unat v < 100" | "100 \<le> unat v"
    by linarith
  then show ?thesis
  proof cases
    case 1
    then show ?thesis
      by (simp add: itoa_def word_less_nat_alt show_nat.simps digit_byte_digit)
  next
    case 2
    then show ?thesis
      using q by (simp add: itoa_def word_less_nat_alt show_nat.simps [of "unat v"]
          show_nat.simps [of "unat v div 10"] d digit_byte_digit)
  next
    case 3
    then have "\<not> unat v div 10 < 10" "unat v div 10 div 10 = unat v div 100" "unat v div 100 < 10"
      using assms by (simp_all add: div_mult2_eq)
    with 3 q show ?thesis
      by (simp add: itoa_def word_less_nat_alt show_nat.simps [of "unat v"]
          show_nat.simps [of "unat v div 10"] show_nat.simps [of "unat v div 100"] d digit_byte_digit)
  qed
qed

lemma join4_chars:
  assumes "unat w < 256" "unat x < 256" "unat y < 256" "unat z < 256"
  shows "set (join4 w x y z sep) \<subseteq> {c. 48 \<le> (of_char c :: nat)} \<union> set sep"
    and "length sep = 1 \<Longrightarrow> 7 \<le> length (join4 w x y z sep)"
proof -
  show "set (join4 w x y z sep) \<subseteq> {c. 48 \<le> (of_char c :: nat)} \<union> set sep"
    using assms show_nat_digits by (auto simp: join4_def itoa_show)
  have "1 \<le> length (show_nat n)" for n
    using show_nat_not_Nil [of n] by (cases "show_nat n") auto
  from this [of "unat w"] this [of "unat x"] this [of "unat y"] this [of "unat z"]
  show "length sep = 1 \<Longrightarrow> 7 \<le> length (join4 w x y z sep)"
    using assms by (simp add: join4_def itoa_show)
qed

lemma join4_no_marker:
  assumes "octets ip = (a, b, c, d)" "sep = ''-'' \<or> sep = ''.''" "m \<in> markers"
  shows "m \<notin> set (join4 a b c d sep)" "m \<notin> set (join4 d c b a sep)"
proof -
  have "(of_char m :: nat) < 48" "m \<notin> set sep"
    using assms(2,3) by (auto simp: markers_def marker_defs)
  then show "m \<notin> set (join4 a b c d sep)" "m \<notin> set (join4 d c b a sep)"
    using octet_bounds [OF assms(1)] join4_chars(1) by fastforce+
qed

section \<open>Reversibility\<close>

lemma decodeTemplate_append: "decodeTemplate ip (s @ t) = decodeTemplate ip s @ decodeTemplate ip t"
  by (simp add: decodeTemplate_def byte_replacer_append split: prod.splits)

lemma decodeTemplate_id: "set s \<inter> markers = {} \<Longrightarrow> decodeTemplate ip s = s"
  unfolding decodeTemplate_def by (auto split: prod.splits intro!: byte_replacer_id simp: markers_def)

lemma decodeTemplate_marker:
  assumes "octets ip = (a, b, c, d)"
  shows "decodeTemplate ip [mFwdDash] = join4 a b c d ''-''"
    "decodeTemplate ip [mRevDash] = join4 d c b a ''-''"
    "decodeTemplate ip [mFwdDot] = join4 a b c d ''.''"
    "decodeTemplate ip [mRevDot] = join4 d c b a ''.''"
  using assms by (simp_all add: decodeTemplate_def byte_replacer_def marker_defs)

lemma decode_join4:
  assumes "octets ip = (a, b, c, d)" "sep = ''-'' \<or> sep = ''.''"
  shows "decodeTemplate ip (join4 a b c d sep) = join4 a b c d sep"
    "decodeTemplate ip (join4 d c b a sep) = join4 d c b a sep"
  using join4_no_marker [OF assms] by (auto intro!: decodeTemplate_id)

lemma decode_encodeTemplate: "decodeTemplate ip (encodeTemplate ip host) = decodeTemplate ip host"
proof -
  obtain a b c d where o: "octets ip = (a, b, c, d)"
    by (metis prod.collapse)
  note hom = hom_replace_all [of "decodeTemplate ip", OF decodeTemplate_append]
  show ?thesis
    unfolding encodeTemplate_def o Let_def prod.case
    by (simp add: hom decode_join4 [OF o] decodeTemplate_marker [OF o])
qed

lemma join4_long:
  assumes "octets ip = (a, b, c, d)"
  shows "1 < length (join4 a b c d [k])" "1 < length (join4 d c b a [k])"
proof -
  have "7 \<le> length (join4 a b c d [k])" "7 \<le> length (join4 d c b a [k])"
    using octet_bounds [OF assms] by (auto intro!: join4_chars(2))
  then show "1 < length (join4 a b c d [k])" "1 < length (join4 d c b a [k])"
    by linarith+
qed

lemma decodeTemplate_grows:
  assumes "m \<in> set s" and "m \<in> markers"
  shows "length s < length (decodeTemplate ip s)"
proof -
  obtain a b c d where o: "octets ip = (a, b, c, d)"
    by (metis prod.collapse)
  show ?thesis
    unfolding decodeTemplate_def o Let_def prod.case
    using assms join4_long [OF o] by (intro length_byte_replacer(2) [where c = m]) (auto simp: markers_def)
qed

lemma decodeTemplate_eq_iff: "decodeTemplate ip s = s \<longleftrightarrow> set s \<inter> markers = {}"
  using decodeTemplate_grows decodeTemplate_id by (metis disjoint_iff less_irrefl)

lemma length_encodeTemplate: "length (encodeTemplate ip host) \<le> length host"
proof -
  obtain a b c d where o: "octets ip = (a, b, c, d)"
    by (metis prod.collapse)
  have small: "length [m] \<le> length (join4 a b c d [k])" "length [m] \<le> length (join4 d c b a [k])"
    for k m :: char
    using join4_long [OF o, of k] by simp_all
  show ?thesis
    unfolding encodeTemplate_def o Let_def prod.case
    by (intro order_trans [OF length_replace_all] small order_refl)
qed

text \<open>
  C28. Templating is reversible: decoding the encoded host name gives the name back if and only
  if the name contains none of the four marker bytes (DNS presentation format never does).
\<close>

theorem template_roundtrip:
  "decodeTemplate ip (encodeTemplate ip host) = host \<longleftrightarrow> set host \<inter> markers = {}"
  by (simp add: decode_encodeTemplate decodeTemplate_eq_iff)

end
