(* ===== verification/Go_Net.thy ===== *)
theory Go_Net
  imports Store_Template
begin

unbundle bit_operations_syntax

text \<open>
  The address functions of the Go standard library that the sources call: \<open>net.ParseIP\<close> (the
  IPv4 and IPv6 parsers of \<open>net/netip\<close>), \<open>IP.To4\<close>, and the \<^verbatim>\<open>%d.%d.%d.%d\<close> rendering of a
  32-bit address. A rendered address parses back to its four octets.
\<close>

section \<open>Definitions\<close>

definition sprintf_dotted :: "u32 \<Rightarrow> string" where
  "sprintf_dotted v =
     show_nat (unat (drop_bit 24 v)) @ ''.'' @ show_nat (unat (drop_bit 16 v AND 0xff)) @ ''.'' @
     show_nat (unat (drop_bit 8 v AND 0xff)) @ ''.'' @ show_nat (unat (v AND 0xff))"

definition is_digit :: "char \<Rightarrow> bool" where
  "is_digit c \<longleftrightarrow> 48 \<le> (of_char c :: nat) \<and> (of_char c :: nat) \<le> 57"

text \<open>
  \<open>parseIPv4Fields\<close>: the current octet's value and number of digits, and the octets before it.
  No digit since the last dot (or the start) is \<open>digLen = 0\<close>.
\<close>

fun v4_fields :: "string \<Rightarrow> nat \<Rightarrow> nat \<Rightarrow> bytes \<Rightarrow> bytes option" where
  "v4_fields [] val digLen fs = (if length fs < 3 then None else Some (fs @ [of_nat val]))"
| "v4_fields (c # cs) val digLen fs =
     (if is_digit c then
        (if digLen = 1 \<and> val = 0 then None
         else let val = val * 10 + (of_char c - 48) in
           if 255 < val then None else v4_fields cs val (digLen + 1) fs)
      else if c = CHR ''.'' then
        (if digLen = 0 \<or> cs = [] then None
         else if length fs = 3 then None
         else v4_fields cs 0 0 (fs @ [of_nat val]))
      else None)"

definition hex_val :: "char \<Rightarrow> nat option" where
  "hex_val c =
     (let n = of_char c in
      if 48 \<le> n \<and> n \<le> 57 then Some (n - 48)
      else if 97 \<le> n \<and> n \<le> 102 then Some (n - 97 + 10)
      else if 65 \<le> n \<and> n \<le> 70 then Some (n - 65 + 10)
      else None)"

text \<open>One group of hexadecimal digits: how many, their value, what follows.\<close>

fun hex_group :: "string \<Rightarrow> nat \<Rightarrow> nat \<Rightarrow> (nat \<times> nat \<times> string) option" where
  "hex_group [] off acc = Some (off, acc, [])"
| "hex_group (c # cs) off acc =
     (case hex_val c of
        None \<Rightarrow> Some (off, acc, c # cs)
      | Some d \<Rightarrow>
          let acc = acc * 16 + d in
          if 3 < off \<or> 65535 < acc then None else hex_group cs (off + 1) acc)"

text \<open>The group loop of \<open>parseIPv6\<close>: rest, bytes so far, position of the ellipsis.\<close>

function v6_loop :: "string \<Rightarrow> bytes \<Rightarrow> nat option \<Rightarrow> (string \<times> bytes \<times> nat option) option" where
  "v6_loop s ip ell =
     (if length ip < 16 then
        (case hex_group s 0 0 of
           None \<Rightarrow> None
         | Some (off, acc, rest) \<Rightarrow>
             if off = 0 then None
             else if rest \<noteq> [] \<and> hd rest = CHR ''.'' then
               (if ell = None \<and> length ip \<noteq> 12 then None
                else if 16 < length ip + 4 then None
                else case v4_fields s 0 0 [] of None \<Rightarrow> None | Some q \<Rightarrow> Some ([], ip @ q, ell))
             else let ip = ip @ [of_nat (acc div 256), of_nat acc] in
               if rest = [] then Some ([], ip, ell)
               else if hd rest \<noteq> CHR '':'' \<or> length rest = 1 then None
               else let s = tl rest in
                 if hd s = CHR '':'' then
                   (if ell \<noteq> None then None
                    else if tl s = [] then Some ([], ip, Some (length ip))
                    else v6_loop (tl s) ip (Some (length ip)))
                 else v6_loop s ip ell)
      else Some (s, ip, ell))"
  by pat_completeness auto
termination
  by (relation "measure (\<lambda>(s, ip, ell). 16 - length ip)") auto

declare v6_loop.simps [simp del]

text \<open>\<open>parseIPv6\<close>; \<open>net.ParseIP\<close> rejects every address with a zone.\<close>

definition parse_v6 :: "string \<Rightarrow> bytes option" where
  "parse_v6 s =
     (if CHR ''%'' \<in> set s then None
      else if s = ''::'' then Some (replicate 16 0)
      else
        let ell = (if prefix ''::'' s then Some 0 else None);
            s = (if prefix ''::'' s then drop 2 s else s)
        in case v6_loop s [] ell of
             None \<Rightarrow> None
           | Some (rest, ip, ell) \<Rightarrow>
               if rest \<noteq> [] then None
               else if length ip < 16 then
                 (case ell of None \<Rightarrow> None
                  | Some e \<Rightarrow> Some (take e ip @ replicate (16 - length ip) 0 @ drop e ip))
               else if ell \<noteq> None then None else Some ip)"

definition v4_in_v6 :: bytes where
  "v4_in_v6 = replicate 10 0 @ [0xff, 0xff]"

definition ParseIP :: "string \<Rightarrow> bytes option" where
  "ParseIP s =
     (case find (\<lambda>c. c \<in> set ''.:%'') s of
        None \<Rightarrow> None
      | Some c \<Rightarrow>
          if c = CHR ''.'' then map_option ((@) v4_in_v6) (v4_fields s 0 0 [])
          else if c = CHR '':'' then parse_v6 s
          else None)"

definition To4 :: "bytes \<Rightarrow> bytes option" where
  "To4 ip = (if length ip = 16 \<and> take 12 ip = v4_in_v6 then Some (drop 12 ip) else None)"

section \<open>A rendered address parses back\<close>

lemma is_digit_digit_char [simp]: "d < 10 \<Longrightarrow> is_digit (digit_char d)"
  by (simp add: is_digit_def)

lemma not_digit_dot [simp]: "\<not> is_digit (CHR ''.'')"
  by (simp add: is_digit_def)

lemma v4_fields_number:
  assumes "n < 256"
  shows "\<exists>k. 0 < k \<and> v4_fields (show_nat n @ rest) 0 0 fs = v4_fields rest n k fs"
proof -
  consider "n < 10" | "10 \<le> n" "n < 100" | "100 \<le> n" by linarith
  then show ?thesis
  proof cases
    case 1
    then show ?thesis by (intro exI [of _ 1]) (simp add: show_nat.simps [of n])
  next
    case 2
    define q r where "q = n div 10" and "r = n mod 10"
    have q: "q < 10" "q \<noteq> 0" "r < 10" "q * 10 + r = n" "q * 10 + r \<le> 255"
      using 2 by (auto simp: q_def r_def)
    have "show_nat n = [digit_char q, digit_char r]"
      using 2 q(1) by (simp add: show_nat.simps [of n] show_nat.simps [of "n div 10"] q_def r_def)
    with q show ?thesis by (intro exI [of _ "Suc (Suc 0)"]) simp
  next
    case 3
    define p q r where "p = n div 100" and "q = n div 10 mod 10" and "r = n mod 10"
    have n10: "n div 10 = p * 10 + q" by (simp add: p_def q_def div_mult2_eq [of n 10 10, simplified])
    have q: "p < 10" "p \<noteq> 0" "q < 10" "r < 10" "(p * 10 + q) * 10 + r = n" "p * 10 + q \<le> 255"
      using 3 assms n10 by (auto simp: p_def q_def r_def)
    have "show_nat n = [digit_char p, digit_char q, digit_char r]"
      using 3 q(1) by (simp add: show_nat.simps [of n] show_nat.simps [of "n div 10"]
          show_nat.simps [of "n div 100"] q_def r_def p_def div_mult2_eq [of n 10 10, simplified, symmetric])
    with q assms show ?thesis by (intro exI [of _ "Suc (Suc (Suc 0))"]) simp
  qed
qed

lemma v4_fields_dotted:
  assumes "a < 256" "b < 256" "c < 256" "d < 256"
  shows "v4_fields (show_nat a @ ''.'' @ show_nat b @ ''.'' @ show_nat c @ ''.'' @ show_nat d) 0 0 [] =
     Some [of_nat a, of_nat b, of_nat c, of_nat d]"
proof -
  have step: "v4_fields (show_nat n @ CHR ''.'' # rest) 0 0 fs = v4_fields rest 0 0 (fs @ [of_nat n])"
    if "n < 256" "rest \<noteq> []" "length fs < 3" for n rest and fs :: bytes
    using v4_fields_number [OF that(1), of "CHR ''.'' # rest" fs] that by auto
  have last: "v4_fields (show_nat n) 0 0 fs = Some (fs @ [of_nat n])" if "n < 256" "length fs = 3" for n and fs :: bytes
    using v4_fields_number [OF that(1), of "[]" fs] that(2) by auto
  show ?thesis using assms by (simp add: step last)
qed

lemma find_skip: "(\<And>x. x \<in> set xs \<Longrightarrow> \<not> P x) \<Longrightarrow> find P (xs @ ys) = find P ys"
  by (induction xs) auto

lemma ParseIP_dotted:
  "ParseIP (sprintf_dotted v) = Some (v4_in_v6 @
     [of_nat (unat (drop_bit 24 v)), of_nat (unat (drop_bit 16 v AND 0xff)),
      of_nat (unat (drop_bit 8 v AND 0xff)), of_nat (unat (v AND 0xff))])"
proof -
  obtain a b c d where o: "octets v = (a, b, c, d)" by (cases "octets v") auto
  note bounds = octet_bounds [OF o]
  have e: "a = drop_bit 24 v" "b = drop_bit 16 v AND 0xff" "c = drop_bit 8 v AND 0xff" "d = v AND 0xff"
    using o by (simp_all add: octets_def)
  have "find (\<lambda>c. c \<in> set ''.:%'') (show_nat n @ CHR ''.'' # rest) = Some (CHR ''.'')" for n rest
    using show_nat_digits [of _ n] by (subst find_skip) fastforce+
  then show ?thesis
    using v4_fields_dotted [OF bounds]
    by (simp add: ParseIP_def sprintf_dotted_def e [symmetric])
qed

end
