(* ===== verification/Ipgen.thy ===== *)
theory Ipgen
  imports Go_Net Complex_Main
begin

unbundle bit_operations_syntax

text \<open>
  The address generators (\<^verbatim>\<open>src/internal/ipgen/ipgen.go\<close>): the reserved ranges, the random and
  the sequential generator and the sharded walk with its sampling hash. A generator goroutine is
  the function from its delivery schedule (does the send on the output channel happen, or is the
  context cancelled first?) to the addresses it delivers and the cursor values it offers. The
  locale \<open>walk\<close> is the contract of an ascending walk over the address space; both walks
  interpret it.
\<close>

section \<open>Reserved space\<close>

definition ReservedIPv4Ranges :: "(u32 \<times> u32) list" where
  "ReservedIPv4Ranges =
     [(0, 16777215), (167772160, 184549375), (1681915904, 1686110207), (2130706432, 2147483647),
      (2851995648, 2852061183), (2886729728, 2887778303), (3221225472, 3221225727),
      (3221225984, 3221226239), (3227017984, 3227018239), (3232235520, 3232301055),
      (3323068416, 3323199487), (3325256704, 3325256959), (3405803776, 3405804031),
      (3758096384, 4026531839), (4026531840, 4294967295)]"

definition in_range :: "u32 \<Rightarrow> u32 \<times> u32 \<Rightarrow> bool" where
  "in_range v r \<longleftrightarrow> fst r \<le> v \<and> v \<le> snd r"

definition IsReserved :: "u32 \<Rightarrow> bool" where
  "IsReserved v \<longleftrightarrow> list_ex (in_range v) ReservedIPv4Ranges"

definition IntToIP :: "u32 \<Rightarrow> string" where
  "IntToIP v = sprintf_dotted v"

definition IPToInt :: "string \<Rightarrow> u32" where
  "IPToInt s =
     (case ParseIP s of None \<Rightarrow> 0
      | Some ip \<Rightarrow>
          (case To4 ip of None \<Rightarrow> 0
           | Some q \<Rightarrow> push_bit 24 (ucast (q ! 0)) OR push_bit 16 (ucast (q ! 1)) OR
                       push_bit 8 (ucast (q ! 2)) OR ucast (q ! 3)))"

definition TotalRoutableIPv4 :: u64 where
  "TotalRoutableIPv4 =
     2 ^ 32 - sum_list (map (\<lambda>r. ucast (snd r) - ucast (fst r) + 1) ReservedIPv4Ranges)"

text \<open>Jump past the reserved block that holds \<open>iv\<close>.\<close>

definition skip_block :: "u32 \<Rightarrow> u64 \<Rightarrow> u64" where
  "skip_block iv v =
     (case find (in_range iv) ReservedIPv4Ranges of
        Some r \<Rightarrow> ucast (snd r) + 1 | None \<Rightarrow> v)"

section \<open>Generators\<close>

text \<open>
  The random generator draws from the sequence \<open>rng\<close> of its seeded source; \<open>i\<close> is the number of
  draws so far. The loop need not end, so its value is an option.
\<close>

partial_function (option) rand_loop ::
  "(nat \<Rightarrow> u32) \<Rightarrow> (nat \<Rightarrow> bool) \<Rightarrow> int \<Rightarrow> nat \<Rightarrow> u32 list \<Rightarrow> string list option" where
  "rand_loop rng deliver n i seen =
     (if int (length seen) < n then
        (let v = rng i in
         if IsReserved v then rand_loop rng deliver n (i + 1) seen
         else if v \<in> set seen then rand_loop rng deliver n (i + 1) seen
         else if deliver (length seen)
              then Option.bind (rand_loop rng deliver n (i + 1) (v # seen)) (\<lambda>out. Some (IntToIP v # out))
              else Some [])
      else Some [])"

definition GenerateRandom :: "(nat \<Rightarrow> u32) \<Rightarrow> (nat \<Rightarrow> bool) \<Rightarrow> int \<Rightarrow> string list option" where
  "GenerateRandom rng deliver n = rand_loop rng deliver n 0 []"

lemma IsReserved_find:
  "IsReserved iv \<longleftrightarrow> (\<exists>r. find (in_range iv) ReservedIPv4Ranges = Some r \<and> in_range iv r \<and> r \<in> set ReservedIPv4Ranges)"
  unfolding IsReserved_def list_ex_iff find_Some_iff2 by (metis find_Some_iff find_None_iff not_None_eq nth_mem)

lemma unat_ucast_32_64 [simp]: "unat (ucast (x :: u32) :: u64) = unat x"
  using less_trans [OF unat_u32_less [of x], of "2 ^ 64"] by (simp add: unat_ucast_mod)

lemma unat_Suc_ucast: "unat (ucast (x :: u32) + 1 :: u64) = unat x + 1"
proof -
  have "unat x + 1 < 18446744073709551616" using unat_u32_less [of x] by linarith
  then show ?thesis by (simp add: unat_word_ariths)
qed

lemma skip_block_greater:
  assumes "v \<le> 0xffffffff" and "IsReserved (ucast (v :: u64))"
  shows "unat v < unat (skip_block (ucast v) v)"
proof -
  obtain r where r: "find (in_range (ucast v)) ReservedIPv4Ranges = Some r" "(ucast v :: u32) \<le> snd r"
    using assms(2) by (auto simp: IsReserved_find in_range_def)
  have "unat v \<le> 0xffffffff" using assms(1) by (simp add: word_le_nat_alt)
  then have "unat (ucast v :: u32) = unat v" by (simp add: unat_simps)
  with r(2) have "unat v \<le> unat (snd r)" by (simp add: word_le_nat_alt)
  moreover have "unat (ucast (snd r) + 1 :: u64) = unat (snd r) + 1"
    by (rule unat_Suc_ucast)
  ultimately show ?thesis using r(1) by (simp add: skip_block_def)
qed

lemma unat_Suc_addr: "(v :: u64) \<le> 0xffffffff \<Longrightarrow> unat (v + 1) = unat v + 1"
  by (simp add: word_le_nat_alt unat_word_ariths)

function seq_loop :: "(u64 \<Rightarrow> bool) \<Rightarrow> u64 \<Rightarrow> u64 \<Rightarrow> u64 \<Rightarrow> u32 list" where
  "seq_loop deliver cnt_max emitted v =
     (if emitted < cnt_max \<and> v \<le> 0xffffffff then
        (let iv = ucast v in
         if IsReserved iv then seq_loop deliver cnt_max emitted (skip_block iv v)
         else if deliver emitted then iv # seq_loop deliver cnt_max (emitted + 1) (v + 1)
         else [])
      else [])"
  by pat_completeness auto
termination
proof (relation "measure (\<lambda>(d, c, e, v). 2 ^ 32 - unat v)")
  fix deliver :: "u64 \<Rightarrow> bool" and cnt_max emitted v :: u64 and iv :: u32
  assume "emitted < cnt_max \<and> v \<le> 0xffffffff" "iv = ucast v" "IsReserved iv"
  then show "((deliver, cnt_max, emitted, skip_block iv v), deliver, cnt_max, emitted, v)
      \<in> measure (\<lambda>(d, c, e, v). 2 ^ 32 - unat v)"
    using skip_block_greater [of v] by (auto simp: word_le_nat_alt)
next
  fix deliver :: "u64 \<Rightarrow> bool" and cnt_max emitted v :: u64 and iv :: u32
  assume "emitted < cnt_max \<and> v \<le> 0xffffffff"
  then show "((deliver, cnt_max, emitted + 1, v + 1), deliver, cnt_max, emitted, v)
      \<in> measure (\<lambda>(d, c, e, v). 2 ^ 32 - unat v)"
    using unat_Suc_addr [of v] by (auto simp: word_le_nat_alt)
qed simp

declare seq_loop.simps [simp del]

definition GenerateSequential :: "(u64 \<Rightarrow> bool) \<Rightarrow> u32 \<Rightarrow> u64 \<Rightarrow> string list" where
  "GenerateSequential deliver startIP cnt_max = map IntToIP (seq_loop deliver cnt_max 0 (ucast startIP))"

record ShardConfig =
  c_Shards :: u32
  c_ShardID :: u32
  c_StartIP :: u32
  c_Limit :: u64
  c_SampleThreshold :: u32

text \<open>
  \<open>uint64(percent / 100.0 * 4294967296.0)\<close>: the division rounds (the parameter \<open>div100\<close>), the
  product with a power of two is exact, the conversion truncates.
\<close>

definition SampleThresholdForPercent :: "(real \<Rightarrow> real) \<Rightarrow> real \<Rightarrow> u32" where
  "SampleThresholdForPercent div100 percent =
     (if percent \<le> 0 \<or> 100 \<le> percent then 0
      else let t = of_int \<lfloor>div100 percent * 4294967296\<rfloor> :: u64;
               t = (if t = 0 then 1 else t);
               t = (if 0xffffffff < t then 0xffffffff else t)
           in ucast t)"

definition mix64 :: "u64 \<Rightarrow> u64" where
  "mix64 x =
     (let x = x + 0x9e3779b97f4a7c15;
          x = (x XOR drop_bit 30 x) * 0xbf58476d1ce4e5b9;
          x = (x XOR drop_bit 27 x) * 0x94d049bb133111eb
      in x XOR drop_bit 31 x)"

definition inShardSample :: "u32 \<Rightarrow> ShardConfig \<Rightarrow> bool" where
  "inShardSample ip cfg =
     (if c_SampleThreshold cfg \<noteq> 0 then
        (let h = mix64 (ucast ip) in
         if c_SampleThreshold cfg \<le> ucast h then False
         else ucast (drop_bit 32 h) mod c_Shards cfg = c_ShardID cfg)
      else ip mod c_Shards cfg = c_ShardID cfg)"

definition checkpointEvery :: u64 where "checkpointEvery = 131072"

text \<open>The walk: the delivered addresses and the values offered on the cursor channel.\<close>

function shard_loop ::
  "(u64 \<Rightarrow> bool) \<Rightarrow> ShardConfig \<Rightarrow> u64 \<times> u64 \<Rightarrow> u64 \<Rightarrow> u32 list \<times> u32 list" where
  "shard_loop deliver cfg (emitted, sinceCheckpoint) v =
     (if v \<le> 0xffffffff then
        (if c_Limit cfg \<noteq> 0 \<and> c_Limit cfg \<le> emitted then ([], [])
         else let iv = ucast v in
           if IsReserved iv then shard_loop deliver cfg (emitted, sinceCheckpoint) (skip_block iv v)
           else if \<not> inShardSample iv cfg then shard_loop deliver cfg (emitted, sinceCheckpoint) (v + 1)
           else if deliver emitted then
             (let since = sinceCheckpoint + 1;
                  chk = checkpointEvery \<le> since;
                  (outs, curs) = shard_loop deliver cfg (emitted + 1, if chk then 0 else since) (v + 1)
              in (iv # outs, if chk then iv # curs else curs))
           else ([], []))
      else ([], []))"
  by pat_completeness auto
termination
proof (relation "measure (\<lambda>(d, c, e, v). 2 ^ 32 - unat v)")
  fix deliver :: "u64 \<Rightarrow> bool" and cfg :: ShardConfig and emitted since v :: u64 and iv :: u32
  assume "v \<le> 0xffffffff" "iv = ucast v" "IsReserved iv"
  then show "((deliver, cfg, (emitted, since), skip_block iv v), deliver, cfg, (emitted, since), v)
      \<in> measure (\<lambda>(d, c, e, v). 2 ^ 32 - unat v)"
    using skip_block_greater [of v] by (auto simp: word_le_nat_alt)
qed (simp_all add: unat_Suc_addr word_le_nat_alt)

declare shard_loop.simps [simp del]

definition GenerateShardedFull :: "(u64 \<Rightarrow> bool) \<Rightarrow> ShardConfig \<Rightarrow> string list \<times> u32 list" where
  "GenerateShardedFull deliver cfg =
     (let cfg = (if c_Shards cfg = 0 then cfg\<lparr>c_Shards := 1\<rparr> else cfg);
          (outs, curs) = shard_loop deliver cfg (0, 0) (ucast (c_StartIP cfg))
      in (map IntToIP outs, curs))"

section \<open>The contract of an ascending walk\<close>

text \<open>
  The addresses a run hands out from a list: one per send as long as the sends are allowed;
  \<open>n\<close> counts the sends.
\<close>

fun handed :: "(u64 \<Rightarrow> bool) \<Rightarrow> u64 \<Rightarrow> 'a list \<Rightarrow> 'a list" where
  "handed ok n [] = []"
| "handed ok n (x # xs) = (if ok n then x # handed ok (n + 1) xs else [])"

text \<open>The addresses at or above a point that satisfy a predicate, in ascending order.\<close>

definition addrs_from :: "(u32 \<Rightarrow> bool) \<Rightarrow> u64 \<Rightarrow> u32 list" where
  "addrs_from keep v = filter keep (map of_nat [unat v..<2 ^ 32])"

locale walk =
  fixes keep :: "u32 \<Rightarrow> bool"
    and ok :: "u64 \<Rightarrow> bool"
    and cnt :: "'s \<Rightarrow> u64"
    and nxt :: "'s \<Rightarrow> 's"
    and gen :: "'s \<Rightarrow> u64 \<Rightarrow> u32 list"
  assumes cnt_nxt: "cnt (nxt s) = cnt s + 1"
    and past_end: "0xffffffff < v \<Longrightarrow> gen s v = []"
    and keep_step: "v \<le> 0xffffffff \<Longrightarrow> keep (ucast v) \<Longrightarrow>
      gen s v = (if ok (cnt s) then ucast v # gen (nxt s) (v + 1) else [])"
    and skip_step: "v \<le> 0xffffffff \<Longrightarrow> \<not> keep (ucast v) \<Longrightarrow>
      (\<not> ok (cnt s) \<and> gen s v = []) \<or>
      (\<exists>w. v < w \<and> w \<le> 0x100000000 \<and> (\<forall>u. v \<le> u \<and> u < w \<longrightarrow> \<not> keep (ucast u)) \<and> gen s v = gen s w)"
begin

lemma addrs_keep: "v \<le> 0xffffffff \<Longrightarrow> keep (ucast v) \<Longrightarrow> addrs_from keep v = ucast v # addrs_from keep (v + 1)"
proof -
  assume v: "v \<le> 0xffffffff" "keep (ucast v)"
  have "unat v < 2 ^ 32" using v(1) by (simp add: word_le_nat_alt)
  then have "[unat v..<2 ^ 32] = unat v # [unat (v + 1)..<2 ^ 32]"
    using unat_Suc_addr [OF v(1)] by (simp add: upt_rec)
  then show ?thesis using v(2) by (simp add: addrs_from_def)
qed

lemma addrs_skip:
  assumes "v < w" "w \<le> 0x100000000" and no: "\<And>u. v \<le> u \<Longrightarrow> u < w \<Longrightarrow> \<not> keep (ucast u)"
  shows "addrs_from keep v = addrs_from keep w"
proof -
  have le: "unat v \<le> unat w" "unat w \<le> 2 ^ 32"
    using assms(1,2) by (simp_all add: word_less_nat_alt word_le_nat_alt)
  then have split: "[unat v..<2 ^ 32] = [unat v..<unat w] @ [unat w..<2 ^ 32]"
    by (metis le_add_diff_inverse upt_add_eq_append)
  have "\<not> keep (of_nat n)" if "unat v \<le> n" "n < unat w" for n
  proof -
    have n: "unat (of_nat n :: u64) = n" using that(2) le(2) by (simp add: unat_of_nat)
    have "\<not> keep (ucast (of_nat n :: u64))"
      using that n by (intro no) (simp_all add: word_less_nat_alt word_le_nat_alt)
    moreover have "ucast (of_nat n :: u64) = (of_nat n :: u32)"
      using n by (simp add: word_unat_eq_iff unat_ucast_mod unat_of_nat)
    ultimately show ?thesis by simp
  qed
  then have "filter keep (map of_nat [unat v..<unat w]) = []"
    by (auto simp: filter_empty_conv)
  then show ?thesis unfolding addrs_from_def split by simp
qed

lemma addrs_end: "0xffffffff < v \<Longrightarrow> addrs_from keep v = []"
  by (simp add: addrs_from_def word_less_nat_alt)

text \<open>A walk hands out exactly the kept addresses, from the start point up.\<close>

theorem gen_handed: "gen s v = handed ok (cnt s) (addrs_from keep v)"
proof (induction "2 ^ 32 - unat v" arbitrary: s v rule: less_induct)
  case less
  show ?case
  proof (cases "v \<le> 0xffffffff")
    case False
    then show ?thesis by (simp add: past_end addrs_end)
  next
    case True
    then have lt: "unat v < 2 ^ 32" by (simp add: word_le_nat_alt)
    show ?thesis
    proof (cases "keep (ucast v)")
      case k: True
      have "gen (nxt s) (v + 1) = handed ok (cnt (nxt s)) (addrs_from keep (v + 1))"
        using lt unat_Suc_addr [OF True] by (intro less) simp
      then show ?thesis by (simp add: keep_step [OF True k] addrs_keep [OF True k] cnt_nxt)
    next
      case nk: False
      from skip_step [OF True nk, of s] show ?thesis
      proof
        assume "\<not> ok (cnt s) \<and> gen s v = []"
        then show ?thesis by (cases "addrs_from keep v") auto
      next
        assume "\<exists>w. v < w \<and> w \<le> 0x100000000 \<and> (\<forall>u. v \<le> u \<and> u < w \<longrightarrow> \<not> keep (ucast u)) \<and> gen s v = gen s w"
        then obtain w where w: "v < w" "w \<le> 0x100000000" "\<And>u. v \<le> u \<Longrightarrow> u < w \<Longrightarrow> \<not> keep (ucast u)" "gen s v = gen s w"
          by auto
        have "gen s w = handed ok (cnt s) (addrs_from keep w)"
          using w(1) lt by (intro less) (simp add: word_less_nat_alt)
        then show ?thesis using addrs_skip [OF w(1-3)] w(4) by simp
      qed
    qed
  qed
qed

end

section \<open>Both walks satisfy it\<close>

lemma skip_block_reserved:
  assumes "v \<le> 0xffffffff" and "IsReserved (ucast (v :: u64))"
  shows "v < skip_block (ucast v) v" "skip_block (ucast v) v \<le> 0x100000000"
    "\<And>u. v \<le> u \<Longrightarrow> u < skip_block (ucast v) v \<Longrightarrow> IsReserved (ucast u)"
proof -
  obtain r where r: "find (in_range (ucast v)) ReservedIPv4Ranges = Some r" "in_range (ucast v) r" "r \<in> set ReservedIPv4Ranges"
    using assms(2) by (auto simp: IsReserved_find)
  have sk: "unat (skip_block (ucast v) v) = unat (snd r) + 1"
    using r(1) by (simp add: skip_block_def unat_Suc_ucast)
  show "v < skip_block (ucast v) v"
    using skip_block_greater [OF assms] by (simp add: word_less_nat_alt)
  show "skip_block (ucast v) v \<le> 0x100000000"
    unfolding word_le_nat_alt sk using Suc_leI [OF unat_u32_less [of "snd r"]] by simp
  fix u :: u64
  assume u: "v \<le> u" "u < skip_block (ucast v) v"
  have "unat v \<le> unat u" "unat u \<le> unat (snd r)"
    using u sk by (simp_all add: word_le_nat_alt word_less_nat_alt)
  moreover have "unat u < 4294967296" "unat v < 4294967296"
    using calculation unat_u32_less [of "snd r"] by linarith+
  then have "unat (ucast u :: u32) = unat u" "unat (ucast v :: u32) = unat v"
    by (simp_all add: unat_simps)
  ultimately have "in_range (ucast u) r"
    using r(2) by (simp add: in_range_def word_le_nat_alt)
  then show "IsReserved (ucast u)"
    using r(3) by (auto simp: IsReserved_def list_ex_iff)
qed

lemma skip_one:
  "v \<le> 0xffffffff \<Longrightarrow> v < v + 1 \<and> v + 1 \<le> 0x100000000 \<and> (\<forall>u. v \<le> u \<and> u < v + 1 \<longrightarrow> u = (v :: u64))"
  using unat_Suc_addr [of v] by (auto simp: word_le_nat_alt word_less_nat_alt word_unat_eq_iff)

interpretation seq: walk "\<lambda>ip. \<not> IsReserved ip" "\<lambda>n. n < cnt_max \<and> deliver n" "\<lambda>s. s" "\<lambda>s. s + 1"
  "seq_loop deliver cnt_max" for deliver cnt_max
proof
  fix s v :: u64
  assume v: "v \<le> 0xffffffff" "\<not> \<not> IsReserved (ucast v)"
  then have "s < cnt_max \<Longrightarrow> seq_loop deliver cnt_max s v = seq_loop deliver cnt_max s (skip_block (ucast v) v)"
    by (simp add: seq_loop.simps [of _ _ _ v])
  moreover have "\<not> s < cnt_max \<Longrightarrow> seq_loop deliver cnt_max s v = []"
    by (simp add: seq_loop.simps)
  ultimately show "(\<not> (s < cnt_max \<and> deliver s) \<and> seq_loop deliver cnt_max s v = []) \<or>
     (\<exists>w. v < w \<and> w \<le> 0x100000000 \<and> (\<forall>u. v \<le> u \<and> u < w \<longrightarrow> \<not> \<not> IsReserved (ucast u)) \<and>
        seq_loop deliver cnt_max s v = seq_loop deliver cnt_max s w)"
    using skip_block_reserved [OF v(1)] v(2) by blast
qed (auto simp: seq_loop.simps)

interpretation shard: walk "\<lambda>ip. \<not> IsReserved ip \<and> inShardSample ip cfg"
  "\<lambda>n. \<not> (c_Limit cfg \<noteq> 0 \<and> c_Limit cfg \<le> n) \<and> deliver n" fst
  "\<lambda>(n, since). (n + 1, if checkpointEvery \<le> since + 1 then 0 else since + 1)"
  "\<lambda>s v. fst (shard_loop deliver cfg s v)" for deliver cfg
proof
  fix s :: "u64 \<times> u64" and v :: u64
  obtain n c where s: "s = (n, c)" by fastforce
  assume v: "v \<le> 0xffffffff" "\<not> (\<not> IsReserved (ucast v) \<and> inShardSample (ucast v) cfg)"
  let ?P = "\<lambda>u. \<not> (\<not> IsReserved (ucast u) \<and> inShardSample (ucast u) cfg)"
  consider "c_Limit cfg \<noteq> 0 \<and> c_Limit cfg \<le> n" | "\<not> (c_Limit cfg \<noteq> 0 \<and> c_Limit cfg \<le> n)" "IsReserved (ucast v)"
    | "\<not> (c_Limit cfg \<noteq> 0 \<and> c_Limit cfg \<le> n)" "\<not> IsReserved (ucast v)" "\<not> inShardSample (ucast v) cfg"
    using v(2) by blast
  then show "(\<not> (\<not> (c_Limit cfg \<noteq> 0 \<and> c_Limit cfg \<le> fst s) \<and> deliver (fst s)) \<and> fst (shard_loop deliver cfg s v) = []) \<or>
     (\<exists>w. v < w \<and> w \<le> 0x100000000 \<and> (\<forall>u. v \<le> u \<and> u < w \<longrightarrow> ?P u) \<and>
        fst (shard_loop deliver cfg s v) = fst (shard_loop deliver cfg s w))"
  proof cases
    case 1
    then show ?thesis by (simp add: s shard_loop.simps)
  next
    case 2
    then have "shard_loop deliver cfg s v = shard_loop deliver cfg s (skip_block (ucast v) v)"
      using v(1) by (auto simp: s shard_loop.simps [of _ _ _ _ v])
    then show ?thesis using skip_block_reserved [OF v(1) 2(2)] by metis
  next
    case 3
    then have "shard_loop deliver cfg s v = shard_loop deliver cfg s (v + 1)"
      using v(1) by (auto simp: s shard_loop.simps [of _ _ _ _ v])
    then show ?thesis using skip_one [OF v(1)] v(2) by metis
  qed
next
  fix s :: "u64 \<times> u64" and v :: u64
  show "0xffffffff < v \<Longrightarrow> fst (shard_loop deliver cfg s v) = []"
    by (cases s) (simp add: shard_loop.simps)
  show "fst (case s of (n, since) \<Rightarrow> (n + 1, if checkpointEvery \<le> since + 1 then 0 else since + 1)) = fst s + 1"
    by (cases s) simp
  obtain n c where s: "s = (n, c)" by fastforce
  assume v: "v \<le> 0xffffffff" "\<not> IsReserved (ucast v) \<and> inShardSample (ucast v) cfg"
  obtain outs curs where
    r: "shard_loop deliver cfg (n + 1, if checkpointEvery \<le> c + 1 then 0 else c + 1) (v + 1) = (outs, curs)"
    by fastforce
  show "fst (shard_loop deliver cfg s v) =
     (if \<not> (c_Limit cfg \<noteq> 0 \<and> c_Limit cfg \<le> fst s) \<and> deliver (fst s)
      then ucast v # fst (shard_loop deliver cfg
        (case s of (n, since) \<Rightarrow> (n + 1, if checkpointEvery \<le> since + 1 then 0 else since + 1)) (v + 1))
      else [])"
    using v r unfolding s by (subst shard_loop.simps) (simp add: Let_def)
qed

section \<open>Handing out a list\<close>

lemma handed_prefix: "\<exists>k\<le>length xs. handed ok n xs = take k xs"
proof (induction xs arbitrary: n)
  case (Cons x xs)
  obtain k where k: "k \<le> length xs" "handed ok (n + 1) xs = take k xs" using Cons.IH by blast
  then show ?case
    by (cases "ok n") (auto intro: exI [of _ "Suc k"] exI [of _ 0])
qed simp

lemma handed_all: "handed (\<lambda>n. True) n xs = xs"
  by (induction xs arbitrary: n) simp_all

lemma handed_limit:
  "unat n + length xs < 2 ^ 64 \<Longrightarrow> n \<le> c \<Longrightarrow> handed (\<lambda>n. n < c) n xs = take (unat c - unat n) xs"
proof (induction xs arbitrary: n)
  case (Cons x xs)
  have n1: "unat (n + 1) = unat n + 1"
    using Cons.prems(1) by (simp add: unat_word_ariths)
  show ?case
  proof (cases "n < c")
    case True
    then have "n + 1 \<le> c" using n1 by (simp add: word_le_nat_alt word_less_nat_alt)
    then have "handed (\<lambda>n. n < c) (n + 1) xs = take (unat c - unat (n + 1)) xs"
      using Cons.prems(1) n1 by (intro Cons.IH) simp_all
    moreover have "unat c - unat n = Suc (unat c - unat (n + 1))"
      using True n1 by (simp add: word_less_nat_alt)
    ultimately show ?thesis using True by simp
  qed (use Cons.prems in simp)
qed simp

lemma length_addrs_from: "length (addrs_from keep v) \<le> 2 ^ 32"
  unfolding addrs_from_def by (rule order_trans [OF length_filter_le]) simp

lemma set_addrs_from: "set (addrs_from keep (ucast a)) = {ip. a \<le> ip \<and> keep ip}"
proof -
  have "ip \<in> of_nat ` {unat a..<2 ^ 32}" if "a \<le> ip" for ip :: u32
    using that unat_u32_less [of ip] by (intro image_eqI [of _ _ "unat ip"]) (simp_all add: word_le_nat_alt)
  moreover have "a \<le> of_nat n" if "unat a \<le> n" "n < 2 ^ 32" for n
    using that by (simp add: word_le_nat_alt unat_of_nat)
  ultimately show ?thesis by (auto simp: addrs_from_def)
qed

lemma sorted_addrs_from: "sorted_wrt (<) (addrs_from keep v)"
proof -
  have "sorted_wrt (<) (map (of_nat :: nat \<Rightarrow> u32) [m..<2 ^ 32])" for m
    by (auto simp: sorted_wrt_iff_nth_less word_less_nat_alt unat_of_nat simp flip: of_nat_add)
  then show ?thesis unfolding addrs_from_def by (rule sorted_wrt_filter)
qed

section \<open>Text form of addresses\<close>

lemma IPToInt_IntToIP: "IPToInt (IntToIP v) = v"
proof -
  have q: "To4 (v4_in_v6 @ [a, b, c, d]) = Some [a, b, c, d]" for a b c d
    by (simp add: To4_def v4_in_v6_def)
  have o: "ucast (ucast (x AND 0xff) :: u8) = x AND 0xff" "unat (drop_bit 24 x) < 256" for x :: u32
  proof -
    show "unat (drop_bit 24 x) < 256" using octet_bounds(1) [of x] by (simp add: octets_def)
    show "ucast (ucast (x AND 0xff) :: u8) = x AND 0xff"
      by (simp add: word_unat_eq_iff unat_simps unat_of_nat unat_and_255)
  qed
  have a: "ucast (ucast (drop_bit 24 v) :: u8) = drop_bit 24 v"
    using o(2) [of v] by (simp add: word_unat_eq_iff unat_ucast_mod unat_of_nat)
  have "push_bit 24 (drop_bit 24 v) OR push_bit 16 (drop_bit 16 v AND 0xff) OR
      push_bit 8 (drop_bit 8 v AND 0xff) OR (v AND 0xff) = v"
  proof (rule bit_word_eqI)
    fix i assume i: "i < LENGTH(32)"
    have m: "x AND 0xff = take_bit 8 x" for x :: u32
      by (simp add: take_bit_eq_mask mask_eq_exp_minus_1)
    show "bit (push_bit 24 (drop_bit 24 v) OR push_bit 16 (drop_bit 16 v AND 0xff) OR
        push_bit 8 (drop_bit 8 v AND 0xff) OR (v AND 0xff)) i \<longleftrightarrow> bit v i"
    proof -
      consider "i < 8" | "8 \<le> i" "i < 16" | "16 \<le> i" "i < 24" | "24 \<le> i" by linarith
      then show ?thesis
        unfolding m by cases (use i in \<open>auto simp: bit_simps\<close>)
    qed
  qed
  then show ?thesis
    by (simp add: IPToInt_def IntToIP_def ParseIP_dotted q o a)
qed

lemma IntToIP_inj: "IntToIP a = IntToIP b \<longleftrightarrow> a = b"
  by (metis IPToInt_IntToIP)

section \<open>Counting reserved space\<close>

definition ranges_disjoint :: "(nat \<times> nat) list \<Rightarrow> bool" where
  "ranges_disjoint rs = sorted_wrt (\<lambda>r s. snd r < fst s) rs"

lemma card_ranges:
  "ranges_disjoint rs \<Longrightarrow> card (\<Union>r\<in>set rs. {fst r..snd r}) = sum_list (map (\<lambda>r. Suc (snd r) - fst r) rs)"
proof (induction rs)
  case (Cons r rs)
  have "{fst r..snd r} \<inter> (\<Union>r\<in>set rs. {fst r..snd r}) = {}"
    using Cons.prems by (auto simp: ranges_disjoint_def)
  then have "card ({fst r..snd r} \<union> (\<Union>r\<in>set rs. {fst r..snd r})) =
      card {fst r..snd r} + card (\<Union>r\<in>set rs. {fst r..snd r})"
    by (intro card_Un_disjoint) auto
  then show ?case using Cons by (simp add: ranges_disjoint_def)
qed simp

definition nat_ranges :: "(nat \<times> nat) list" where
  "nat_ranges = map (map_prod unat unat) ReservedIPv4Ranges"

lemma nat_ranges_eq: "nat_ranges =
     [(0, 16777215), (167772160, 184549375), (1681915904, 1686110207), (2130706432, 2147483647),
      (2851995648, 2852061183), (2886729728, 2887778303), (3221225472, 3221225727),
      (3221225984, 3221226239), (3227017984, 3227018239), (3232235520, 3232301055),
      (3323068416, 3323199487), (3325256704, 3325256959), (3405803776, 3405804031),
      (3758096384, 4026531839), (4026531840, 4294967295)]"
  by (simp add: nat_ranges_def ReservedIPv4Ranges_def)

lemma reserved_image: "unat ` {v. IsReserved v} = (\<Union>r\<in>set nat_ranges. {fst r..snd r})"
proof (intro set_eqI iffI)
  fix n assume "n \<in> (\<Union>r\<in>set nat_ranges. {fst r..snd r})"
  then obtain r where r: "r \<in> set ReservedIPv4Ranges" "unat (fst r) \<le> n" "n \<le> unat (snd r)"
    by (auto simp: nat_ranges_def)
  then have "n < 4294967296" using unat_u32_less [of "snd r"] by linarith
  then have n: "unat (of_nat n :: u32) = n" by (simp add: unat_of_nat)
  then have "IsReserved (of_nat n)"
    using r by (auto simp: IsReserved_def list_ex_iff in_range_def word_le_nat_alt)
  then show "n \<in> unat ` {v. IsReserved v}" using n by (metis image_eqI mem_Collect_eq)
qed (auto simp: nat_ranges_def IsReserved_def list_ex_iff in_range_def word_le_nat_alt)

lemma card_reserved: "card {v. IsReserved v} = 592708864"
proof -
  have "card {v. IsReserved v} = card (unat ` {v. IsReserved v})"
    by (rule card_image [symmetric]) (simp add: inj_on_def word_unat_eq_iff)
  also have "\<dots> = sum_list (map (\<lambda>r. Suc (snd r) - fst r) nat_ranges)"
    unfolding reserved_image by (rule card_ranges) (simp add: nat_ranges_eq ranges_disjoint_def)
  finally show ?thesis by (simp add: nat_ranges_eq)
qed

text \<open>
  \<open>TotalRoutableIPv4\<close> is exact: it is the number of addresses that \<open>IsReserved\<close> does not
  classify as reserved, so no two ranges of the table overlap and none is miscounted.\<close>
lemma total_routable_exact: "unat TotalRoutableIPv4 = card {v. \<not> IsReserved v}"
proof -
  have "card {v. \<not> IsReserved v} = card (UNIV - {v. IsReserved v})"
    by (simp add: set_diff_eq)
  also have "\<dots> = card (UNIV :: u32 set) - card {v. IsReserved v}"
    by (rule card_Diff_subset) simp_all
  also have "\<dots> = 4294967296 - 592708864"
    by (simp add: card_word card_reserved)
  finally show ?thesis by (simp add: TotalRoutableIPv4_def ReservedIPv4Ranges_def)
qed

section \<open>What the walks emit\<close>

abbreviation always :: "u64 \<Rightarrow> bool" where
  "always \<equiv> \<lambda>n. True"

lemma addrs_from_eqI:
  "sorted_wrt (<) xs \<Longrightarrow> set xs = {ip. a \<le> ip \<and> keep ip} \<Longrightarrow> addrs_from keep (ucast a) = xs"
  using strict_sorted_equal [OF sorted_addrs_from] set_addrs_from by metis

text \<open>
  The text form of an address determines it: parsing what \<open>IntToIP\<close> prints gives the
  address back, so the crawler, the cursor file and the records agree on every address.\<close>
lemma ip_text_roundtrip: "IPToInt (IntToIP v) = v"
  by (rule IPToInt_IntToIP)

text \<open>
  C35. The sequential sweep is exact. With an open context it emits, in ascending order, the
  first \<open>count\<close> routable addresses at or above the start address (all of them if there are
  fewer); under any cancellation it emits a prefix of that list.\<close>
theorem sequential_exact:
  "\<exists>xs. sorted_wrt (<) xs \<and> set xs = {ip. start \<le> ip \<and> \<not> IsReserved ip} \<and>
     GenerateSequential always start n = map IntToIP (take (unat n) xs) \<and>
     (\<exists>k. GenerateSequential deliver start n = map IntToIP (take k (take (unat n) xs)))"
proof -
  define xs where "xs = addrs_from (\<lambda>ip. \<not> IsReserved ip) (ucast start)"
  have "length xs \<le> 2 ^ 32" unfolding xs_def by (rule length_addrs_from)
  then have len: "length xs < 2 ^ 64" by simp
  have all: "seq_loop always n 0 (ucast start) = take (unat n) xs"
    using handed_limit [of 0 xs n] len by (simp add: seq.gen_handed xs_def)
  obtain k where k: "seq_loop deliver n 0 (ucast start) = take k xs"
    using handed_prefix [of xs] by (auto simp: seq.gen_handed xs_def)
  have le: "length (handed (\<lambda>m. m < n \<and> deliver m) m xs) \<le> length (handed (\<lambda>m. m < n) m xs)" for m xs
    by (induction xs arbitrary: m) auto
  have "take k xs = take k (take (unat n) xs)"
    using le [of 0 xs] all k
    by (simp add: seq.gen_handed xs_def [symmetric] min_def split: if_splits)
  then show ?thesis
    using all k sorted_addrs_from set_addrs_from
    by (intro exI [of _ xs]) (auto simp: GenerateSequential_def xs_def)
qed

definition norm_shards :: "ShardConfig \<Rightarrow> ShardConfig" where
  "norm_shards cfg = (if c_Shards cfg = 0 then cfg\<lparr>c_Shards := 1\<rparr> else cfg)"

abbreviation shard_member :: "ShardConfig \<Rightarrow> u32 \<Rightarrow> bool" where
  "shard_member cfg \<equiv> \<lambda>ip. \<not> IsReserved ip \<and> inShardSample ip (norm_shards cfg)"

lemma norm_shards_fields [simp]:
  "c_Limit (norm_shards cfg) = c_Limit cfg" "c_StartIP (norm_shards cfg) = c_StartIP cfg"
  by (simp_all add: norm_shards_def)

lemma sharded_full:
  "c_Limit cfg = 0 \<Longrightarrow>
     fst (GenerateShardedFull always cfg) = map IntToIP (addrs_from (shard_member cfg) (ucast (c_StartIP cfg)))"
  by (simp add: GenerateShardedFull_def norm_shards_def [symmetric] Let_def case_prod_unfold
      shard.gen_handed handed_all)

lemma sharded_handed:
  "fst (GenerateShardedFull deliver cfg) = map IntToIP (handed
     (\<lambda>n. \<not> (c_Limit cfg \<noteq> 0 \<and> c_Limit cfg \<le> n) \<and> deliver n) 0
     (addrs_from (shard_member cfg) (ucast (c_StartIP cfg))))"
  by (simp add: GenerateShardedFull_def norm_shards_def [symmetric] Let_def case_prod_unfold shard.gen_handed)

lemma shard_output_iff:
  assumes "0 < n"
  shows "IntToIP ip \<in> set (fst (GenerateShardedFull always
            \<lparr>c_Shards = n, c_ShardID = k, c_StartIP = 0, c_Limit = 0, c_SampleThreshold = t\<rparr>)) \<longleftrightarrow>
      (\<not> IsReserved ip \<and> (t = 0 \<or> ucast (mix64 (ucast ip)) < t)) \<and>
      k = (if t = 0 then ip else ucast (drop_bit 32 (mix64 (ucast ip)))) mod n"
proof -
  let ?cfg = "\<lparr>c_Shards = n, c_ShardID = k, c_StartIP = 0, c_Limit = 0, c_SampleThreshold = t\<rparr>"
  have "inj IntToIP" by (simp add: inj_def IntToIP_inj)
  then have "IntToIP ip \<in> set (fst (GenerateShardedFull always ?cfg)) \<longleftrightarrow> shard_member ?cfg ip"
    using set_addrs_from [of "shard_member ?cfg" 0] sharded_full [of ?cfg] by (simp add: inj_image_mem_iff)
  moreover have "norm_shards ?cfg = ?cfg" using assms by (simp add: norm_shards_def)
  ultimately show ?thesis
    by (cases "t = 0") (auto simp: inShardSample_def Let_def not_le)
qed

text \<open>
  C14. The shards partition the space. With any positive number of shards and any sampling
  threshold, an address is emitted by exactly one shard if it is routable and in the sample
  (every address is, when sampling is off), and by no shard otherwise.\<close>
theorem shards_partition:
  assumes "0 < n"
  shows "(\<exists>!k. k < n \<and> IntToIP ip \<in> set (fst (GenerateShardedFull always
            \<lparr>c_Shards = n, c_ShardID = k, c_StartIP = 0, c_Limit = 0, c_SampleThreshold = t\<rparr>))) =
         (\<not> IsReserved ip \<and> (t = 0 \<or> ucast (mix64 (ucast ip)) < t)) \<and>
     (\<exists>k. IntToIP ip \<in> set (fst (GenerateShardedFull always
            \<lparr>c_Shards = n, c_ShardID = k, c_StartIP = 0, c_Limit = 0, c_SampleThreshold = t\<rparr>))) =
         (\<not> IsReserved ip \<and> (t = 0 \<or> ucast (mix64 (ucast ip)) < t))"
  unfolding shard_output_iff [OF assms] using word_mod_less_divisor [OF assms] by auto

lemma shard_cursors:
  "set (snd (shard_loop deliver cfg s v)) \<subseteq> set (fst (shard_loop deliver cfg s v))"
proof (induction deliver cfg s v rule: shard_loop.induct)
  case (1 deliver cfg emitted since v)
  let ?iv = "ucast v :: u32"
  let ?next = "(emitted + 1, if checkpointEvery \<le> since + 1 then 0 else since + 1)"
  let ?go = "v \<le> 0xffffffff \<and> \<not> (c_Limit cfg \<noteq> 0 \<and> c_Limit cfg \<le> emitted)"
  consider "\<not> ?go" | "?go" "IsReserved ?iv" | "?go" "\<not> IsReserved ?iv" "\<not> inShardSample ?iv cfg"
    | "?go" "\<not> IsReserved ?iv" "inShardSample ?iv cfg" by blast
  then show ?case
  proof cases
    case 1
    then show ?thesis by (auto simp: shard_loop.simps [of _ _ _ _ v])
  next
    case 2
    then have "shard_loop deliver cfg (emitted, since) v = shard_loop deliver cfg (emitted, since) (skip_block ?iv v)"
      by (auto simp: shard_loop.simps [of _ _ _ _ v])
    then show ?thesis using "1.IH"(1) 2 by auto
  next
    case 3
    then have "shard_loop deliver cfg (emitted, since) v = shard_loop deliver cfg (emitted, since) (v + 1)"
      by (auto simp: shard_loop.simps [of _ _ _ _ v])
    then show ?thesis using "1.IH"(2) 3 by auto
  next
    case 4
    have "set (snd (shard_loop deliver cfg ?next (v + 1))) \<subseteq> set (fst (shard_loop deliver cfg ?next (v + 1)))"
      if "deliver emitted" using "1.IH"(3) 4 that by blast
    moreover obtain outs curs where "shard_loop deliver cfg ?next (v + 1) = (outs, curs)" by fastforce
    ultimately show ?thesis
      using 4 by (subst (1 2) shard_loop.simps) (auto simp: Let_def)
  qed
qed

lemma reserved_top: "IsReserved 0xffffffff"
  by (simp add: IsReserved_def ReservedIPv4Ranges_def in_range_def)

lemma addrs_from_tail:
  fixes a :: u32
  assumes L: "addrs_from keep (ucast a) = pre @ c # rest" and "c \<noteq> 0xffffffff"
  shows "addrs_from keep (ucast (c + 1)) = rest"
proof -
  have srt: "sorted_wrt (<) (pre @ c # rest)" using sorted_addrs_from L by metis
  have "c \<in> {ip. a \<le> ip \<and> keep ip}" unfolding set_addrs_from [symmetric] L by simp
  then have c: "a \<le> c" by simp
  have c1: "c + 1 \<le> ip \<longleftrightarrow> c < ip" for ip
  proof -
    have "unat c \<noteq> 4294967295" using assms(2) by (simp add: word_unat_eq_iff)
    then have "unat c + 1 < 4294967296" using unat_u32_less [of c] by linarith
    then have "unat (c + 1) = unat c + 1" by (simp add: unat_word_ariths)
    then show ?thesis by (simp add: word_le_nat_alt word_less_nat_alt Suc_le_eq)
  qed
  have "set rest = {ip. c + 1 \<le> ip \<and> keep ip}"
  proof -
    have "set pre \<union> {c} \<union> set rest = {ip. a \<le> ip \<and> keep ip}"
      unfolding set_addrs_from [symmetric] L by auto
    moreover have "\<forall>x\<in>set pre. x < c" "\<forall>x\<in>set rest. c < x"
      using srt by (auto simp: sorted_wrt_append)
    ultimately show ?thesis unfolding c1 using c by fastforce
  qed
  moreover have "sorted_wrt (<) rest" using srt by (simp add: sorted_wrt_append)
  ultimately show ?thesis by (rule addrs_from_eqI [rotated])
qed

lemma shard_cursor_delivered:
  "set (map IntToIP (snd (GenerateShardedFull deliver cfg))) \<subseteq> set (fst (GenerateShardedFull deliver cfg))"
  using shard_cursors [of deliver "norm_shards cfg" "(0, 0)" "ucast (c_StartIP cfg)"]
  by (auto simp: GenerateShardedFull_def norm_shards_def [symmetric] Let_def case_prod_unfold)

text \<open>
  C15. Resuming a sharded walk loses nothing. In a walk without a limit on the number of addresses, every cursor value a run offers is an address it
  has delivered, and for every delivered address \<open>c\<close> a run that starts at \<open>c + 1\<close> emits exactly
  what was still missing: the addresses delivered up to \<open>c\<close>, followed by the resumed run, are
  the uninterrupted walk.\<close>
theorem shard_resume:
  assumes "c_Limit cfg = 0" and "IntToIP c \<in> set (fst (GenerateShardedFull deliver cfg))"
  shows "set (map IntToIP (snd (GenerateShardedFull deliver cfg))) \<subseteq> set (fst (GenerateShardedFull deliver cfg)) \<and>
     (\<exists>pre suf. fst (GenerateShardedFull deliver cfg) = pre @ [IntToIP c] @ suf \<and>
       pre @ [IntToIP c] @ fst (GenerateShardedFull always (cfg\<lparr>c_StartIP := c + 1\<rparr>)) =
         fst (GenerateShardedFull always cfg))"
proof -
  let ?keep = "shard_member cfg"
  let ?L = "addrs_from ?keep (ucast (c_StartIP cfg))"
  define outs where "outs = handed deliver 0 ?L"
  have "fst (GenerateShardedFull deliver cfg) = map IntToIP outs"
    using assms(1) by (simp add: sharded_handed outs_def)
  then have "c \<in> set outs" using assms(2) by (auto simp: IntToIP_inj)
  then obtain pre suf where ps: "outs = pre @ c # suf" by (meson split_list)
  obtain k where "outs = take k ?L" using handed_prefix unfolding outs_def by blast
  then obtain rest where "?L = outs @ rest" by (metis append_take_drop_id)
  then have L: "?L = pre @ c # (suf @ rest)" using ps by simp
  have "c \<in> {ip. c_StartIP cfg \<le> ip \<and> ?keep ip}" unfolding set_addrs_from [symmetric] L by simp
  then have "c \<noteq> 0xffffffff" using reserved_top by blast
  note tail = addrs_from_tail [OF L this]
  have "inShardSample ip (norm_shards (cfg\<lparr>c_StartIP := c + 1\<rparr>)) = inShardSample ip (norm_shards cfg)" for ip
    by (cases "c_Shards cfg = 0") (simp_all add: norm_shards_def inShardSample_def)
  then have mem: "shard_member (cfg\<lparr>c_StartIP := c + 1\<rparr>) = ?keep"
    by presburger
  have "fst (GenerateShardedFull always (cfg\<lparr>c_StartIP := c + 1\<rparr>)) = map IntToIP (suf @ rest)"
    using assms(1) sharded_full [of "cfg\<lparr>c_StartIP := c + 1\<rparr>"] tail unfolding mem by simp
  moreover have "fst (GenerateShardedFull deliver cfg) = map IntToIP (pre @ c # suf)"
    using assms(1) ps by (simp add: sharded_handed outs_def)
  moreover have "fst (GenerateShardedFull always cfg) = map IntToIP (pre @ c # (suf @ rest))"
    using sharded_full [OF assms(1)] unfolding L .
  ultimately have "fst (GenerateShardedFull deliver cfg) = map IntToIP pre @ [IntToIP c] @ map IntToIP suf \<and>
       map IntToIP pre @ [IntToIP c] @ fst (GenerateShardedFull always (cfg\<lparr>c_StartIP := c + 1\<rparr>)) =
         fst (GenerateShardedFull always cfg)"
    by simp
  then show ?thesis using shard_cursor_delivered by blast
qed

section \<open>Random generation\<close>

lemma rand_loop_total:
  assumes "distinct seen" and "length seen \<le> nat n"
    and "nat n \<le> card (set seen \<union> {v. \<not> IsReserved v \<and> v \<in> rng ` {i..<m}})"
  shows "\<exists>vs. rand_loop rng (\<lambda>_. True) n i seen = Some (map IntToIP vs) \<and> distinct (vs @ seen) \<and>
     length vs + length seen = nat n \<and> list_all (\<lambda>v. \<not> IsReserved v) vs"
  using assms
proof (induction "m - i" arbitrary: i seen)
  case 0
  then have "{v. \<not> IsReserved v \<and> v \<in> rng ` {i..<m}} = {}" by auto
  then have "nat n \<le> card (set seen)" using "0.prems"(3) by (simp only: Un_empty_right)
  then have "length seen = nat n" using "0.prems"(1,2) by (simp add: distinct_card)
  then show ?case by (intro exI [of _ "[]"]) (simp add: rand_loop.simps "0.prems")
next
  case (Suc d)
  define v where "v = rng i"
  have split: "rng ` {i..<m} = insert v (rng ` {i + 1..<m})"
  proof -
    have "{i..<m} = insert i {i + 1..<m}" using Suc.hyps(2) by auto
    then show ?thesis by (simp add: v_def)
  qed
  let ?R = "\<lambda>i. {v. \<not> IsReserved v \<and> v \<in> rng ` {i..<m}}"
  have d: "d = m - (i + 1)" using Suc.hyps(2) by simp
  show ?case
  proof (cases "int (length seen) < n")
    case False
    then have "length seen = nat n" using Suc.prems(2) by simp
    then show ?thesis by (intro exI [of _ "[]"]) (use False in \<open>simp add: rand_loop.simps Suc.prems\<close>)
  next
    case True
    show ?thesis
    proof (cases "IsReserved v \<or> v \<in> set seen")
      case skip: True
      have "set seen \<union> ?R i = set seen \<union> ?R (i + 1)" unfolding split using skip by auto
      then have "nat n \<le> card (set seen \<union> ?R (i + 1))" using Suc.prems(3) by metis
      note IH = Suc.hyps(1) [OF d Suc.prems(1,2) this]
      have "rand_loop rng (\<lambda>_. True) n i seen = rand_loop rng (\<lambda>_. True) n (i + 1) seen"
        using True skip by (subst rand_loop.simps) (auto simp: v_def [symmetric] Let_def)
      then show ?thesis using IH by simp
    next
      case new: False
      have "set seen \<union> ?R i = set (v # seen) \<union> ?R (i + 1)" unfolding split using new by auto
      then have "nat n \<le> card (set (v # seen) \<union> ?R (i + 1))" using Suc.prems(3) by metis
      moreover have "distinct (v # seen)" "length (v # seen) \<le> nat n"
        using new Suc.prems(1) True by auto
      ultimately obtain vs where vs: "rand_loop rng (\<lambda>_. True) n (i + 1) (v # seen) = Some (map IntToIP vs)"
        "distinct (vs @ v # seen)" "length vs + length (v # seen) = nat n" "list_all (\<lambda>v. \<not> IsReserved v) vs"
        using Suc.hyps(1) [OF d, of "v # seen"] by blast
      have "rand_loop rng (\<lambda>_. True) n i seen = Some (map IntToIP (v # vs))"
        using True new vs(1) by (subst rand_loop.simps) (simp add: v_def [symmetric] Let_def)
      then show ?thesis using vs(2-4) new by (intro exI [of _ "v # vs"]) auto
    qed
  qed
qed

text \<open>
  C36. The random generator ends and is duplicate-free: as soon as the random source has shown
  \<open>n\<close> different routable addresses, it has emitted exactly \<open>n\<close> pairwise different routable
  addresses and stops.\<close>
theorem random_exact:
  assumes "nat n \<le> card {v. \<not> IsReserved v \<and> v \<in> rng ` {0..<m}}"
  shows "\<exists>vs. GenerateRandom rng (\<lambda>_. True) n = Some (map IntToIP vs) \<and> distinct (map IntToIP vs) \<and>
     length vs = nat n \<and> list_all (\<lambda>v. \<not> IsReserved v) vs"
  using rand_loop_total [of "[]" n rng 0 m] assms
  by (auto simp: GenerateRandom_def distinct_map inj_on_def IntToIP_inj)

text \<open>
  The sampling threshold is the sampling switch: whatever the rounding of the division, a
  percentage strictly between 0 and 100 gives a threshold between 1 and \<open>2 ^ 32 - 1\<close> (sampling
  on, the truncated share of the hash range), and any other percentage gives 0 (sampling off).\<close>
lemma sample_threshold:
  assumes "0 \<le> div100 percent" and "div100 percent \<le> 1"
  shows "int (unat (SampleThresholdForPercent div100 percent)) =
     (if 0 < percent \<and> percent < 100
      then max 1 (min 4294967295 \<lfloor>div100 percent * 4294967296\<rfloor>) else 0)"
proof -
  define f where "f = \<lfloor>div100 percent * 4294967296\<rfloor>"
  have f: "0 \<le> f" "f \<le> 4294967296"
    using assms by (auto simp: f_def floor_le_iff)
  define t where "t = (of_int f :: u64)"
  have t: "uint t = f" using f by (simp add: t_def uint_word_of_int take_bit_int_eq_self unsigned_of_int)
  have t0: "t = 0 \<longleftrightarrow> f = 0" and tm: "0xffffffff < t \<longleftrightarrow> 4294967295 < f"
    using t by (auto simp: word_uint_eq_iff word_less_def)
  have cast: "uint (ucast x :: u32) = uint x" if "uint x < 4294967296" for x :: u64
    using that by (simp add: unsigned_ucast_eq take_bit_int_eq_self)
  have "int (unat (ucast (if 0xffffffff < (if t = 0 then 1 else t) then 0xffffffff else if t = 0 then 1 else t) :: u32))
      = max 1 (min 4294967295 f)"
    using t f t0 tm by (cases "t = 0"; cases "0xffffffff < t") (auto simp: cast)
  then show ?thesis
    by (auto simp: SampleThresholdForPercent_def Let_def f_def [symmetric] t_def [symmetric])
qed

section \<open>Concrete instances\<close>

theorem shards_partition_witness:
  "\<exists>!k. k < 4 \<and> IntToIP 16777217 \<in> set (fst (GenerateShardedFull always
     \<lparr>c_Shards = 4, c_ShardID = k, c_StartIP = 0, c_Limit = 0, c_SampleThreshold = 0\<rparr>))"
proof -
  have "\<not> IsReserved 16777217" by (simp add: IsReserved_def ReservedIPv4Ranges_def in_range_def)
  then show ?thesis using shards_partition [of 4 16777217 0] by simp
qed

definition cfg_example :: ShardConfig where
  "cfg_example = \<lparr>c_Shards = 1, c_ShardID = 0, c_StartIP = 16777216, c_Limit = 0, c_SampleThreshold = 0\<rparr>"

theorem shard_resume_witness:
  "\<exists>pre suf. fst (GenerateShardedFull (\<lambda>n. n = 0) cfg_example) = pre @ [IntToIP 16777216] @ suf \<and>
     pre @ [IntToIP 16777216] @ fst (GenerateShardedFull always (cfg_example\<lparr>c_StartIP := 16777217\<rparr>)) =
       fst (GenerateShardedFull always cfg_example)"
proof -
  have nr: "\<not> IsReserved 16777216" "\<not> IsReserved 16777217"
    by (simp_all add: IsReserved_def ReservedIPv4Ranges_def in_range_def)
  have "fst (GenerateShardedFull (\<lambda>n. n = 0) cfg_example) = [IntToIP 16777216]"
    by (simp add: GenerateShardedFull_def cfg_example_def shard_loop.simps nr inShardSample_def checkpointEvery_def Let_def)
  then have "IntToIP 16777216 \<in> set (fst (GenerateShardedFull (\<lambda>n. n = 0) cfg_example))" by simp
  then show ?thesis
    using shard_resume [of cfg_example 16777216 "\<lambda>n. n = 0"] by (simp add: cfg_example_def)
qed

theorem random_exact_witness:
  "\<exists>vs. GenerateRandom (\<lambda>i. of_nat (16777216 + i div 2)) (\<lambda>_. True) 2 = Some (map IntToIP vs) \<and>
     distinct (map IntToIP vs) \<and> length vs = 2"
proof -
  let ?rng = "\<lambda>i. of_nat (16777216 + i div 2) :: u32"
  have nr: "\<not> IsReserved 16777216" "\<not> IsReserved 16777217"
    by (simp_all add: IsReserved_def ReservedIPv4Ranges_def in_range_def)
  have "16777216 \<in> ?rng ` {0..<4}" by (rule image_eqI [of _ _ 0]) simp_all
  moreover have "16777217 \<in> ?rng ` {0..<4}" by (rule image_eqI [of _ _ 2]) simp_all
  ultimately have "{16777216, 16777217} \<subseteq> {v. \<not> IsReserved v \<and> v \<in> ?rng ` {0..<4}}" using nr by auto
  then have "card {16777216, 16777217 :: u32} \<le> card {v. \<not> IsReserved v \<and> v \<in> ?rng ` {0..<4}}"
    by (intro card_mono) auto
  then show ?thesis using random_exact [of 2 ?rng 4] by auto
qed

lemma sample_threshold_instance:
  "int (unat (SampleThresholdForPercent (\<lambda>p. p / 100) 2)) = 85899345"
  using sample_threshold [of "\<lambda>p. p / 100" 2] by (simp add: floor_eq_iff)

end
