(* ===== verification/Model_Record.thy ===== *)
theory Model_Record
  imports Go_Strings
begin

unbundle bit_operations_syntax

text \<open>
  Package \<open>model\<close> (\<^verbatim>\<open>src/internal/model/record.go\<close>): the status taxonomy as strings and
  as the compact on-disk codes, status masks with their printer and parser, and the record
  type that the crawler, the writers and the merge share.
\<close>

section \<open>Status taxonomy\<close>

definition StatusHasPTR :: string where "StatusHasPTR = ''has_ptr''"
definition StatusNoErrorEmpty :: string where "StatusNoErrorEmpty = ''noerror_empty''"
definition StatusNXDomain :: string where "StatusNXDomain = ''nxdomain''"
definition StatusServFail :: string where "StatusServFail = ''servfail''"
definition StatusRefused :: string where "StatusRefused = ''refused''"
definition StatusTimeout :: string where "StatusTimeout = ''timeout''"
definition StatusNetError :: string where "StatusNetError = ''net_error''"
definition StatusLameDelegation :: string where "StatusLameDelegation = ''lame_delegation''"

type_synonym status_code = u8

definition CodeHasPTR :: status_code where "CodeHasPTR = 0"
definition CodeNoErrorEmpty :: status_code where "CodeNoErrorEmpty = 1"
definition CodeNXDomain :: status_code where "CodeNXDomain = 2"
definition CodeServFail :: status_code where "CodeServFail = 3"
definition CodeRefused :: status_code where "CodeRefused = 4"
definition CodeTimeout :: status_code where "CodeTimeout = 5"
definition CodeNetError :: status_code where "CodeNetError = 6"
definition CodeLameDelegation :: status_code where "CodeLameDelegation = 7"

definition NumStatusCodes :: nat where "NumStatusCodes = 8"

definition codeToStatus :: "string list" where
  "codeToStatus =
     [StatusHasPTR, StatusNoErrorEmpty, StatusNXDomain, StatusServFail,
      StatusRefused, StatusTimeout, StatusNetError, StatusLameDelegation]"

definition statusToCode :: "(string \<times> status_code) list" where
  "statusToCode =
     [(StatusHasPTR, CodeHasPTR), (StatusNoErrorEmpty, CodeNoErrorEmpty),
      (StatusNXDomain, CodeNXDomain), (StatusServFail, CodeServFail),
      (StatusRefused, CodeRefused), (StatusTimeout, CodeTimeout),
      (StatusNetError, CodeNetError), (StatusLameDelegation, CodeLameDelegation)]"

definition Code :: "string \<Rightarrow> status_code" where
  "Code status = (case map_of statusToCode status of Some c \<Rightarrow> c | None \<Rightarrow> CodeNetError)"

definition StatusString :: "status_code \<Rightarrow> string" where
  "StatusString c = (if unat c < NumStatusCodes then codeToStatus ! unat c else StatusNetError)"

definition HasPTR :: "string \<Rightarrow> bool" where
  "HasPTR status \<longleftrightarrow> status = StatusHasPTR"

section \<open>Status masks\<close>

type_synonym status_mask = u16

definition mask_Has :: "status_mask \<Rightarrow> status_code \<Rightarrow> bool" where
  "mask_Has m c \<longleftrightarrow> m AND push_bit (unat c) 1 \<noteq> 0"

definition all_codes :: "status_code list" where
  "all_codes = map of_nat [0..<NumStatusCodes]"

definition mask_String :: "status_mask \<Rightarrow> string" where
  "mask_String m = go_join (map StatusString (filter (mask_Has m) all_codes)) '',''"

fun parse_parts :: "status_mask \<Rightarrow> string list \<Rightarrow> go_error + status_mask" where
  "parse_parts m [] = Inr m"
| "parse_parts m (p # ps) =
     (let part = trim_space p in
      if part = [] then parse_parts m ps
      else case map_of statusToCode part of
             None \<Rightarrow> Inl (ErrMsg ''unknown status'')
           | Some c \<Rightarrow> parse_parts (m OR push_bit (unat c) 1) ps)"

definition ParseStatuses :: "string \<Rightarrow> go_error + status_mask" where
  "ParseStatuses csv =
     (case parse_parts 0 (split_byte (CHR '','') csv) of
        Inl e \<Rightarrow> Inl e
      | Inr m \<Rightarrow> if m = 0 then Inl (ErrMsg ''empty status list'') else Inr m)"

section \<open>The crawl record\<close>

record Record =
  r_IP :: string
  r_IPInt :: u32
  r_Status :: string
  r_PTR :: "string list"
  r_FCrDNS :: "bool option"
  r_Resolver :: string
  r_Attempts :: int
  r_LatencyMs :: int
  r_Rcode :: string
  r_Error :: string
  r_TS :: string

section \<open>Codes and strings correspond\<close>

lemmas status_defs =
  StatusHasPTR_def StatusNoErrorEmpty_def StatusNXDomain_def StatusServFail_def
  StatusRefused_def StatusTimeout_def StatusNetError_def StatusLameDelegation_def

lemmas code_defs =
  CodeHasPTR_def CodeNoErrorEmpty_def CodeNXDomain_def CodeServFail_def
  CodeRefused_def CodeTimeout_def CodeNetError_def CodeLameDelegation_def

lemma less_8_cases:
  assumes "unat (c :: u8) < 8"
  shows "c \<in> {0, 1, 2, 3, 4, 5, 6, 7}"
proof -
  have "unat c \<in> {0, 1, 2, 3, 4, 5, 6, 7}"
    using assms by auto
  then show ?thesis
    by (auto simp: word_unat_eq_iff)
qed

lemma Code_StatusString: "unat c < 8 \<Longrightarrow> Code (StatusString c) = c"
  by (drule less_8_cases) (auto simp: Code_def StatusString_def statusToCode_def codeToStatus_def
        NumStatusCodes_def status_defs code_defs)

lemma StatusString_Code:
  "status \<in> set codeToStatus \<Longrightarrow> StatusString (Code status) = status"
  by (auto simp: Code_def StatusString_def statusToCode_def codeToStatus_def
        NumStatusCodes_def status_defs code_defs)

lemma Code_less: "unat (Code status) < 8"
  by (auto simp: Code_def statusToCode_def code_defs)

lemma HasPTR_iff_Code: "HasPTR status \<longleftrightarrow> Code status = 0"
  by (auto simp: HasPTR_def Code_def statusToCode_def status_defs code_defs)

lemma Code_unknown: "status \<notin> set codeToStatus \<Longrightarrow> Code status = CodeNetError"
  by (auto simp: Code_def statusToCode_def codeToStatus_def)

lemma map_of_statusToCode:
  "map_of statusToCode s = (if s \<in> set codeToStatus then Some (Code s) else None)"
proof (cases "map_of statusToCode s")
  case None
  then have "s \<notin> set codeToStatus"
    by (simp only: map_of_eq_None_iff) (simp add: statusToCode_def codeToStatus_def)
  with None show ?thesis by simp
next
  case (Some c)
  then have "s \<in> set codeToStatus"
    by (drule_tac map_of_SomeD) (auto simp: statusToCode_def codeToStatus_def)
  with Some show ?thesis by (simp add: Code_def)
qed

section \<open>Masks\<close>

lemma mask_Has_bit: "mask_Has m c \<longleftrightarrow> bit m (unat c)"
  unfolding mask_Has_def
  by (auto simp: bit_simps and_exp_eq_0_iff_not_bit)

lemma all_codes_eq: "all_codes = [0, 1, 2, 3, 4, 5, 6, 7]"
  by (simp add: all_codes_def NumStatusCodes_def upt_rec)

lemma set_all_codes: "c \<in> set all_codes \<longleftrightarrow> unat c < 8"
  using less_8_cases by (auto simp: all_codes_eq)

lemma StatusString_in: "StatusString c \<in> set codeToStatus"
proof -
  have "length codeToStatus = 8" by (simp add: codeToStatus_def)
  moreover have "StatusNetError \<in> set codeToStatus" by (simp add: codeToStatus_def)
  ultimately show ?thesis by (simp add: StatusString_def NumStatusCodes_def)
qed

lemma status_names_printable:
  "s \<in> set codeToStatus \<Longrightarrow> s \<noteq> [] \<and> printable (hd s) \<and> printable (last s) \<and> CHR '','' \<notin> set s"
  by (auto simp: codeToStatus_def status_defs printable_def)

lemma trim_space_status: "s \<in> set codeToStatus \<Longrightarrow> trim_space s = s"
  using status_names_printable by (blast intro: trim_space_id)

lemma Code_eq_iff: "s \<in> set codeToStatus \<Longrightarrow> Code s = c \<longleftrightarrow> unat c < 8 \<and> s = StatusString c"
  using Code_StatusString StatusString_Code Code_less by metis

lemma parse_parts_iff:
  "parse_parts m0 ps = Inr m \<longleftrightarrow>
     set (map trim_space ps) \<subseteq> insert [] (set codeToStatus) \<and>
     (\<forall>i<16. bit m i \<longleftrightarrow> bit m0 i \<or> i \<in> unat ` Code ` (set (map trim_space ps) - {[]}))"
proof (induction ps arbitrary: m0)
  case Nil
  then show ?case by (auto simp: bit_eq_iff)
next
  case (Cons p ps)
  have ne: "[] \<notin> set codeToStatus" using status_names_printable by blast
  show ?case
  proof (cases "trim_space p \<in> set codeToStatus")
    case True
    then have "trim_space p \<noteq> []" using ne by auto
    then have "set (map trim_space (p # ps)) - {[]} = insert (trim_space p) (set (map trim_space ps) - {[]})"
      by auto
    with True \<open>trim_space p \<noteq> []\<close> show ?thesis
      by (auto simp: Cons Let_def map_of_statusToCode bit_simps)
  next
    case False
    then show ?thesis
      by (auto simp: Cons Let_def map_of_statusToCode)
  qed
qed

lemma unat_Code_image:
  assumes "S \<subseteq> set codeToStatus"
  shows "unat c \<in> unat ` Code ` S \<longleftrightarrow> unat c < 8 \<and> StatusString c \<in> S"
proof -
  have "unat c \<in> unat ` Code ` S \<longleftrightarrow> (\<exists>s\<in>S. Code s = c)"
    by (auto simp: word_unat_eq_iff [symmetric])
  also have "\<dots> \<longleftrightarrow> unat c < 8 \<and> StatusString c \<in> S"
    using assms Code_eq_iff by (metis subsetD)
  finally show ?thesis .
qed

lemma ParseStatuses_iff:
  fixes csv defines "parts \<equiv> set (map trim_space (split_byte (CHR '','') csv))"
  shows "ParseStatuses csv = Inr m \<longleftrightarrow>
    parts \<subseteq> insert [] (set codeToStatus) \<and> m \<noteq> 0 \<and>
    (\<forall>c. mask_Has m c \<longleftrightarrow> unat c < 8 \<and> StatusString c \<in> parts)"
proof -
  let ?ps = "split_byte (CHR '','') csv"
  have ne: "[] \<notin> set codeToStatus" using status_names_printable by blast
  have "ParseStatuses csv = Inr m \<longleftrightarrow> parse_parts 0 ?ps = Inr m \<and> m \<noteq> 0"
    by (auto simp: ParseStatuses_def split: sum.splits)
  also have "parse_parts 0 ?ps = Inr m \<longleftrightarrow> parts \<subseteq> insert [] (set codeToStatus) \<and>
     (\<forall>i<16. bit m i \<longleftrightarrow> i \<in> unat ` Code ` (parts - {[]}))"
    unfolding parse_parts_iff parts_def by simp
  also have "\<dots> \<longleftrightarrow> parts \<subseteq> insert [] (set codeToStatus) \<and>
     (\<forall>c. mask_Has m c \<longleftrightarrow> unat c < 8 \<and> StatusString c \<in> parts)"
  proof (rule conj_cong [OF refl])
    assume sub: "parts \<subseteq> insert [] (set codeToStatus)"
    then have sub': "parts - {[]} \<subseteq> set codeToStatus" by auto
    have img: "unat c \<in> unat ` Code ` (parts - {[]}) \<longleftrightarrow> unat c < 8 \<and> StatusString c \<in> parts" for c
      using unat_Code_image [OF sub', of c] StatusString_in [of c] ne by auto
    have ub: "bit m (unat c) \<Longrightarrow> unat c < 16" for c :: u8
      using bit_imp_le_length [of m] by fastforce
    show "(\<forall>i<16. bit m i \<longleftrightarrow> i \<in> unat ` Code ` (parts - {[]})) \<longleftrightarrow>
       (\<forall>c. mask_Has m c \<longleftrightarrow> unat c < 8 \<and> StatusString c \<in> parts)" (is "?L \<longleftrightarrow> ?R")
    proof
      assume L: ?L
      show ?R
      proof
        fix c
        show "mask_Has m c \<longleftrightarrow> unat c < 8 \<and> StatusString c \<in> parts"
          unfolding mask_Has_bit using L ub [of c] img [of c] by (cases "unat c < 16") auto
      qed
    next
      assume R: ?R
      show ?L
      proof (intro allI impI)
        fix i :: nat assume "i < 16"
        then have "i = unat (of_nat i :: u8)" by (simp add: unat_of_nat)
        then show "bit m i \<longleftrightarrow> i \<in> unat ` Code ` (parts - {[]})"
          using R img [of "of_nat i"] unfolding mask_Has_bit by metis
      qed
    qed
  qed
  finally show ?thesis by auto
qed
lemma mask_parts:
  "m \<noteq> 0 \<Longrightarrow> m < 256 \<Longrightarrow> filter (mask_Has m) all_codes \<noteq> []"
proof
  assume nz: "m \<noteq> 0" and lt: "m < 256" and "filter (mask_Has m) all_codes = []"
  then have no: "\<not> bit m (unat c)" if "unat c < 8" for c :: u8
    using that by (auto simp: filter_empty_conv set_all_codes mask_Has_bit)
  have "\<not> bit m i" for i
  proof (cases "i < 8")
    case True
    then have "i = unat (of_nat i :: u8)" by (simp add: unat_of_nat)
    with True no show ?thesis by metis
  next
    case False
    then show ?thesis using bit_less_exp [of m 8 i] lt by auto
  qed
  then have "m = 0" by (simp add: bit_eq_iff)
  with nz show False ..
qed

lemma ParseStatuses_mask_String:
  assumes "m \<noteq> 0" and "m < 256"
  shows "ParseStatuses (mask_String m) = Inr m"
proof -
  let ?cs = "filter (mask_Has m) all_codes"
  have sp: "split_byte (CHR '','') (mask_String m) = map StatusString ?cs"
    unfolding mask_String_def
    using mask_parts [OF assms] StatusString_in status_names_printable
    by (intro split_byte_join) auto
  then have parts: "set (map trim_space (split_byte (CHR '','') (mask_String m))) = StatusString ` set ?cs"
    using StatusString_in trim_space_status by (auto simp: image_image)
  have hi: "mask_Has m c \<Longrightarrow> unat c < 8" for c
    using bit_less_exp [of m 8] assms(2) by (simp add: mask_Has_bit)
  have "mask_Has m c \<longleftrightarrow> unat c < 8 \<and> StatusString c \<in> StatusString ` set ?cs" for c
  proof
    show "mask_Has m c \<Longrightarrow> unat c < 8 \<and> StatusString c \<in> StatusString ` set ?cs"
      using hi by (simp add: set_all_codes)
    assume "unat c < 8 \<and> StatusString c \<in> StatusString ` set ?cs"
    then obtain d where "unat c < 8" "unat d < 8" "mask_Has m d" "StatusString c = StatusString d"
      by (auto simp: set_all_codes)
    then show "mask_Has m c"
      using Code_StatusString by metis
  qed
  then show ?thesis
    unfolding ParseStatuses_iff parts using assms(1) StatusString_in by blast
qed

section \<open>Properties\<close>

text \<open>
  C40. The status-list parser accepts exactly the lists whose trimmed, non-empty items are all
  status names, and then the mask has exactly the codes of the named statuses; an unknown name
  or an empty list is an error.
\<close>

theorem parse_statuses_exact:
  "ParseStatuses csv = Inr m \<longleftrightarrow>
    set (map trim_space (split_byte (CHR '','') csv)) \<subseteq> insert [] (set codeToStatus) \<and> m \<noteq> 0 \<and>
    (\<forall>c. mask_Has m c \<longleftrightarrow>
       unat c < 8 \<and> StatusString c \<in> set (map trim_space (split_byte (CHR '','') csv)))"
  by (rule ParseStatuses_iff)

text \<open>
  Printing a mask of known statuses and parsing the text gives the mask back.
\<close>

lemma parse_print_mask:
  "m \<noteq> 0 \<Longrightarrow> m < 256 \<Longrightarrow> ParseStatuses (mask_String m) = Inr m"
  by (rule ParseStatuses_mask_String)

lemma parse_print_mask_instance: "ParseStatuses (mask_String 33) = Inr 33"
  by (rule parse_print_mask) simp_all

end
