(* ===== verification/Store_Format.thy ===== *)
theory Store_Format
  imports Store_Template Model_Record
begin

unbundle bit_operations_syntax

text \<open>
  The record payload of a \<^verbatim>\<open>.rdnsz\<close> block (\<^verbatim>\<open>src/internal/store/format.go\<close>): the encoder that
  \<open>flushBlock\<close> runs over the sorted buffer (\<^verbatim>\<open>writer.go\<close>) and the decoder \<open>decodeBlock\<close>
  (\<^verbatim>\<open>reader.go\<close>) with its bounds checks at the width of Go's \<open>int\<close>. Decoding what was
  encoded returns every record; a corrupt name length can get past the overrun check.
\<close>

section \<open>Constants and data\<close>

definition magic :: string where "magic = ''RDNS2''"
definition formatVer :: u8 where "formatVer = 2"
definition headerSize :: nat where "headerSize = 128"
definition blockRecs :: nat where "blockRecs = 65536"
definition maxPTRNames :: nat where "maxPTRNames = 32"

definition statusMask :: u8 where "statusMask = 0x0f"
definition flagFCChecked :: u8 where "flagFCChecked = 16"
definition flagFCMatch :: u8 where "flagFCMatch = 32"

definition offMagic :: nat where "offMagic = 0"
definition offVersion :: nat where "offVersion = 5"
definition offShards :: nat where "offShards = 6"
definition offShardID :: nat where "offShardID = 8"
definition offCreated :: nat where "offCreated = 10"
definition offTotal :: nat where "offTotal = 18"
definition offCounts :: nat where "offCounts = 26"

record Rec =
  s_IP :: u32
  s_Status :: status_code
  s_PTR :: "string list"
  s_FCChecked :: bool
  s_FCMatch :: bool

record Header =
  h_Version :: u8
  h_Shards :: u16
  h_ShardID :: u16
  h_Total :: u64
  h_Counts :: "u64 list"
  h_Created :: u64

definition header_Count :: "Header \<Rightarrow> status_code \<Rightarrow> u64" where
  "header_Count h c = (if unat c < NumStatusCodes then h_Counts h ! unat c else 0)"

lemmas format_defs = statusMask_def flagFCChecked_def flagFCMatch_def

section \<open>Encoding a block\<close>

definition status_flags :: "Record \<Rightarrow> u8" where
  "status_flags rec =
     (let sf = Code (r_Status rec) AND statusMask in
      case r_FCrDNS rec of None \<Rightarrow> sf
      | Some m \<Rightarrow> (let sf = sf OR flagFCChecked in if m then sf OR flagFCMatch else sf))"

definition encode_name :: "u32 \<Rightarrow> string \<Rightarrow> bytes" where
  "encode_name ip n =
     (let t = encodeTemplate ip n in put_uvarint (of_nat (length t)) @ bytes_of t)"

definition encode_rec :: "u64 \<Rightarrow> Record \<Rightarrow> bytes" where
  "encode_rec delta rec =
     put_uvarint delta @ [status_flags rec] @
     (if HasPTR (r_Status rec) then
        (let names = take maxPTRNames (r_PTR rec) in
         put_uvarint (of_nat (length names)) @ concat (map (encode_name (r_IPInt rec)) names))
      else [])"

text \<open>
  The encoding loop; \<open>None\<close> before the first record, then the previous address. The delta is a
  \<open>uint32\<close> subtraction, widened.
\<close>

fun encode_recs :: "u32 option \<Rightarrow> Record list \<Rightarrow> bytes" where
  "encode_recs prev [] = []"
| "encode_recs prev (rec # recs) =
     encode_rec (ucast (case prev of None \<Rightarrow> r_IPInt rec | Some p \<Rightarrow> r_IPInt rec - p)) rec
     @ encode_recs (Some (r_IPInt rec)) recs"

section \<open>Decoding a block\<close>

text \<open>
  The inner name loop. \<open>off + int(l)\<close> is computed in 64-bit two's complement as the source does;
  a sum below \<open>off\<close> passes the overrun check and then panics in the slice expression.
\<close>

fun decode_names :: "bytes \<Rightarrow> u32 \<Rightarrow> nat \<Rightarrow> nat \<Rightarrow> string list \<Rightarrow> go_error + (string list \<times> nat)" where
  "decode_names raw ip off 0 acc = Inr (acc, off)"
| "decode_names raw ip off (Suc k) acc =
     (let (l, n) = uvarint (drop off raw) in
      if n \<le> 0 then Inl (ErrCorrupt ''bad name len'')
      else let off = off + nat n; e = sint (of_nat off + l) in
        if int (length raw) < e then Inl (ErrCorrupt ''name overruns'')
        else if e < int off then Inl EPanic
        else decode_names raw ip (nat e) k
               (acc @ [decodeTemplate ip (string_of (take (nat e - off) (drop off raw)))]))"

text \<open>One iteration of the record loop, up to the callback: the record and the new offset.\<close>

definition decode_rec :: "bytes \<Rightarrow> nat \<Rightarrow> u32 option \<Rightarrow> go_error + (Rec \<times> nat)" where
  "decode_rec raw off prev =
     (let (delta, n) = uvarint (drop off raw) in
      if n \<le> 0 then Inl (ErrCorrupt ''bad ip delta'')
      else let off = off + nat n;
               ip = (case prev of None \<Rightarrow> ucast delta | Some p \<Rightarrow> p + ucast delta) in
        if length raw \<le> off then Inl (ErrCorrupt ''missing status'')
        else let sf = raw ! off; off = off + 1;
                 rec = \<lparr>s_IP = ip, s_Status = sf AND statusMask, s_PTR = [],
                        s_FCChecked = (sf AND flagFCChecked \<noteq> 0),
                        s_FCMatch = (sf AND flagFCMatch \<noteq> 0)\<rparr> in
          if s_Status rec = CodeHasPTR then
            (let (count, n) = uvarint (drop off raw) in
             if n \<le> 0 then Inl (ErrCorrupt ''bad ptr count'')
             else case decode_names raw ip (off + nat n) (unat count) [] of
                    Inl e \<Rightarrow> Inl e
                  | Inr (names, off) \<Rightarrow> Inr (rec\<lparr>s_PTR := names\<rparr>, off))
          else Inr (rec, off))"

lemma decode_names_mono: "decode_names raw ip off k acc = Inr (ns, off') \<Longrightarrow> off \<le> off'"
proof (induction k arbitrary: off acc)
  case (Suc k)
  then show ?case
    by (fastforce simp: Let_def split: prod.splits if_splits)
qed simp

lemma decode_rec_progress: "decode_rec raw off prev = Inr (rec, off') \<Longrightarrow> off < off'"
  by (auto simp: decode_rec_def Let_def split: prod.splits if_splits sum.splits
      dest!: decode_names_mono)

function decode_loop ::
  "bytes \<Rightarrow> nat \<Rightarrow> u32 option \<Rightarrow> (Rec \<Rightarrow> 's \<Rightarrow> 's \<times> go_error option) \<Rightarrow> 's \<Rightarrow> 's \<times> go_error option" where
  "decode_loop raw off prev fn s =
     (if off < length raw then
        (case decode_rec raw off prev of
           Inl e \<Rightarrow> (s, Some e)
         | Inr (rec, off') \<Rightarrow>
             (case fn rec s of
                (s', Some e) \<Rightarrow> (s', Some e)
              | (s', None) \<Rightarrow> decode_loop raw off' (Some (s_IP rec)) fn s'))
      else (s, None))"
  by pat_completeness auto
termination
  by (relation "measure (\<lambda>(raw, off, prev, fn, s). length raw - off)")
    (auto dest!: decode_rec_progress)

declare decode_loop.simps [simp del]

definition decodeBlock :: "bytes \<Rightarrow> (Rec \<Rightarrow> 's \<Rightarrow> 's \<times> go_error option) \<Rightarrow> 's \<Rightarrow> 's \<times> go_error option" where
  "decodeBlock raw fn s = decode_loop raw 0 None fn s"

text \<open>Reference view of a block: the records it delivers and how it ends.\<close>

function block_loop :: "bytes \<Rightarrow> nat \<Rightarrow> u32 option \<Rightarrow> Rec list \<times> go_error option" where
  "block_loop raw off prev =
     (if off < length raw then
        (case decode_rec raw off prev of
           Inl e \<Rightarrow> ([], Some e)
         | Inr (rec, off') \<Rightarrow> apfst ((#) rec) (block_loop raw off' (Some (s_IP rec))))
      else ([], None))"
  by pat_completeness auto
termination
  by (relation "measure (\<lambda>(raw, off, prev). length raw - off)") (auto dest!: decode_rec_progress)

declare block_loop.simps [simp del]

text \<open>What the store keeps of a crawl record.\<close>

definition stored :: "Record \<Rightarrow> Rec" where
  "stored rec =
     \<lparr>s_IP = r_IPInt rec, s_Status = Code (r_Status rec),
      s_PTR = (if HasPTR (r_Status rec) then take maxPTRNames (r_PTR rec) else []),
      s_FCChecked = (r_FCrDNS rec \<noteq> None), s_FCMatch = (r_FCrDNS rec = Some True)\<rparr>"

text \<open>The stored record with its names as the decoder restores them.\<close>

definition restored :: "Record \<Rightarrow> Rec" where
  "restored rec = (stored rec)\<lparr>s_PTR := map (decodeTemplate (r_IPInt rec)) (s_PTR (stored rec))\<rparr>"

text \<open>A record whose names can be restored: no marker byte in a stored name.\<close>

definition clean_rec :: "Record \<Rightarrow> bool" where
  "clean_rec rec = list_all (\<lambda>n. set n \<inter> markers = {}) (take maxPTRNames (r_PTR rec))"

section \<open>A callback run is a fold over the block's records\<close>

lemma decode_loop_fold:
  "decode_loop raw off prev fn s =
     (case block_loop raw off prev of (rs, end_err) \<Rightarrow>
        (case fold_err fn rs s of (s', Some e) \<Rightarrow> (s', Some e) | (s', None) \<Rightarrow> (s', end_err)))"
proof (induction raw off prev arbitrary: s rule: block_loop.induct)
  case (1 raw off prev)
  show ?case
  proof (cases "off < length raw")
    case False
    then show ?thesis by (simp add: decode_loop.simps block_loop.simps)
  next
    case True
    show ?thesis
    proof (cases "decode_rec raw off prev")
      case (Inl e)
      with True show ?thesis by (simp add: decode_loop.simps block_loop.simps)
    next
      case (Inr p)
      then obtain rec off' where p: "decode_rec raw off prev = Inr (rec, off')"
        by (cases p) auto
      have IH: "\<And>s. decode_loop raw off' (Some (s_IP rec)) fn s =
          (case block_loop raw off' (Some (s_IP rec)) of (rs, end_err) \<Rightarrow>
            (case fold_err fn rs s of (s', Some e) \<Rightarrow> (s', Some e) | (s', None) \<Rightarrow> (s', end_err)))"
        using "1" True p by blast
      show ?thesis
        using True p by (simp add: decode_loop.simps [of raw off] block_loop.simps [of raw off] IH
            split: prod.splits option.splits)
    qed
  qed
qed

section \<open>Decoding inverts encoding\<close>

lemma decode_names_encode:
  assumes "length (pre @ concat (map (encode_name ip) ns) @ post) < 2 ^ 63"
  shows "decode_names (pre @ concat (map (encode_name ip) ns) @ post) ip (length pre) (length ns) acc =
    Inr (acc @ map (decodeTemplate ip) ns, length pre + length (concat (map (encode_name ip) ns)))"
  using assms
proof (induction ns arbitrary: pre acc)
  case (Cons n ns)
  define t where "t = encodeTemplate ip n"
  define v where "v = put_uvarint (of_nat (length t))"
  define rest where "rest = concat (map (encode_name ip) ns) @ post"
  have raw: "pre @ concat (map (encode_name ip) (n # ns)) @ post = pre @ v @ bytes_of t @ rest"
    by (simp add: encode_name_def t_def v_def rest_def Let_def)
  have len: "length pre + length v + length t + length rest < 2 ^ 63"
    using Cons.prems unfolding raw by simp
  have uv: "uvarint (v @ bytes_of t @ rest) = (of_nat (length t), int (length v))"
    by (simp add: v_def codec_simps)
  have e: "sint (of_nat (length pre + length v) + of_nat (length t) :: u64) =
      int (length pre + length v + length t)"
    using len by (subst of_nat_add [symmetric]) (simp only: sint_of_nat_u64)
  have "v \<noteq> []" by (simp add: v_def)
  have IH: "decode_names ((pre @ v @ bytes_of t) @ rest) ip (length (pre @ v @ bytes_of t)) (length ns) acc' =
      Inr (acc' @ map (decodeTemplate ip) ns, length (pre @ v @ bytes_of t) + length (concat (map (encode_name ip) ns)))" for acc'
    unfolding rest_def using Cons.prems raw by (intro Cons.IH) (simp add: rest_def)
  have step: "decode_names (pre @ v @ bytes_of t @ rest) ip (length pre) (Suc (length ns)) acc =
     decode_names (pre @ v @ bytes_of t @ rest) ip (length pre + length v + length t) (length ns) (acc @ [decodeTemplate ip t])"
    using e \<open>v \<noteq> []\<close> by (simp add: uv Let_def nat_int_add del: of_nat_add)
  have L: "length (concat (map (encode_name ip) (n # ns))) =
      length v + length t + length (concat (map (encode_name ip) ns))"
    by (simp add: encode_name_def t_def v_def Let_def)
  have D: "decodeTemplate ip t = decodeTemplate ip n"
    by (simp add: t_def decode_encodeTemplate)
  show ?case
    unfolding raw L length_Cons step using IH [of "acc @ [decodeTemplate ip t]"] D by (simp add: add.assoc)
qed simp

lemma status_flags_decode:
  "status_flags rec AND statusMask = Code (r_Status rec)"
  "status_flags rec AND flagFCChecked \<noteq> 0 \<longleftrightarrow> r_FCrDNS rec \<noteq> None"
  "status_flags rec AND flagFCMatch \<noteq> 0 \<longleftrightarrow> r_FCrDNS rec = Some True"
  using less_8_cases [OF Code_less, of "r_Status rec"]
  by (auto simp: status_flags_def format_defs Let_def split: option.splits)

lemma restored_clean: "clean_rec rec \<Longrightarrow> restored rec = stored rec"
  by (auto simp: restored_def clean_rec_def stored_def list_all_iff decodeTemplate_id intro!: map_idI)

lemma decode_rec_encode:
  fixes pre post rec prev
  defines "delta \<equiv> ucast (case prev of None \<Rightarrow> r_IPInt rec | Some p \<Rightarrow> r_IPInt rec - p) :: u64"
  defines "raw \<equiv> pre @ encode_rec delta rec @ post"
  assumes len: "length raw < 2 ^ 63"
  shows "decode_rec raw (length pre) prev = Inr (restored rec, length pre + length (encode_rec delta rec))"
proof -
  define v where "v = put_uvarint delta"
  define sf where "sf = status_flags rec"
  define tail where "tail = drop (length v + 1) (encode_rec delta rec)"
  have enc: "encode_rec delta rec = v @ sf # tail"
    by (simp add: encode_rec_def v_def sf_def tail_def)
  have raw: "raw = pre @ v @ sf # tail @ post"
    by (simp add: raw_def enc)
  have uv: "uvarint (v @ x) = (delta, int (length v))" for x
    by (simp add: v_def codec_simps)
  have nv: "v \<noteq> []" by (simp add: v_def)
  have ip: "(case prev of None \<Rightarrow> ucast delta | Some p \<Rightarrow> p + ucast delta) = r_IPInt rec"
    by (simp add: delta_def split: option.splits)
  show ?thesis
  proof (cases "HasPTR (r_Status rec)")
    case False
    then have "tail = []" by (simp add: tail_def encode_rec_def v_def)
    moreover have "status_flags rec AND statusMask \<noteq> CodeHasPTR"
      using False by (simp add: status_flags_decode HasPTR_iff_Code CodeHasPTR_def)
    ultimately show ?thesis
      using False nv
      by (simp add: decode_rec_def raw uv ip enc Let_def sf_def status_flags_decode restored_def stored_def)
  next
    case True
    define ns where "ns = take maxPTRNames (r_PTR rec)"
    define w where "w = put_uvarint (of_nat (length ns))"
    have tl: "tail = w @ concat (map (encode_name (r_IPInt rec)) ns)"
      using True by (simp add: tail_def encode_rec_def v_def ns_def w_def)
    have "length ns \<le> 32" by (simp add: ns_def maxPTRNames_def)
    then have un: "unat (of_nat (length ns) :: u64) = length ns"
      by (simp add: unat_of_nat)
    have uw: "uvarint (w @ x) = (of_nat (length ns), int (length w))" for x
      by (simp add: w_def codec_simps)
    have nw: "w \<noteq> []" by (simp add: w_def)
    have st: "status_flags rec AND statusMask = CodeHasPTR"
      using True by (simp add: status_flags_decode HasPTR_iff_Code CodeHasPTR_def)
    have names: "decode_names raw (r_IPInt rec) (length pre + length v + 1 + length w) (length ns) [] =
        Inr (map (decodeTemplate (r_IPInt rec)) ns, length pre + length v + 1 + length w + length (concat (map (encode_name (r_IPInt rec)) ns)))"
      using decode_names_encode [of "pre @ v @ sf # w" "r_IPInt rec" ns post "[]"] len
      by (simp add: raw tl add.assoc)
    show ?thesis
      using True nv nw names st un
      by (simp add: decode_rec_def raw tl uv uw ip enc Let_def sf_def status_flags_decode restored_def
          stored_def ns_def [symmetric] add.assoc)
  qed
qed

lemma encode_rec_not_Nil [simp]: "encode_rec d rec \<noteq> []"
  by (simp add: encode_rec_def)

lemma block_loop_encode:
  "length (pre @ encode_recs prev recs) < 2 ^ 63 \<Longrightarrow>
     block_loop (pre @ encode_recs prev recs) (length pre) prev = (map restored recs, None)"
proof (induction prev recs arbitrary: pre rule: encode_recs.induct)
  case (1 prev)
  then show ?case by (simp add: block_loop.simps)
next
  case (2 prev rec recs)
  let ?d = "ucast (case prev of None \<Rightarrow> r_IPInt rec | Some p \<Rightarrow> r_IPInt rec - p) :: u64"
  let ?post = "encode_recs (Some (r_IPInt rec)) recs"
  let ?raw = "pre @ encode_rec ?d rec @ ?post"
  have "decode_rec ?raw (length pre) prev = Inr (restored rec, length (pre @ encode_rec ?d rec))"
    using decode_rec_encode [where pre = pre and prev = prev and rec = rec and post = ?post] "2.prems" by simp
  moreover have "block_loop ?raw (length (pre @ encode_rec ?d rec)) (Some (r_IPInt rec)) = (map restored recs, None)"
    using "2.IH" [of "pre @ encode_rec ?d rec"] "2.prems" by simp
  moreover have "s_IP (restored rec) = r_IPInt rec"
    by (simp add: restored_def stored_def)
  ultimately show ?case
    by (simp add: block_loop.simps [of ?raw "length pre"])
qed

lemma decodeBlock_fold:
  "decodeBlock raw fn s =
     (case block_loop raw 0 None of (rs, end_err) \<Rightarrow>
        (case fold_err fn rs s of (s', Some e) \<Rightarrow> (s', Some e) | (s', None) \<Rightarrow> (s', end_err)))"
  by (simp add: decodeBlock_def decode_loop_fold)

lemma decodeBlock_encode:
  "length (encode_recs None recs) < 2 ^ 63 \<Longrightarrow>
     decodeBlock (encode_recs None recs) fn s = fold_err fn (map restored recs) s"
  using block_loop_encode [of "[]" None recs]
  by (simp add: decodeBlock_fold split: prod.splits option.splits)

lemma decode_names_panic:
  assumes big: "2 ^ 63 \<le> unat l" and fit: "length pre + length (put_uvarint l) + unat l < 2 ^ 64"
  shows "decode_names (pre @ put_uvarint l @ rest) ip (length pre) (Suc k) acc = Inl EPanic"
proof -
  let ?off = "length pre + length (put_uvarint l)"
  have "unat (of_nat ?off + l :: u64) = ?off + unat l"
    using fit by (simp add: unat_word_ariths unat_of_nat mod_simps del: of_nat_add)
  then have "sint (of_nat ?off + l :: u64) < 0"
    using big by (intro sint_neg_u64) simp
  then show ?thesis
    by (simp add: codec_simps Let_def)
qed

end
