(* ===== verification/Go_FS.thy ===== *)
theory Go_FS
  imports Rdns_Prelude Go_Strings "HOL-Library.AList"
begin

text \<open>
  The part of the operating system that the sources touch: a file system of whole files
  (path to content) and directories, with \<open>os.Stat\<close>, \<open>os.Create\<close>, \<open>os.ReadFile\<close>,
  \<open>os.WriteFile\<close>, \<open>os.Rename\<close>, \<open>os.Remove\<close>, \<open>os.MkdirAll\<close>, \<open>filepath.Dir\<close>,
  \<open>filepath.Join\<close>, \<open>filepath.Glob\<close> on the pattern \<^verbatim>\<open>*.rdnsz\<close>, and the buffered
  writer \<open>bufio.Writer\<close>. Paths are in cleaned form. Opening or creating a file fails when
  its name or its directory does not exist; a write to an open file does not fail.
\<close>

section \<open>Definitions\<close>

record fs =
  fs_files :: "(string \<times> bytes) list"
  fs_dirs :: "string list"

definition fs_read :: "fs \<Rightarrow> string \<Rightarrow> bytes option" where
  "fs_read fs p = map_of (fs_files fs) p"

definition fs_write :: "fs \<Rightarrow> string \<Rightarrow> bytes \<Rightarrow> fs" where
  "fs_write fs p bs = fs\<lparr>fs_files := AList.update p bs (fs_files fs)\<rparr>"

definition os_remove :: "fs \<Rightarrow> string \<Rightarrow> fs" where
  "os_remove fs p = fs\<lparr>fs_files := AList.delete p (fs_files fs)\<rparr>"

definition path_dir :: "string \<Rightarrow> string" where
  "path_dir p = (case last_index p (CHR ''/'') of
     None \<Rightarrow> ''.'' | Some i \<Rightarrow> if i = 0 then ''/'' else take i p)"

definition path_join :: "string \<Rightarrow> string \<Rightarrow> string" where
  "path_join d b = (if d = [] then b else d @ ''/'' @ b)"

definition is_dir :: "fs \<Rightarrow> string \<Rightarrow> bool" where
  "is_dir fs p \<longleftrightarrow> p = ''.'' \<or> p = ''/'' \<or> p \<in> set (fs_dirs fs)"

definition os_create :: "fs \<Rightarrow> string \<Rightarrow> go_error + fs" where
  "os_create fs p =
     (if is_dir fs (path_dir p) \<and> \<not> is_dir fs p then Inr (fs_write fs p []) else Inl ErrNotExist)"

text \<open>A rename that fails changes nothing; its callers ignore the error.\<close>

definition os_rename :: "fs \<Rightarrow> string \<Rightarrow> string \<Rightarrow> fs" where
  "os_rename fs p q =
     (case fs_read fs p of
        None \<Rightarrow> fs
      | Some bs \<Rightarrow> if is_dir fs (path_dir q) \<and> \<not> is_dir fs q then fs_write (os_remove fs p) q bs else fs)"

definition os_write_file :: "fs \<Rightarrow> string \<Rightarrow> bytes \<Rightarrow> go_error + fs" where
  "os_write_file fs p bs = (case os_create fs p of Inl e \<Rightarrow> Inl e | Inr fs' \<Rightarrow> Inr (fs_write fs' p bs))"

datatype stat_result = StatErr | StatDir | StatFile nat

definition os_stat :: "fs \<Rightarrow> string \<Rightarrow> stat_result" where
  "os_stat fs p =
     (case fs_read fs p of
        Some bs \<Rightarrow> StatFile (length bs)
      | None \<Rightarrow> if is_dir fs p then StatDir else StatErr)"

definition os_mkdir_all :: "fs \<Rightarrow> string \<Rightarrow> go_error + fs" where
  "os_mkdir_all fs p =
     (if fs_read fs p \<noteq> None then Inl ErrNotExist
      else if is_dir fs p then Inr fs else Inr (fs\<lparr>fs_dirs := p # fs_dirs fs\<rparr>))"

text \<open>\<open>filepath.Glob(filepath.Join(dir, "*.rdnsz"))\<close>: the matching names, in order.\<close>

definition in_dir :: "string \<Rightarrow> string \<Rightarrow> bool" where
  "in_dir d p \<longleftrightarrow> prefix (d @ ''/'') p \<and> CHR ''/'' \<notin> set (drop (length d + 1) p)"

definition glob_rdnsz :: "fs \<Rightarrow> string \<Rightarrow> string list" where
  "glob_rdnsz fs d =
     sort (filter (\<lambda>p. in_dir d p \<and> suffix ''.rdnsz'' p) (map fst (fs_files fs) @ fs_dirs fs))"

text \<open>
  \<open>bufio.Writer.Write\<close> on a writer of size \<open>sz\<close>: the pair is what the file holds and what is
  still buffered. A write that does not fit fills and flushes the buffer first; one larger than
  an empty buffer goes straight to the file.
\<close>

fun bufio_write :: "nat \<Rightarrow> bytes \<times> bytes \<Rightarrow> bytes \<Rightarrow> bytes \<times> bytes" where
  "bufio_write sz (f, b) p =
     (if length p \<le> sz - length b then (f, b @ p)
      else if b = [] then (f @ p, [])
      else let n = sz - length b; f' = f @ b @ take n p; q = drop n p in
        if length q \<le> sz then (f', q) else (f' @ q, []))"

definition bufio_flush :: "bytes \<times> bytes \<Rightarrow> bytes \<times> bytes" where
  "bufio_flush fb = (fst fb @ snd fb, [])"

section \<open>Laws\<close>

lemma fs_read_write: "fs_read (fs_write fs p bs) q = (if q = p then Some bs else fs_read fs q)"
  by (simp add: fs_read_def fs_write_def update_conv')

lemma fs_write_dirs [simp]: "fs_dirs (fs_write fs p bs) = fs_dirs fs"
  by (simp add: fs_write_def)

lemma is_dir_fs_write [simp]: "is_dir (fs_write fs p bs) = is_dir fs"
  by (auto simp: is_dir_def)

lemma fs_read_remove: "fs_read (os_remove fs p) q = (if q = p then None else fs_read fs q)"
  by (simp add: fs_read_def os_remove_def delete_conv')

lemma os_create_read:
  "os_create fs p = Inr fs' \<Longrightarrow> fs_read fs' q = (if q = p then Some [] else fs_read fs q)"
  by (auto simp: os_create_def fs_read_write split: if_splits)

text \<open>Buffering reorders nothing and loses nothing.\<close>

lemma bufio_write_content:
  "bufio_write sz (f, b) p = (f', b') \<Longrightarrow> f' @ b' = f @ b @ p"
  by (auto simp: Let_def split: if_splits)

lemma bufio_write_prefix: "bufio_write sz (f, b) p = (f', b') \<Longrightarrow> prefix f f'"
  by (auto simp: Let_def split: if_splits)

end
