(* ===== verification/Sink_Contract.thy ===== *)
theory Sink_Contract
  imports Model_Record
begin

text \<open>
  The output-backend contract of the crawl pipeline (\<^verbatim>\<open>type sink interface\<close> in
  \<^verbatim>\<open>src/cmd/rdns-crawler/main.go\<close>): a backend consumes records one at a time and keeps the
  statistics of the summary. The laws say what one record does to the counters; the lemmas
  give the counters after a whole channel has been drained. Both backends, the compact
  store writer and the JSONL writer, interpret it.
\<close>

definition status_count :: "nat \<Rightarrow> Record list \<Rightarrow> nat" where
  "status_count c recs = length (filter (\<lambda>r. unat (Code (r_Status r)) = c) recs)"

lemma status_count_simps [simp]:
  "status_count c [] = 0"
  "status_count c (r # rs) = (if unat (Code (r_Status r)) = c then 1 else 0) + status_count c rs"
  by (simp_all add: status_count_def)

locale sink =
  fixes put :: "Record \<Rightarrow> 'w \<Rightarrow> 'w"
    and total :: "'w \<Rightarrow> u64"
    and by_code :: "'w \<Rightarrow> u64 list"
    and fc_checked :: "'w \<Rightarrow> u64"
    and fc_match :: "'w \<Rightarrow> u64"
  assumes total_put: "total (put r w) = total w + 1"
    and by_code_put: "by_code (put r w) =
      (by_code w)[unat (Code (r_Status r)) := by_code w ! unat (Code (r_Status r)) + 1]"
    and fc_checked_put: "fc_checked (put r w) = fc_checked w + (if r_FCrDNS r = None then 0 else 1)"
    and fc_match_put: "fc_match (put r w) = fc_match w + (if r_FCrDNS r = Some True then 1 else 0)"
begin

lemma total_fold: "total (fold put rs w) = total w + of_nat (length rs)"
  by (induction rs arbitrary: w) (simp_all add: total_put)

lemma length_by_code_fold: "length (by_code (fold put rs w)) = length (by_code w)"
  by (induction rs arbitrary: w) (simp_all add: by_code_put)

lemma by_code_fold:
  "length (by_code w) = 8 \<Longrightarrow> c < 8 \<Longrightarrow>
     by_code (fold put rs w) ! c = by_code w ! c + of_nat (status_count c rs)"
proof (induction rs arbitrary: w)
  case (Cons r rs)
  then have "by_code (fold put rs (put r w)) ! c = by_code (put r w) ! c + of_nat (status_count c rs)"
    by (simp add: by_code_put)
  then show ?case
    using Cons.prems by (simp add: by_code_put nth_list_update)
qed simp

lemma fc_fold:
  "fc_checked (fold put rs w) = fc_checked w + of_nat (length (filter (\<lambda>r. r_FCrDNS r \<noteq> None) rs))"
  "fc_match (fold put rs w) = fc_match w + of_nat (length (filter (\<lambda>r. r_FCrDNS r = Some True) rs))"
  by (induction rs arbitrary: w) (simp_all add: fc_checked_put fc_match_put)

lemma sum_by_code_put:
  assumes "length (by_code w) = 8"
  shows "sum_list (by_code (put r w)) = sum_list (by_code w) + 1"
proof -
  have "unat (Code (r_Status r)) < length (by_code w)"
    using assms Code_less by simp
  then show ?thesis
    by (simp add: by_code_put sum_list_bump)
qed

lemma sum_by_code_fold:
  "length (by_code w) = 8 \<Longrightarrow> sum_list (by_code (fold put rs w)) = sum_list (by_code w) + of_nat (length rs)"
proof (induction rs arbitrary: w)
  case (Cons r rs)
  then have "length (by_code (put r w)) = 8" by (simp add: by_code_put)
  then show ?case using Cons sum_by_code_put [of w r] by simp
qed simp

end

end
