(* ===== verification/Store_Writer.thy ===== *)
theory Store_Writer
  imports Store_Format Go_FS Sink_Contract "HOL-Library.Product_Lexorder"
begin

unbundle bit_operations_syntax

text \<open>
  The \<^verbatim>\<open>.rdnsz\<close> writer (\<^verbatim>\<open>src/internal/store/writer.go\<close>) and the header parser and summary
  helpers it shares with the reader (\<^verbatim>\<open>src/internal/store/reader.go\<close>). The writer state keeps
  the bytes already in the file (\<open>w_file\<close>) apart from those still in the 1 MiB output buffer
  (\<open>w_bw\<close>) and the records not yet encoded (\<open>w_buf\<close>), so that what a reader of the live
  file sees can be stated; \<open>Close\<close> writes the content back to the file system.
\<close>

section \<open>TLD histogram helpers\<close>

definition tldOf :: "env \<Rightarrow> string \<Rightarrow> string" where
  "tldOf E host =
     (let host = trim_suffix (to_lower E host) ''.'' in
      case last_index host (CHR ''.'') of
        None \<Rightarrow> ''(none)''
      | Some i \<Rightarrow> if i = length host - 1 then ''(none)'' else drop (i + 1) host)"

type_synonym counter = "(string \<times> nat) list"

definition count_of :: "counter \<Rightarrow> string \<Rightarrow> nat" where
  "count_of m k = (case map_of m k of None \<Rightarrow> 0 | Some v \<Rightarrow> v)"

text \<open>\<open>m[k]++\<close> on a Go map.\<close>

definition bump :: "string \<Rightarrow> counter \<Rightarrow> counter" where
  "bump k m = AList.update k (count_of m k + 1) m"

definition topN :: "counter \<Rightarrow> nat \<Rightarrow> counter" where
  "topN m n = take n (sort_key (\<lambda>kv. (- int (snd kv), fst kv)) m)"

section \<open>The header\<close>

definition put_at :: "nat \<Rightarrow> bytes \<Rightarrow> bytes \<Rightarrow> bytes" where
  "put_at off bs h = take off h @ bs @ drop (off + length bs) h"

record Writer =
  w_Path :: string
  w_file :: bytes
  w_bw :: bytes
  w_Start :: u64
  w_Shards :: u16
  w_ShardID :: u16
  w_Total :: u64
  w_counts :: "u64 list"
  w_FCChecked :: u64
  w_FCMatch :: u64
  w_buf :: "Record list"
  w_tldCounts :: counter

fun put_counts :: "nat \<Rightarrow> u64 list \<Rightarrow> bytes \<Rightarrow> bytes" where
  "put_counts i [] h = h"
| "put_counts i (c # cs) h = put_counts (Suc i) cs (put_at (offCounts + i * 8) (put_u64 c) h)"

definition header_bytes :: "Writer \<Rightarrow> bytes" where
  "header_bytes w =
     (let h = replicate headerSize 0;
          h = put_at offMagic (bytes_of magic) h;
          h = put_at offVersion [formatVer] h;
          h = put_at offShards (put_u16 (w_Shards w)) h;
          h = put_at offShardID (put_u16 (w_ShardID w)) h;
          h = put_at offCreated (put_u64 (w_Start w)) h;
          h = put_at offTotal (put_u64 (w_Total w)) h
      in put_counts 0 (take NumStatusCodes (w_counts w)) h)"

definition parse_header :: "bytes \<Rightarrow> go_error + Header" where
  "parse_header f =
     (if f = [] then Inl ErrEOF
      else if length f < headerSize then Inl ErrUnexpectedEOF
      else let h = take headerSize f in
        if string_of (take 5 (drop offMagic h)) \<noteq> magic then Inl ErrBadMagic
        else Inr \<lparr>h_Version = h ! offVersion,
                  h_Shards = get_u16 (drop offShards h),
                  h_ShardID = get_u16 (drop offShardID h),
                  h_Total = get_u64 (drop offTotal h),
                  h_Counts = map (\<lambda>i. get_u64 (drop (offCounts + i * 8) h)) [0..<NumStatusCodes],
                  h_Created = get_u64 (drop offCreated h)\<rparr>)"

definition ReadHeader :: "fs \<Rightarrow> string \<Rightarrow> go_error + Header" where
  "ReadHeader fs path =
     (case fs_read fs path of None \<Rightarrow> Inl ErrNotExist | Some f \<Rightarrow> parse_header f)"

section \<open>Creating and resuming\<close>

definition newWriter :: "bytes \<Rightarrow> string \<Rightarrow> u16 \<Rightarrow> u16 \<Rightarrow> u64 \<Rightarrow> Writer" where
  "newWriter f path shards shardID now =
     \<lparr>w_Path = path, w_file = f, w_bw = [], w_Start = now, w_Shards = shards,
      w_ShardID = shardID, w_Total = 0, w_counts = replicate NumStatusCodes 0,
      w_FCChecked = 0, w_FCMatch = 0, w_buf = [], w_tldCounts = []\<rparr>"

definition NewWriter :: "fs \<Rightarrow> string \<Rightarrow> u16 \<Rightarrow> u16 \<Rightarrow> u64 \<Rightarrow> go_error + (fs \<times> Writer)" where
  "NewWriter fs path shards shardID now =
     (case os_create fs path of
        Inl e \<Rightarrow> Inl e
      | Inr fs' \<Rightarrow>
          (let f = replicate headerSize 0 in
           Inr (fs_write fs' path f, newWriter f path shards shardID now)))"

definition NewWriterResume :: "fs \<Rightarrow> string \<Rightarrow> u16 \<Rightarrow> u16 \<Rightarrow> u64 \<Rightarrow> go_error + (fs \<times> Writer)" where
  "NewWriterResume fs path shards shardID now =
     (case fs_read fs path of
        None \<Rightarrow> NewWriter fs path shards shardID now
      | Some f \<Rightarrow>
          if length f < headerSize then NewWriter fs path shards shardID now
          else case ReadHeader fs path of
              Inl e \<Rightarrow> Inl e
            | Inr h \<Rightarrow>
                if h_Shards h \<noteq> shards \<or> h_ShardID h \<noteq> shardID then Inl (ErrMsg ''resume: wrong shard'')
                else let w = newWriter f path shards shardID now in
                  Inr (fs, w\<lparr>w_Total := h_Total h, w_counts := h_Counts h,
                             w_Start := (if h_Created h \<noteq> 0 then h_Created h else now)\<rparr>))"

section \<open>Adding records and flushing blocks\<close>

definition bufSize :: nat where "bufSize = 1048576"

definition block_header :: "bytes \<Rightarrow> nat \<Rightarrow> bytes \<Rightarrow> bytes" where
  "block_header cdata n raw =
     put_u32 (of_nat (length cdata)) @ put_u32 (of_nat n) @ put_u32 (of_nat (length raw))"

definition flushBlock :: "env \<Rightarrow> Writer \<Rightarrow> Writer" where
  "flushBlock E w =
     (if w_buf w = [] then w
      else let buf = sort_with (env_sort_slice E) r_IPInt (w_buf w);
               raw = encode_recs None buf;
               cdata = env_zenc E raw;
               fb = bufio_write bufSize (w_file w, w_bw w) (block_header cdata (length buf) raw);
               fb = bufio_write bufSize fb cdata
           in w\<lparr>w_file := fst fb, w_bw := snd fb, w_buf := []\<rparr>)"

definition count_rec :: "env \<Rightarrow> Record \<Rightarrow> Writer \<Rightarrow> Writer" where
  "count_rec E rec w =
     (let c = unat (Code (r_Status rec));
          w = w\<lparr>w_Total := w_Total w + 1, w_counts := (w_counts w)[c := w_counts w ! c + 1]\<rparr>;
          w = (case r_FCrDNS rec of None \<Rightarrow> w
               | Some m \<Rightarrow> w\<lparr>w_FCChecked := w_FCChecked w + 1,
                             w_FCMatch := (if m then w_FCMatch w + 1 else w_FCMatch w)\<rparr>)
      in if HasPTR (r_Status rec)
         then w\<lparr>w_tldCounts := fold (\<lambda>n. bump (tldOf E n)) (r_PTR rec) (w_tldCounts w)\<rparr>
         else w)"

definition add :: "env \<Rightarrow> Record \<Rightarrow> Writer \<Rightarrow> Writer" where
  "add E rec w =
     (let w = count_rec E rec w;
          w = w\<lparr>w_buf := w_buf w @ [rec]\<rparr>
      in if blockRecs \<le> length (w_buf w) then flushBlock E w else w)"

definition Consume :: "env \<Rightarrow> Record list \<Rightarrow> Writer \<Rightarrow> Writer" where
  "Consume E recs w = fold (add E) recs w"

definition Close :: "env \<Rightarrow> Writer \<Rightarrow> fs \<Rightarrow> fs" where
  "Close E w fs =
     (let w = flushBlock E w;
          f = w_file w @ w_bw w
      in fs_write fs (w_Path w) (header_bytes w @ drop headerSize f))"

section \<open>The byte stream of a writer\<close>

definition w_out :: "Writer \<Rightarrow> bytes" where
  "w_out w = w_file w @ w_bw w"

text \<open>The header a writer leaves behind.\<close>

definition header_of :: "Writer \<Rightarrow> Header" where
  "header_of w = \<lparr>h_Version = formatVer, h_Shards = w_Shards w, h_ShardID = w_ShardID w,
     h_Total = w_Total w, h_Counts = w_counts w, h_Created = w_Start w\<rparr>"

definition block_bytes :: "env \<Rightarrow> Record list \<Rightarrow> bytes" where
  "block_bytes E recs =
     (let buf = sort_with (env_sort_slice E) r_IPInt recs;
          raw = encode_recs None buf;
          cdata = env_zenc E raw
      in block_header cdata (length buf) raw @ cdata)"

section \<open>Flushing and adding\<close>

lemma flushBlock_simps:
  "w_buf (flushBlock E w) = []"
  "w_Path (flushBlock E w) = w_Path w"
  "w_Start (flushBlock E w) = w_Start w"
  "w_Shards (flushBlock E w) = w_Shards w"
  "w_ShardID (flushBlock E w) = w_ShardID w"
  "w_Total (flushBlock E w) = w_Total w"
  "w_counts (flushBlock E w) = w_counts w"
  "w_FCChecked (flushBlock E w) = w_FCChecked w"
  "w_FCMatch (flushBlock E w) = w_FCMatch w"
  "w_tldCounts (flushBlock E w) = w_tldCounts w"
  by (simp_all add: flushBlock_def Let_def)

lemma flushBlock_out:
  "w_out (flushBlock E w) = w_out w @ (if w_buf w = [] then [] else block_bytes E (w_buf w))"
proof (cases "w_buf w = []")
  case True
  then show ?thesis by (simp add: flushBlock_def)
next
  case False
  let ?buf = "sort_with (env_sort_slice E) r_IPInt (w_buf w)"
  let ?raw = "encode_recs None ?buf"
  let ?c = "env_zenc E ?raw"
  let ?h = "block_header ?c (length ?buf) ?raw"
  obtain f1 b1 where 1: "bufio_write bufSize (w_file w, w_bw w) ?h = (f1, b1)"
    by fastforce
  obtain f2 b2 where 2: "bufio_write bufSize (f1, b1) ?c = (f2, b2)"
    by fastforce
  have "f2 @ b2 = w_file w @ w_bw w @ ?h @ ?c"
    using bufio_write_content [OF 2] bufio_write_content [OF 1] by (metis append.assoc)
  with False 1 2 show ?thesis
    by (simp add: flushBlock_def w_out_def block_bytes_def Let_def del: bufio_write.simps)
qed

lemma flushBlock_file: "prefix (w_file w) (w_file (flushBlock E w))"
proof -
  have one: "prefix (fst fb) (fst (bufio_write sz fb p))" for sz fb p
    using bufio_write_prefix by (metis prod.collapse)
  have "prefix (w_file w) (fst (bufio_write sz (bufio_write sz (w_file w, w_bw w) p) q))" for sz p q
    using prefix_order.trans [OF one one, of "(w_file w, w_bw w)"] by simp
  then show ?thesis
    by (simp add: flushBlock_def Let_def del: bufio_write.simps)
qed

lemma count_rec_simps [simp]:
  "w_buf (count_rec E r w) = w_buf w"
  "w_file (count_rec E r w) = w_file w"
  "w_bw (count_rec E r w) = w_bw w"
  "w_Path (count_rec E r w) = w_Path w"
  "w_Start (count_rec E r w) = w_Start w"
  "w_Shards (count_rec E r w) = w_Shards w"
  "w_ShardID (count_rec E r w) = w_ShardID w"
  by (simp_all add: count_rec_def Let_def split: option.splits)
lemma count_rec_stats:
  "w_Total (count_rec E r w) = w_Total w + 1"
  "w_counts (count_rec E r w) = (w_counts w)[unat (Code (r_Status r)) := w_counts w ! unat (Code (r_Status r)) + 1]"
  "w_FCChecked (count_rec E r w) = w_FCChecked w + (if r_FCrDNS r = None then 0 else 1)"
  "w_FCMatch (count_rec E r w) = w_FCMatch w + (if r_FCrDNS r = Some True then 1 else 0)"
  by (simp_all add: count_rec_def Let_def split: option.splits)

lemma add_stats:
  "w_Total (add E r w) = w_Total w + 1"
  "w_counts (add E r w) = (w_counts w)[unat (Code (r_Status r)) := w_counts w ! unat (Code (r_Status r)) + 1]"
  "w_FCChecked (add E r w) = w_FCChecked w + (if r_FCrDNS r = None then 0 else 1)"
  "w_FCMatch (add E r w) = w_FCMatch w + (if r_FCrDNS r = Some True then 1 else 0)"
  "w_Path (add E r w) = w_Path w"
  "w_Start (add E r w) = w_Start w"
  "w_Shards (add E r w) = w_Shards w"
  "w_ShardID (add E r w) = w_ShardID w"
  by (simp_all add: add_def Let_def flushBlock_simps count_rec_stats)

lemma add_blocks:
  assumes "length (w_buf w) < blockRecs"
  shows "\<exists>bs. w_out (add E r w) = w_out w @ concat (map (block_bytes E) bs) \<and>
     concat bs @ w_buf (add E r w) = w_buf w @ [r] \<and>
     (\<forall>b\<in>set bs. length b = blockRecs) \<and> length (w_buf (add E r w)) < blockRecs"
proof (cases "Suc (length (w_buf w)) < blockRecs")
  case True
  then show ?thesis
    by (intro exI [of _ "[]"]) (simp add: add_def Let_def w_out_def)
next
  case False
  with assms have "Suc (length (w_buf w)) = blockRecs" by simp
  then show ?thesis
    by (intro exI [of _ "[w_buf w @ [r]]"])
      (simp add: add_def Let_def flushBlock_out flushBlock_simps, simp add: w_out_def blockRecs_def)
qed

lemma Consume_blocks:
  assumes "length (w_buf w) < blockRecs"
  shows "\<exists>bs. w_out (Consume E recs w) = w_out w @ concat (map (block_bytes E) bs) \<and>
     concat bs @ w_buf (Consume E recs w) = w_buf w @ recs \<and>
     (\<forall>b\<in>set bs. length b = blockRecs) \<and> length (w_buf (Consume E recs w)) < blockRecs"
  using assms
proof (induction recs arbitrary: w)
  case Nil
  then show ?case by (intro exI [of _ "[]"]) (simp add: Consume_def)
next
  case (Cons r recs)
  obtain bs where bs: "w_out (add E r w) = w_out w @ concat (map (block_bytes E) bs)"
    "concat bs @ w_buf (add E r w) = w_buf w @ [r]" "\<forall>b\<in>set bs. length b = blockRecs"
    "length (w_buf (add E r w)) < blockRecs"
    using add_blocks [OF Cons.prems] by blast
  obtain cs where cs: "w_out (Consume E recs (add E r w)) = w_out (add E r w) @ concat (map (block_bytes E) cs)"
    "concat cs @ w_buf (Consume E recs (add E r w)) = w_buf (add E r w) @ recs"
    "\<forall>b\<in>set cs. length b = blockRecs" "length (w_buf (Consume E recs (add E r w))) < blockRecs"
    using Cons.IH [OF bs(4)] by blast
  have "concat (bs @ cs) @ w_buf (Consume E recs (add E r w)) = w_buf w @ r # recs"
    using bs(2) cs(2) by (metis append.assoc append_Cons append_Nil concat_append)
  with bs cs show ?case
    by (intro exI [of _ "bs @ cs"]) (auto simp: Consume_def)
qed

section \<open>The header round-trips\<close>

lemma put_at_zeros:
  "off = length a \<Longrightarrow> put_at off b (a @ replicate n 0) = (a @ b) @ replicate (n - length b) 0"
  by (simp add: put_at_def)

lemma put_counts_append:
  "length a = offCounts + i * 8 \<Longrightarrow> 8 * length cs \<le> n \<Longrightarrow>
     put_counts i cs (a @ replicate n 0) = a @ concat (map put_u64 cs) @ replicate (n - 8 * length cs) 0"
proof (induction cs arbitrary: i a n)
  case (Cons c cs)
  have "put_counts i (c # cs) (a @ replicate n 0) = put_counts (Suc i) cs ((a @ put_u64 c) @ replicate (n - 8) 0)"
    using Cons.prems by (simp add: put_at_zeros del: append_assoc)
  also have "\<dots> = (a @ put_u64 c) @ concat (map put_u64 cs) @ replicate (n - 8 - 8 * length cs) 0"
    using Cons.prems by (intro Cons.IH) auto
  finally show ?case by simp
qed simp

lemma header_layout:
  assumes "length (w_counts w) = 8"
  shows "header_bytes w = bytes_of magic @ [formatVer] @ put_u16 (w_Shards w) @ put_u16 (w_ShardID w) @
     put_u64 (w_Start w) @ put_u64 (w_Total w) @ concat (map put_u64 (w_counts w)) @ replicate 38 0"
proof -
  let ?a = "bytes_of magic"
  let ?b = "?a @ [formatVer]"
  let ?c = "?b @ put_u16 (w_Shards w)"
  let ?d = "?c @ put_u16 (w_ShardID w)"
  let ?e = "?d @ put_u64 (w_Start w)"
  let ?f = "?e @ put_u64 (w_Total w)"
  have lm: "length magic = 5" by (simp add: magic_def)
  have "put_at offMagic ?a (replicate headerSize 0) = ?a @ replicate 123 0"
    using put_at_zeros [of offMagic "[]" ?a headerSize] by (simp add: offMagic_def headerSize_def lm)
  moreover have "put_at offVersion [formatVer] (?a @ replicate 123 0) = ?b @ replicate 122 0"
    using put_at_zeros [of offVersion ?a "[formatVer]" 123] by (simp add: offVersion_def lm)
  moreover have "put_at offShards (put_u16 (w_Shards w)) (?b @ replicate 122 0) = ?c @ replicate 120 0"
    using put_at_zeros [of offShards ?b "put_u16 (w_Shards w)" 122] by (simp add: offShards_def lm)
  moreover have "put_at offShardID (put_u16 (w_ShardID w)) (?c @ replicate 120 0) = ?d @ replicate 118 0"
    using put_at_zeros [of offShardID ?c "put_u16 (w_ShardID w)" 120] by (simp add: offShardID_def lm)
  moreover have "put_at offCreated (put_u64 (w_Start w)) (?d @ replicate 118 0) = ?e @ replicate 110 0"
    using put_at_zeros [of offCreated ?d "put_u64 (w_Start w)" 118] by (simp add: offCreated_def lm)
  moreover have "put_at offTotal (put_u64 (w_Total w)) (?e @ replicate 110 0) = ?f @ replicate 102 0"
    using put_at_zeros [of offTotal ?e "put_u64 (w_Total w)" 110] by (simp add: offTotal_def lm)
  moreover have "put_counts 0 (w_counts w) (?f @ replicate 102 0) =
      ?f @ concat (map put_u64 (w_counts w)) @ replicate 38 0"
    using assms put_counts_append [of ?f 0 "w_counts w" 102] by (simp add: offCounts_def lm)
  moreover have "take NumStatusCodes (w_counts w) = w_counts w"
    using assms by (simp add: NumStatusCodes_def)
  ultimately show ?thesis
    unfolding header_bytes_def Let_def by (simp only: append_assoc)
qed

lemma length_concat_u64 [simp]: "length (concat (map put_u64 cs)) = 8 * length cs"
  by (induction cs) auto

lemma get_u64_concat:
  "i < length cs \<Longrightarrow> get_u64 (drop (8 * i) (concat (map put_u64 cs) @ rest)) = cs ! i"
proof (induction cs arbitrary: i)
  case (Cons c cs)
  show ?case
  proof (cases i)
    case 0
    then show ?thesis by (simp add: codec_simps)
  next
    case (Suc j)
    then show ?thesis using Cons by simp
  qed
qed simp

lemma length_header_bytes: "length (w_counts w) = 8 \<Longrightarrow> length (header_bytes w) = headerSize"
  by (simp add: header_layout magic_def headerSize_def)

lemma parse_header_bytes:
  assumes "length (w_counts w) = 8"
  shows "parse_header (header_bytes w @ rest) = Inr (header_of w)"
proof -
  let ?h = "header_bytes w"
  let ?c = "concat (map put_u64 (w_counts w)) @ replicate 38 0"
  note L = header_layout [OF assms]
  have tk: "take headerSize (?h @ rest) = ?h"
    by (simp add: length_header_bytes [OF assms])
  have m: "string_of (take 5 (drop offMagic ?h)) = magic"
  proof -
    have "take 5 (drop offMagic ?h) = bytes_of magic"
      by (simp add: L offMagic_def) (simp add: magic_def)
    then show ?thesis by simp
  qed
  have "?h ! offVersion = formatVer"
    by (simp add: L offVersion_def magic_def nth_append)
  moreover have "get_u16 (drop offShards ?h) = w_Shards w"
    by (simp add: L offShards_def magic_def codec_simps)
  moreover have "get_u16 (drop offShardID ?h) = w_ShardID w"
    by (simp add: L offShardID_def magic_def codec_simps)
  moreover have "get_u64 (drop offCreated ?h) = w_Start w"
    by (simp add: L offCreated_def magic_def codec_simps)
  moreover have "get_u64 (drop offTotal ?h) = w_Total w"
    by (simp add: L offTotal_def magic_def codec_simps)
  moreover have "map (\<lambda>i. get_u64 (drop (offCounts + i * 8) ?h)) [0..<NumStatusCodes] = w_counts w"
  proof (rule nth_equalityI)
    fix i
    assume "i < length (map (\<lambda>i. get_u64 (drop (offCounts + i * 8) ?h)) [0..<NumStatusCodes])"
    then have i: "i < 8" by (simp add: NumStatusCodes_def)
    have "drop (offCounts + i * 8) ?h = drop (8 * i) (drop offCounts ?h)"
      by (simp add: mult.commute add.commute)
    also have "drop offCounts ?h = ?c"
      by (simp add: L offCounts_def magic_def)
    finally have "get_u64 (drop (offCounts + i * 8) ?h) = w_counts w ! i"
      using get_u64_concat [of i "w_counts w" "replicate 38 0"] i assms by simp
    then show "map (\<lambda>i. get_u64 (drop (offCounts + i * 8) ?h)) [0..<NumStatusCodes] ! i = w_counts w ! i"
      using i by (simp add: NumStatusCodes_def)
  qed (simp add: assms NumStatusCodes_def)
  moreover have "?h @ rest \<noteq> []" "\<not> length (?h @ rest) < headerSize"
    using length_header_bytes [OF assms] by (auto simp: headerSize_def)
  ultimately show ?thesis
    unfolding parse_header_def Let_def tk header_of_def using m by auto
qed

section \<open>The store writer is a sink\<close>

interpretation store_sink: sink "add E" w_Total w_counts w_FCChecked w_FCMatch for E
  by unfold_locales (simp_all add: add_stats)

lemma Consume_stats:
  "w_Total (Consume E recs w) = w_Total w + of_nat (length recs)"
  "length (w_counts w) = 8 \<Longrightarrow> length (w_counts (Consume E recs w)) = 8"
  "length (w_counts w) = 8 \<Longrightarrow> c < 8 \<Longrightarrow>
     w_counts (Consume E recs w) ! c = w_counts w ! c + of_nat (status_count c recs)"
  by (simp_all add: Consume_def store_sink.total_fold store_sink.length_by_code_fold
      store_sink.by_code_fold)

lemma Consume_frame:
  "w_Path (Consume E recs w) = w_Path w"
  "w_Start (Consume E recs w) = w_Start w"
  "w_Shards (Consume E recs w) = w_Shards w"
  "w_ShardID (Consume E recs w) = w_ShardID w"
  by (induction recs arbitrary: w) (simp_all add: Consume_def add_stats)

end
