(* ===== verification/Store_File.thy ===== *)
theory Store_File
  imports Store_Reader
begin

text \<open>
  What a whole \<^verbatim>\<open>.rdnsz\<close> file promises: a file that a writer created, filled and closed reads
  back to exactly the records added to it, with a header that counts them; a resumed writer
  appends to it; a file that was never closed still scans up to its last complete block, but
  its header is the placeholder of \<open>NewWriter\<close>. The locale-based statistics of the writer
  come from \<open>Sink_Contract\<close>.
\<close>


section \<open>Sizes\<close>

text \<open>Names of DNS presentation format: at most 1004 bytes with every byte escaped.\<close>

definition short_rec :: "Record \<Rightarrow> bool" where
  "short_rec rec = list_all (\<lambda>n. length n \<le> 1004) (take maxPTRNames (r_PTR rec))"

lemma length_encode_name: "length n \<le> 1004 \<Longrightarrow> length (encode_name ip n) \<le> 1006"
proof -
  assume "length n \<le> 1004"
  then have le: "length (encodeTemplate ip n) \<le> 1004"
    using length_encodeTemplate [of ip n] by simp
  then have "length (put_uvarint (of_nat (length (encodeTemplate ip n)))) \<le> 2"
    by (intro length_put_uvarint) (simp_all add: unat_of_nat)
  with le show ?thesis by (simp add: encode_name_def Let_def)
qed

lemma length_concat_le: "(\<And>x. x \<in> set xs \<Longrightarrow> length x \<le> k) \<Longrightarrow> length (concat xs) \<le> length xs * k"
  by (induction xs) (auto intro: add_mono)

lemma length_encode_rec:
  assumes "short_rec rec"
  shows "length (encode_rec (ucast (d :: u32)) rec) \<le> 32199"
proof -
  let ?ns = "take maxPTRNames (r_PTR rec)"
  have "length (put_uvarint (ucast d)) \<le> 5"
    using unat_u32_less [of d] by (intro length_put_uvarint) (simp_all add: unat_simps mod_less [OF less_trans [OF unat_u32_less [of d]]] less_trans [OF unat_u32_less [of d]])
  moreover have n32: "length ?ns \<le> 32"
    by (simp add: maxPTRNames_def)
  moreover have "length (put_uvarint (of_nat (length ?ns))) \<le> 1"
    using n32 by (intro length_put_uvarint) (simp_all add: unat_of_nat)
  moreover have "length (concat (map (encode_name (r_IPInt rec)) ?ns)) \<le> length ?ns * 1006"
    using assms length_concat_le [of "map (encode_name (r_IPInt rec)) ?ns" 1006] length_encode_name
    by (auto simp: short_rec_def list_all_iff)
  moreover have "length ?ns * 1006 \<le> 32 * 1006"
    using n32 by (intro mult_right_mono) simp_all
  ultimately show ?thesis
    by (simp add: encode_rec_def Let_def)
qed

lemma length_encode_recs:
  "(\<And>r. r \<in> set recs \<Longrightarrow> short_rec r) \<Longrightarrow> length (encode_recs prev recs) \<le> length recs * 32199"
proof (induction prev recs rule: encode_recs.induct)
  case (2 prev rec recs)
  then show ?case
    using length_encode_rec [of rec] by (fastforce intro: add_mono)
qed simp

text \<open>A record for the concrete instances: a name that embeds its own address.\<close>

definition rec_example :: Record where
  "rec_example = \<lparr>r_IP = ''1.2.3.4'', r_IPInt = 0x01020304, r_Status = StatusHasPTR, r_PTR = [''h-1-2-3-4.x.net''],
     r_FCrDNS = Some True, r_Resolver = [], r_Attempts = 1, r_LatencyMs = 7, r_Rcode = [], r_Error = [], r_TS = []\<rparr>"

lemma clean_short_example [simp]: "clean_rec rec_example" "short_rec rec_example"
  by (simp_all add: clean_rec_def short_rec_def rec_example_def maxPTRNames_def markers_def marker_defs)

section \<open>Reading back a block\<close>

lemma block_size:
  assumes z: "zstd_ok E" and srt: "sorts_keys (env_sort_slice E)"
    and recs: "length recs \<le> blockRecs" "\<And>r. r \<in> set recs \<Longrightarrow> short_rec r"
  defines "raw \<equiv> encode_recs None (sort_with (env_sort_slice E) r_IPInt recs)"
  shows "length raw \<le> 2110193664" "unat (of_nat (length (env_zenc E raw)) :: u32) = length (env_zenc E raw)"
proof -
  let ?buf = "sort_with (env_sort_slice E) r_IPInt recs"
  have "length raw \<le> length recs * 32199"
    using length_encode_recs [of ?buf None] recs(2) srt by (simp add: raw_def length_sort_with set_sort_with)
  moreover have "length recs * 32199 \<le> 65536 * 32199"
    using recs(1) by (intro mult_right_mono) (simp_all add: blockRecs_def)
  ultimately show lraw: "length raw \<le> 2110193664" by simp
  have "length (env_zenc E raw) \<le> 2 * length raw + 1024"
    using z by (simp add: zstd_ok_def)
  with lraw show "unat (of_nat (length (env_zenc E raw)) :: u32) = length (env_zenc E raw)"
    by (simp add: unat_of_nat)
qed

lemma blocks_list_block:
  assumes z: "zstd_ok E" and srt: "sorts_keys (env_sort_slice E)"
    and recs: "recs \<noteq> []" "length recs \<le> blockRecs" "\<And>r. r \<in> set recs \<Longrightarrow> short_rec r"
  shows "blocks_list E (block_bytes E recs @ rest) =
     apfst ((@) (map restored (sort_with (env_sort_slice E) r_IPInt recs))) (blocks_list E rest)"
proof -
  define buf where "buf = sort_with (env_sort_slice E) r_IPInt recs"
  define raw where "raw = encode_recs None buf"
  define c where "c = env_zenc E raw"
  have lraw: "length raw \<le> 2110193664" and lc: "unat (of_nat (length c) :: u32) = length c"
    using block_size [OF z srt recs(2,3)] by (simp_all add: raw_def buf_def c_def)
  have zdec: "env_zdec E c = Some raw"
    using z by (simp add: zstd_ok_def c_def)
  have hdr: "block_bytes E recs = block_header c (length buf) raw @ c"
    by (simp add: block_bytes_def buf_def raw_def c_def Let_def)
  have h12: "length (block_header c (length buf) raw) = 12"
    by (simp add: block_header_def)
  have g: "get_u32 (block_header c (length buf) raw @ x) = of_nat (length c)" for x
    by (simp add: block_header_def codec_simps)
  have "block_loop raw 0 None = (map restored buf, None)"
    using block_loop_encode [of "[]" None buf] lraw by (simp add: raw_def)
  moreover have "block_header c (length buf) raw \<noteq> []"
    using h12 by auto
  ultimately show ?thesis
    using zdec lc h12
    by (subst blocks_list.simps) (simp add: hdr g buf_def [symmetric] Let_def)
qed

lemma blocks_list_blocks:
  assumes z: "zstd_ok E" and srt: "sorts_keys (env_sort_slice E)"
    and bs: "\<And>b. b \<in> set bs \<Longrightarrow> b \<noteq> [] \<and> length b \<le> blockRecs" "\<And>b r. b \<in> set bs \<Longrightarrow> r \<in> set b \<Longrightarrow> short_rec r"
  shows "blocks_list E (concat (map (block_bytes E) bs)) =
     (concat (map (\<lambda>b. map restored (sort_with (env_sort_slice E) r_IPInt b)) bs), None)"
  using bs
proof (induction bs)
  case (Cons b bs)
  have "blocks_list E (concat (map (block_bytes E) bs)) =
     (concat (map (\<lambda>b. map restored (sort_with (env_sort_slice E) r_IPInt b)) bs), None)"
    using Cons.prems by (intro Cons.IH) auto
  moreover have "b \<noteq> []" "length b \<le> blockRecs" "\<And>r. r \<in> set b \<Longrightarrow> short_rec r"
    using Cons.prems by auto
  ultimately show ?case
    using blocks_list_block [OF z srt, of b "concat (map (block_bytes E) bs)"] by simp
qed simp

section \<open>Reading back a closed file\<close>

text \<open>The blocks of a writer's file, header aside.\<close>

definition file_wf :: "Writer \<Rightarrow> bool" where
  "file_wf w \<longleftrightarrow> length (w_counts w) = 8 \<and> headerSize \<le> length (w_file w) \<and> length (w_buf w) < blockRecs"

lemma newWriter_wf [wf_intros]: "headerSize \<le> length f \<Longrightarrow> file_wf (newWriter f path shards sid now)"
  by (simp add: file_wf_def newWriter_def NumStatusCodes_def blockRecs_def)

lemma add_wf [wf_intros]: "file_wf w \<Longrightarrow> file_wf (add E r w)"
proof -
  assume w: "file_wf w"
  have "prefix (w_file w) (w_file (add E r w))"
    using flushBlock_file [of "count_rec E r w\<lparr>w_buf := w_buf w @ [r]\<rparr>" E]
    by (auto simp: add_def Let_def)
  then have "headerSize \<le> length (w_file (add E r w))"
    using w prefix_length_le [of "w_file w"] le_trans unfolding file_wf_def by blast
  moreover have "length (w_buf (add E r w)) < blockRecs"
    using add_blocks [of w E r] w by (auto simp: file_wf_def)
  ultimately show ?thesis using w by (simp add: file_wf_def add_stats)
qed

lemma Consume_wf [wf_intros]: "file_wf w \<Longrightarrow> file_wf (Consume E recs w)"
  by (induction recs arbitrary: w) (auto simp: Consume_def intro: wf_intros)

lemma blocks_list_append:
  "snd (blocks_list E a) = None \<Longrightarrow>
     blocks_list E (a @ b) = apfst ((@) (fst (blocks_list E a))) (blocks_list E b)"
proof (induction E a rule: blocks_list.induct)
  case (1 E a)
  define cl where "cl = unat (get_u32 a)"
  show ?case
  proof (cases "a = []")
    case False
    with "1.prems" have L: "\<not> length a < 12"
      by (auto simp: blocks_list.simps [of E a])
    then have g: "get_u32 (a @ b) = get_u32 a" by (simp add: get_u32_def)
    from False L "1.prems" have cl: "\<not> length (drop 12 a) < cl"
      by (auto simp: blocks_list.simps [of E a] Let_def cl_def)
    from False L cl "1.prems" obtain raw where raw: "env_zdec E (take cl (drop 12 a)) = Some raw"
      by (cases "env_zdec E (take cl (drop 12 a))") (auto simp: blocks_list.simps [of E a] Let_def cl_def)
    obtain rs e where b: "block_loop raw 0 None = (rs, e)" by fastforce
    from False L cl raw b "1.prems" have e: "e = None"
      by (cases e) (auto simp: blocks_list.simps [of E a] Let_def cl_def [symmetric])
    let ?rest = "drop cl (drop 12 a)"
    have A: "blocks_list E a = apfst ((@) rs) (blocks_list E ?rest)"
      using False L cl raw b e by (simp add: blocks_list.simps [of E a] Let_def cl_def [symmetric])
    have AB: "blocks_list E (a @ b) = apfst ((@) rs) (blocks_list E (?rest @ b))"
    proof -
      have "a @ b \<noteq> []" "\<not> length (a @ b) < 12" "\<not> length (drop 12 (a @ b)) < cl"
        "take cl (drop 12 (a @ b)) = take cl (drop 12 a)" "drop cl (drop 12 (a @ b)) = ?rest @ b"
        using False L cl by auto
      then show ?thesis
        using raw b e
        by (simp add: blocks_list.simps [of E "a @ b"] Let_def g cl_def [symmetric] del: drop_append take_append drop_drop append_is_Nil_conv)
    qed
    have "blocks_list E (?rest @ b) = apfst ((@) (fst (blocks_list E ?rest))) (blocks_list E b)"
      using "1.IH" [OF False L refl refl] cl raw b e "1.prems" A
      by (simp add: cl_def)
    then show ?thesis unfolding A AB by (cases "blocks_list E b") simp
  qed (cases "blocks_list E b", simp)
qed

lemma Close_file:
  assumes "file_wf w"
  shows "\<exists>bs. fs_read (Close E (Consume E recs w) fs) (w_Path w) =
      Some (header_bytes (Consume E recs w) @ drop headerSize (w_out w) @ concat (map (block_bytes E) bs)) \<and>
     concat bs = w_buf w @ recs \<and> (\<forall>b\<in>set bs. b \<noteq> [] \<and> length b \<le> blockRecs)"
proof -
  let ?w = "Consume E recs w"
  obtain bs where bs: "w_out ?w = w_out w @ concat (map (block_bytes E) bs)"
    "concat bs @ w_buf ?w = w_buf w @ recs" "\<forall>b\<in>set bs. length b = blockRecs"
    "length (w_buf ?w) < blockRecs"
    using Consume_blocks [of w E recs] assms by (auto simp: file_wf_def)
  let ?bs = "bs @ (if w_buf ?w = [] then [] else [w_buf ?w])"
  have "w_out (flushBlock E ?w) = w_out w @ concat (map (block_bytes E) ?bs)"
    using bs(1) by (simp add: flushBlock_out)
  moreover have "headerSize \<le> length (w_out w)"
    using assms by (simp add: file_wf_def w_out_def)
  moreover have "header_bytes (flushBlock E ?w) = header_bytes ?w"
    by (simp add: header_bytes_def flushBlock_simps Let_def)
  ultimately show ?thesis using bs
    by (intro exI [of _ ?bs])
      (auto simp: Close_def Let_def fs_read_write flushBlock_simps Consume_frame w_out_def [symmetric] blockRecs_def)
qed

text \<open>Closing a file changes no other file.\<close>

lemma Close_other: "q \<noteq> w_Path w \<Longrightarrow> fs_read (Close E w fs) q = fs_read fs q"
  by (simp add: Close_def Let_def fs_read_write flushBlock_simps)

lemma mset_blocks:
  "sorts_keys f \<Longrightarrow> mset (concat (map (\<lambda>b. map g (sort_with f key b)) bs)) = image_mset g (mset (concat bs))"
  by (induction bs) (simp_all add: mset_sort_with)

lemma scan_list_Close:
  assumes z: "zstd_ok E" and srt: "sorts_keys (env_sort_slice E)" and w: "file_wf w" "w_buf w = []"
    and old: "blocks_list E (drop headerSize (w_out w)) = (old, None)"
    and recs: "list_all clean_rec recs" "list_all short_rec recs"
  shows "\<exists>rs. scan_list E (Close E (Consume E recs w) fs) (w_Path w) = (old @ rs, None) \<and>
     mset rs = mset (map stored recs)"
proof -
  let ?fs = "Close E (Consume E recs w) fs"
  let ?g = "\<lambda>b. map restored (sort_with (env_sort_slice E) r_IPInt b)"
  obtain bs where f: "fs_read ?fs (w_Path w) = Some (header_bytes (Consume E recs w) @
      drop headerSize (w_out w) @ concat (map (block_bytes E) bs))"
    and bs: "concat bs = recs" "\<forall>b\<in>set bs. b \<noteq> [] \<and> length b \<le> blockRecs"
    using Close_file [OF w(1), of E recs fs] w(2) by auto
  have hl: "length (header_bytes (Consume E recs w)) = headerSize"
    using Consume_wf [OF w(1), of E recs] by (intro length_header_bytes) (simp add: file_wf_def)
  have "r \<in> set recs" if "b \<in> set bs" "r \<in> set b" for b r
    using that bs(1) by auto
  then have new: "blocks_list E (concat (map (block_bytes E) bs)) = (concat (map ?g bs), None)"
    using bs(2) recs(2) by (intro blocks_list_blocks [OF z srt]) (auto simp: list_all_iff)
  have "map restored recs = map stored recs"
    using recs(1) by (simp add: list_all_iff restored_clean)
  then have "mset (concat (map ?g bs)) = mset (map stored recs)"
    using mset_blocks [OF srt, of restored r_IPInt bs] bs(1) by (metis mset_map)
  moreover have "scan_list E ?fs (w_Path w) = (old @ concat (map ?g bs), None)"
    using blocks_list_append [of E "drop headerSize (w_out w)"] old new
    by (simp add: scan_list_def f hl)
  ultimately show ?thesis by blast
qed

lemma ReadHeader_Close:
  assumes "file_wf w"
  shows "ReadHeader (Close E (Consume E recs w) fs) (w_Path w) = Inr (header_of (Consume E recs w))"
proof -
  have "length (w_counts (Consume E recs w)) = 8"
    using Consume_wf [OF assms, of E recs] by (simp add: file_wf_def)
  then show ?thesis
    using Close_file [OF assms, of E recs fs] by (auto simp: ReadHeader_def parse_header_bytes)
qed

lemma Consume_counts:
  assumes "length (w_counts w) = 8"
  shows "w_counts (Consume E recs w) = map (\<lambda>c. w_counts w ! c + of_nat (status_count c recs)) [0..<8]"
  using Consume_stats(2,3) [OF assms] by (intro nth_equalityI) simp_all

lemma header_Consume:
  "length (w_counts w) = 8 \<Longrightarrow> header_of (Consume E recs w) = (header_of w)
     \<lparr>h_Total := w_Total w + of_nat (length recs),
      h_Counts := map (\<lambda>c. w_counts w ! c + of_nat (status_count c recs)) [0..<8]\<rparr>"
  by (simp add: header_of_def Consume_frame Consume_stats(1) Consume_counts)

lemma NewWriter_ok:
  "is_dir fs (path_dir path) \<Longrightarrow> \<not> is_dir fs path \<Longrightarrow>
     NewWriter fs path shards shardID now =
       Inr (fs_write (fs_write fs path []) path (replicate headerSize 0),
            newWriter (replicate headerSize 0) path shards shardID now)"
  by (simp add: NewWriter_def os_create_def Let_def)

lemma newWriter_fresh:
  fixes path shards shardID now
  defines "w \<equiv> newWriter (replicate headerSize 0) path shards shardID now"
  shows "file_wf w" "w_buf w = []" "w_Path w = path" "blocks_list E (drop headerSize (w_out w)) = ([], None)"
    "header_of w = \<lparr>h_Version = 2, h_Shards = shards, h_ShardID = shardID, h_Total = 0,
      h_Counts = replicate 8 0, h_Created = now\<rparr>"
    "w_Total w = 0" "w_counts w = replicate 8 0"
  by (simp_all add: w_def newWriter_wf)
    (simp_all add: newWriter_def w_out_def header_of_def formatVer_def NumStatusCodes_def)

text \<open>
  C6. A store file is lossless. If a fresh \<^verbatim>\<open>.rdnsz\<close> file is created, any records are added
  (with names of at most the DNS presentation length that contain no template marker byte) and
  the writer is closed, then \<open>Scan\<close> delivers, without an error, exactly the stored form of
  those records (a permutation of them: each block is sorted by address), and \<open>ReadHeader\<close>
  returns the shard identity, the creation time, the exact total and the exact count of every
  status.\<close>
theorem store_roundtrip:
  assumes "zstd_ok E" and "sorts_keys (env_sort_slice E)"
    and "list_all clean_rec recs" and "list_all short_rec recs"
    and "is_dir fs (path_dir path)" and "\<not> is_dir fs path"
  shows "\<exists>fs1 w rs. NewWriter fs path shards shardID now = Inr (fs1, w) \<and>
     Scan E (Close E (Consume E recs w) fs1) path collect [] = (rs, None) \<and>
     mset rs = mset (map stored recs) \<and>
     ReadHeader (Close E (Consume E recs w) fs1) path =
       Inr \<lparr>h_Version = 2, h_Shards = shards, h_ShardID = shardID, h_Total = of_nat (length recs),
            h_Counts = map (\<lambda>c. of_nat (status_count c recs)) [0..<8], h_Created = now\<rparr>"
proof -
  let ?w = "newWriter (replicate headerSize 0) path shards shardID now"
  let ?fs1 = "fs_write (fs_write fs path []) path (replicate headerSize 0)"
  note w = newWriter_fresh [where path = path and shards = shards and shardID = shardID and now = now]
  have "\<exists>rs. Scan E (Close E (Consume E recs ?w) ?fs1) path collect [] = (rs, None) \<and>
       mset rs = mset (map stored recs)"
    using scan_list_Close [OF assms(1,2) w(1,2,4) assms(3,4), of ?fs1] by (simp add: Scan_collect w(3))
  moreover have "ReadHeader (Close E (Consume E recs ?w) ?fs1) path =
       Inr \<lparr>h_Version = 2, h_Shards = shards, h_ShardID = shardID, h_Total = of_nat (length recs),
            h_Counts = map (\<lambda>c. of_nat (status_count c recs)) [0..<8], h_Created = now\<rparr>"
    using ReadHeader_Close [OF w(1), of E recs ?fs1] w(3,5,6,7) by (simp add: header_Consume cong: map_cong)
  ultimately show ?thesis
    using NewWriter_ok [OF assms(5,6), of shards shardID now] by blast
qed

lemma parse_header_counts: "parse_header f = Inr h \<Longrightarrow> length (h_Counts h) = 8 \<and> headerSize \<le> length f"
  by (auto simp: parse_header_def Let_def NumStatusCodes_def split: if_splits)

text \<open>
  C24. Resuming is cumulative. On a file that scans without an error, \<open>NewWriterResume\<close> with the
  file's own shard identity succeeds, and after adding records and closing, the file holds the
  old records, in their old order, followed by exactly the new ones; the header's total and
  status counts have grown by the new records and the creation time is kept.\<close>
theorem resume_appends:
  assumes "zstd_ok E" and "sorts_keys (env_sort_slice E)"
    and "list_all clean_rec recs" and "list_all short_rec recs"
    and "Scan E fs path collect [] = (old, None)" and "ReadHeader fs path = Inr h"
  shows "\<exists>w rs. NewWriterResume fs path (h_Shards h) (h_ShardID h) now = Inr (fs, w) \<and>
     Scan E (Close E (Consume E recs w) fs) path collect [] = (old @ rs, None) \<and>
     mset rs = mset (map stored recs) \<and>
     ReadHeader (Close E (Consume E recs w) fs) path =
       Inr (h\<lparr>h_Version := 2, h_Total := h_Total h + of_nat (length recs),
              h_Counts := map (\<lambda>c. h_Counts h ! c + of_nat (status_count c recs)) [0..<8],
              h_Created := (if h_Created h \<noteq> 0 then h_Created h else now)\<rparr>)"
proof -
  obtain f where f: "fs_read fs path = Some f" "parse_header f = Inr h"
    using assms(6) by (auto simp: ReadHeader_def split: option.splits)
  note c8 = parse_header_counts [OF f(2)]
  define w where "w = (newWriter f path (h_Shards h) (h_ShardID h) now)\<lparr>w_Total := h_Total h,
     w_counts := h_Counts h, w_Start := (if h_Created h \<noteq> 0 then h_Created h else now)\<rparr>"
  have res: "NewWriterResume fs path (h_Shards h) (h_ShardID h) now = Inr (fs, w)"
    using c8 assms(6) f(1) by (simp add: NewWriterResume_def w_def Let_def)
  have w: "file_wf w" "w_buf w = []" "w_Path w = path" "w_out w = f" "w_Total w = h_Total h"
    "w_counts w = h_Counts h"
    using c8 by (simp_all add: w_def newWriter_def file_wf_def w_out_def blockRecs_def)
  have old: "blocks_list E (drop headerSize (w_out w)) = (old, None)"
    using assms(5) f(1) c8 w(4) by (simp add: Scan_collect scan_list_def)
  have "header_of w = h\<lparr>h_Version := 2, h_Created := (if h_Created h \<noteq> 0 then h_Created h else now)\<rparr>"
    by (simp add: w_def header_of_def newWriter_def formatVer_def)
  then have "ReadHeader (Close E (Consume E recs w) fs) path =
       Inr (h\<lparr>h_Version := 2, h_Total := h_Total h + of_nat (length recs),
              h_Counts := map (\<lambda>c. h_Counts h ! c + of_nat (status_count c recs)) [0..<8],
              h_Created := (if h_Created h \<noteq> 0 then h_Created h else now)\<rparr>)"
    using ReadHeader_Close [OF w(1), of E recs fs] w(3,5,6) c8 by (simp add: header_Consume cong: map_cong)
  then show ?thesis
    using scan_list_Close [OF assms(1,2) w(1,2) old assms(3,4), of fs] res w(3) by (auto simp: Scan_collect)
qed

text \<open>
  Resuming never adopts another shard's file: when the header names a different shard count
  or shard number, \<open>NewWriterResume\<close> returns an error.\<close>
lemma resume_wrong_shard:
  assumes "ReadHeader fs path = Inr h" and "h_Shards h \<noteq> shards \<or> h_ShardID h \<noteq> shardID"
  shows "NewWriterResume fs path shards shardID now = Inl (ErrMsg ''resume: wrong shard'')"
proof -
  obtain f where "fs_read fs path = Some f" "\<not> length f < headerSize"
    using assms(1) parse_header_counts by (fastforce simp: ReadHeader_def split: option.splits)
  with assms show ?thesis by (auto simp: NewWriterResume_def)
qed

section \<open>Files that were not closed\<close>

text \<open>What a process that is killed, or a copy made mid-crawl, leaves at the writer's path.\<close>

definition crash :: "Writer \<Rightarrow> fs \<Rightarrow> fs" where
  "crash w fs = fs_write fs (w_Path w) (w_file w)"

lemma blocks_list_prefix:
  assumes z: "zstd_ok E" and srt: "sorts_keys (env_sort_slice E)"
    and bs: "\<And>b. b \<in> set bs \<Longrightarrow> b \<noteq> [] \<and> length b \<le> blockRecs" "\<And>b r. b \<in> set bs \<Longrightarrow> r \<in> set b \<Longrightarrow> short_rec r"
    and p: "prefix p (concat (map (block_bytes E) bs))"
  shows "\<exists>k e. blocks_list E p =
     (concat (map (\<lambda>b. map restored (sort_with (env_sort_slice E) r_IPInt b)) (take k bs)), e) \<and>
     (e = None \<or> e = Some ErrTruncatedTail)"
  using bs p
proof (induction bs arbitrary: p)
  case (Cons b bs)
  let ?g = "\<lambda>b. map restored (sort_with (env_sort_slice E) r_IPInt b)"
  let ?B = "block_bytes E b"
  have b: "b \<noteq> []" "length b \<le> blockRecs" "\<And>r. r \<in> set b \<Longrightarrow> short_rec r"
    using Cons.prems by auto
  show ?case
  proof (cases "prefix ?B p")
    case True
    then obtain q where q: "p = ?B @ q" by (auto elim: prefixE)
    have "\<exists>k e. blocks_list E q = (concat (map ?g (take k bs)), e) \<and> (e = None \<or> e = Some ErrTruncatedTail)"
      by (rule Cons.IH) (use Cons.prems q in auto)
    then obtain k e where "blocks_list E q = (concat (map ?g (take k bs)), e)" "e = None \<or> e = Some ErrTruncatedTail"
      by blast
    then show ?thesis
      using blocks_list_block [OF z srt b, of q] q by (intro exI [of _ "Suc k"] exI [of _ e]) simp
  next
    case False
    with Cons.prems(3) have sp: "prefix p ?B" "p \<noteq> ?B"
      by (auto dest!: prefix_append [THEN iffD1])
    then have lp: "length p < length ?B"
      by (metis prefix_length_less strict_prefix_def)
    define buf where "buf = sort_with (env_sort_slice E) r_IPInt b"
    define c where "c = env_zenc E (encode_recs None buf)"
    have hdr: "?B = block_header c (length buf) (encode_recs None buf) @ c"
      by (simp add: block_bytes_def buf_def c_def Let_def)
    have lc: "unat (of_nat (length c) :: u32) = length c"
      using block_size [OF z srt b(2,3)] by (simp add: c_def buf_def)
    have "blocks_list E p = ([], if p = [] then None else Some ErrTruncatedTail)"
    proof (cases "length p < 12")
      case False
      then have "get_u32 p = get_u32 ?B"
        using sp(1) by (auto simp: get_u32_def elim!: prefixE)
      also have "\<dots> = of_nat (length c)"
        by (simp add: hdr block_header_def codec_simps)
      finally show ?thesis
        using False lp lc by (subst blocks_list.simps) (auto simp: hdr block_header_def Let_def)
    qed (simp add: blocks_list.simps)
    then show ?thesis by (intro exI [of _ 0]) auto
  qed
qed simp

lemma mset_concat_take: "mset (concat (take k bs)) \<subseteq># mset (concat bs)"
  by (metis append_take_drop_id concat_append mset_append mset_subset_eq_add_left)

lemma Consume_file: "prefix (w_file w) (w_file (Consume E recs w))"
proof (induction recs arbitrary: w)
  case (Cons r recs)
  have "prefix (w_file w) (w_file (add E r w))"
    using flushBlock_file [of "count_rec E r w\<lparr>w_buf := w_buf w @ [r]\<rparr>" E] by (auto simp: add_def Let_def)
  also note Cons.IH [of "add E r w"]
  finally show ?case by (simp add: Consume_def)
qed (simp add: Consume_def)

text \<open>
  C30. A file that is still being written is readable. At every moment between creation and
  close, scanning what is in the file ends either cleanly or with \<open>ErrTruncatedTail\<close>, never with
  a decoding error, and delivers only records that were added, each at most as often as it was
  added.\<close>
theorem crash_scan:
  assumes "zstd_ok E" and "sorts_keys (env_sort_slice E)"
    and "list_all clean_rec recs" and "list_all short_rec recs"
    and "NewWriter fs path shards shardID now = Inr (fs1, w)"
  shows "\<exists>rs e. Scan E (crash (Consume E recs w) fs1) path collect [] = (rs, e) \<and>
     e \<in> {None, Some ErrTruncatedTail} \<and> mset rs \<subseteq># mset (map stored recs)"
proof -
  have w: "w = newWriter (replicate headerSize 0) path shards shardID now"
    using assms(5) by (auto simp: NewWriter_def Let_def split: sum.splits)
  let ?w = "Consume E recs w"
  let ?g = "\<lambda>b. map restored (sort_with (env_sort_slice E) r_IPInt b)"
  have wo: "w_out w = replicate headerSize 0" "w_file w = replicate headerSize 0" "w_buf w = []" "w_Path ?w = path"
    by (simp_all add: w newWriter_def w_out_def Consume_frame)
  obtain bs where bs: "w_out ?w = w_out w @ concat (map (block_bytes E) bs)"
    "concat bs @ w_buf ?w = recs" "\<forall>b\<in>set bs. length b = blockRecs"
    using Consume_blocks [of w E recs] wo by (auto simp: blockRecs_def)
  obtain p where p: "w_file ?w = replicate headerSize 0 @ p"
    using Consume_file [of w E recs] wo by (auto elim: prefixE)
  then have "prefix p (concat (map (block_bytes E) bs))"
    using bs(1) unfolding wo(1) by (auto simp: w_out_def prefix_def intro: exI [of _ "w_bw ?w"])
  moreover have "short_rec r" if "b \<in> set bs" "r \<in> set b" for b r
  proof -
    have "set (concat bs) \<subseteq> set recs" using bs(2) by (metis Un_upper1 set_append)
    then show ?thesis using that assms(4) by (auto simp: list_all_iff)
  qed
  moreover have "b \<noteq> [] \<and> length b \<le> blockRecs" if "b \<in> set bs" for b
    using that bs(3) by (auto simp: blockRecs_def)
  ultimately obtain k e where k: "blocks_list E p = (concat (map ?g (take k bs)), e)"
    and e: "e = None \<or> e = Some ErrTruncatedTail"
    using blocks_list_prefix [OF assms(1,2), of bs p] by blast
  have "mset (concat (map ?g (take k bs))) = image_mset restored (mset (concat (take k bs)))"
    by (rule mset_blocks [OF assms(2)])
  also have "\<dots> \<subseteq># image_mset restored (mset recs)"
    using mset_concat_take [of k bs] bs(2)
    by (metis image_mset_subseteq_mono mset_append mset_subset_eq_add_left subset_mset.order_trans)
  also have "image_mset restored (mset recs) = mset (map stored recs)"
    using assms(3) by (auto simp: list_all_iff restored_clean intro: image_mset_cong)
  finally show ?thesis
    using k e p wo(4) by (auto simp: Scan_collect scan_list_def crash_def fs_read_write)
qed

text \<open>
  C33. The header of a file that was never closed is unreadable: until \<open>Close\<close> patches it the
  file starts with zero bytes, so \<open>ReadHeader\<close> fails with a bad magic, and a crawl that was
  killed before its first \<open>Close\<close> cannot be continued by \<open>NewWriterResume\<close>.\<close>
theorem crash_header:
  assumes "NewWriter fs path shards shardID now = Inr (fs1, w)"
  shows "ReadHeader (crash (Consume E recs w) fs1) path = Inl ErrBadMagic \<and>
     NewWriterResume (crash (Consume E recs w) fs1) path shards shardID now' = Inl ErrBadMagic"
proof -
  have w: "w = newWriter (replicate headerSize 0) path shards shardID now"
    using assms by (auto simp: NewWriter_def Let_def split: sum.splits)
  obtain p where "w_file (Consume E recs w) = replicate headerSize 0 @ p"
    using Consume_file [of w E recs] by (auto simp: w newWriter_def elim: prefixE)
  then have f: "fs_read (crash (Consume E recs w) fs1) path = Some (replicate headerSize 0 @ p)"
    by (simp add: crash_def fs_read_write Consume_frame w newWriter_def)
  have "parse_header (replicate headerSize 0 @ p) = Inl ErrBadMagic"
    by (simp add: parse_header_def headerSize_def Let_def offMagic_def magic_def string_of_def eval_nat_numeral)
  with f show ?thesis by (simp add: ReadHeader_def NewWriterResume_def)
qed

text \<open>
  C34. A corrupt name length is not always reported: for a length of \<open>2 ^ 63\<close> or more (below the last 13) the sum
  \<open>off + int(l)\<close> is negative, passes the overrun check, and the slice expression panics instead
  of returning the error \<^verbatim>\<open>name overruns\<close>.\<close>
theorem decode_name_overflow:
  assumes "2 ^ 63 \<le> unat l" and "unat l < 2 ^ 64 - 13"
  shows "decodeBlock ([0, 0, 1] @ put_uvarint l @ rest) fn s = (s, Some EPanic)"
proof -
  have "decode_names ([0, 0, 1] @ put_uvarint l @ rest) 0 (length [0 :: u8, 0, 1]) (Suc 0) [] = Inl EPanic"
    using assms length_put_uvarint_le [of l] by (intro decode_names_panic) auto
  then have "decode_names (0 # 0 # 1 # put_uvarint l @ rest) 0 3 1 [] = Inl EPanic"
    by (simp add: eval_nat_numeral)
  moreover have "uvarint (0 # x) = (0, 1)" "uvarint (1 # x) = (1, 1)" for x
    by (simp_all add: uvarint_def MaxVarintLen64_def)
  ultimately have "decode_rec (0 # 0 # 1 # put_uvarint l @ rest) 0 None = Inl EPanic"
    by (simp add: decode_rec_def Let_def CodeHasPTR_def eval_nat_numeral)
  then show ?thesis
    by (simp add: decodeBlock_def decode_loop.simps)
qed

section \<open>Concrete instances\<close>

definition fs_example :: fs where
  "fs_example = \<lparr>fs_files = [], fs_dirs = [''d'']\<rparr>"

definition path_example :: string where
  "path_example = ''d/s.rdnsz''"

lemma fs_example_ok [simp]: "is_dir fs_example (path_dir path_example)" "\<not> is_dir fs_example path_example"
  by (simp_all add: fs_example_def path_example_def is_dir_def path_dir_def)

lemma mset_singleton: "mset xs = {#x#} \<Longrightarrow> xs = [x]"
  by (metis mset_single_iff_right)

theorem store_roundtrip_witness:
  "\<exists>fs1 w. NewWriter fs_example path_example 4 1 99 = Inr (fs1, w) \<and>
     Scan test_env (Close test_env (Consume test_env [rec_example] w) fs1) path_example collect [] =
       ([stored rec_example], None)"
  using store_roundtrip [OF zstd_ok_test_env test_env_sorts(1), of "[rec_example]" fs_example path_example 4 1 99]
  by (auto dest: mset_singleton)

definition w_example :: Writer where
  "w_example = newWriter (replicate headerSize 0) path_example 4 1 99"

lemma NewWriter_example: "\<exists>fs1. NewWriter fs_example path_example 4 1 99 = Inr (fs1, w_example)"
  using NewWriter_ok [of fs_example path_example 4 1 99] by (simp add: w_example_def)

definition fs_closed :: fs where
  "fs_closed = Close test_env (Consume test_env [rec_example] w_example) fs_example"

lemma fs_closed_scan: "Scan test_env fs_closed path_example collect [] = ([stored rec_example], None)"
proof -
  note w = newWriter_fresh [where path = path_example and shards = 4 and shardID = 1 and now = 99, folded w_example_def]
  show ?thesis
    using scan_list_Close [OF zstd_ok_test_env test_env_sorts(1) w(1,2,4), of "[rec_example]" fs_example] w(3)
    by (auto simp: Scan_collect fs_closed_def dest: mset_singleton)
qed

lemma fs_closed_header: "\<exists>h. ReadHeader fs_closed path_example = Inr h \<and> h_Shards h = 4 \<and> h_ShardID h = 1 \<and> h_Total h = 1"
proof -
  note w = newWriter_fresh [where path = path_example and shards = 4 and shardID = 1 and now = 99, folded w_example_def]
  show ?thesis
    using ReadHeader_Close [OF w(1), of test_env "[rec_example]" fs_example] w(3,5,6,7)
    by (simp add: fs_closed_def header_Consume)
qed

theorem resume_appends_witness:
  "\<exists>w. NewWriterResume fs_closed path_example 4 1 100 = Inr (fs_closed, w) \<and>
     Scan test_env (Close test_env (Consume test_env [rec_example] w) fs_closed) path_example collect [] =
       ([stored rec_example, stored rec_example], None)"
proof -
  obtain h where h: "ReadHeader fs_closed path_example = Inr h" "h_Shards h = 4" "h_ShardID h = 1"
    using fs_closed_header by blast
  show ?thesis
    using resume_appends [OF zstd_ok_test_env test_env_sorts(1) _ _ fs_closed_scan h(1), of "[rec_example]" 100] h(2,3)
    by (auto dest: mset_singleton)
qed

lemma resume_wrong_shard_instance:
  "NewWriterResume fs_closed path_example 4 2 100 = Inl (ErrMsg ''resume: wrong shard'')"
  using fs_closed_header resume_wrong_shard [of fs_closed path_example _ 4 2 100] by fastforce

theorem crash_scan_witness:
  "\<exists>fs1 rs e. Scan test_env (crash (Consume test_env [rec_example] w_example) fs1) path_example collect [] = (rs, e) \<and>
     e \<in> {None, Some ErrTruncatedTail} \<and> mset rs \<subseteq># {#stored rec_example#}"
  using NewWriter_example crash_scan [OF zstd_ok_test_env test_env_sorts(1), of "[rec_example]" fs_example path_example 4 1 99]
  by fastforce

theorem crash_header_witness:
  "\<exists>fs1. ReadHeader (crash (Consume test_env [rec_example] w_example) fs1) path_example = Inl ErrBadMagic"
  using NewWriter_example crash_header [of fs_example path_example 4 1 99] by blast

theorem decode_name_overflow_witness:
  "decodeBlock ([0, 0, 1] @ put_uvarint (2 ^ 63) @ []) collect [] = ([], Some EPanic)"
  by (rule decode_name_overflow) simp_all

end
