(* ===== verification/Store_Targets.thy ===== *)
theory Store_Targets
  imports Store_File Go_Net
begin

unbundle bit_operations_syntax

text \<open>
  Re-crawl target streams (\<^verbatim>\<open>src/internal/store/targets.go\<close>): counting and streaming the
  addresses of a previous pass whose status is in a mask. The goroutine of \<open>StreamTargets\<close> is a
  scan callback on the state below; the schedule says, for every send, whether it happens before
  the context is cancelled, and whether the cursor consumer has taken the buffered value by the
  time of a checkpoint.
\<close>

section \<open>Definitions\<close>

definition DefaultTargetCheckpoint :: u64 where "DefaultTargetCheckpoint = 131072"

definition CountTargets :: "env \<Rightarrow> fs \<Rightarrow> string \<Rightarrow> status_mask \<Rightarrow> go_error + u64" where
  "CountTargets E fs path msk =
     (case Scan E fs path (\<lambda>r n. (if mask_Has msk (s_Status r) then n + 1 else n, None)) 0 of
        (n, Some e) \<Rightarrow> Inl e
      | (n, None) \<Rightarrow> Inr n)"

definition intToIP :: "u32 \<Rightarrow> string" where
  "intToIP v = sprintf_dotted v"

record schedule =
  sch_deliver :: "u64 \<Rightarrow> bool"  \<comment> \<open>the send after so many produced targets is not cancelled\<close>
  sch_taken :: "u64 \<Rightarrow> bool"    \<comment> \<open>the cursor buffer was emptied by then\<close>

record tstate =
  t_produced :: u64
  t_emitted :: u64
  t_out :: "string list"
  t_buf :: "u64 option"   \<comment> \<open>the cursor channel's one-element buffer\<close>
  t_cur :: "u64 list"     \<comment> \<open>cursor values received so far\<close>

definition target_fn ::
  "status_mask \<Rightarrow> u64 \<Rightarrow> u64 \<Rightarrow> u64 \<Rightarrow> schedule \<Rightarrow> Rec \<Rightarrow> tstate \<Rightarrow> tstate \<times> go_error option" where
  "target_fn msk skip limit every sch r s =
     (if \<not> mask_Has msk (s_Status r) then (s, None)
      else if t_produced s < skip then (s\<lparr>t_produced := t_produced s + 1\<rparr>, None)
      else if limit \<noteq> 0 \<and> limit \<le> t_emitted s then (s, Some ErrStop)
      else if sch_deliver sch (t_produced s) then
        (let s = s\<lparr>t_out := t_out s @ [intToIP (s_IP r)], t_produced := t_produced s + 1,
                   t_emitted := t_emitted s + 1\<rparr>;
             s = (if t_produced s mod every = 0 then
                    (let s = (if sch_taken sch (t_produced s)
                              then s\<lparr>t_cur := t_cur s @ (case t_buf s of None \<Rightarrow> [] | Some n \<Rightarrow> [n]), t_buf := None\<rparr>
                              else s)
                     in case t_buf s of None \<Rightarrow> s\<lparr>t_buf := Some (t_produced s)\<rparr> | Some _ \<Rightarrow> s)
                  else s)
         in (s, None))
      else (s, Some ErrStop))"

text \<open>
  The goroutine: the targets delivered, the cursor values received (the last is the final
  position, which replaces a buffered value nobody took), and the error reported.
\<close>

definition StreamTargets ::
  "env \<Rightarrow> fs \<Rightarrow> string \<Rightarrow> status_mask \<Rightarrow> u64 \<Rightarrow> u64 \<Rightarrow> u64 \<Rightarrow> schedule \<Rightarrow>
   string list \<times> u64 list \<times> go_error option" where
  "StreamTargets E fs path msk skip limit every sch =
     (let every = (if every = 0 then DefaultTargetCheckpoint else every);
          (s, err) = Scan E fs path (target_fn msk skip limit every sch)
            \<lparr>t_produced = 0, t_emitted = 0, t_out = [], t_buf = None, t_cur = []\<rparr>
      in (t_out s, t_cur s @ [t_produced s],
          if err = Some ErrStop \<or> err = None then None else err))"

text \<open>The targets of a list of records.\<close>

definition targets :: "status_mask \<Rightarrow> Rec list \<Rightarrow> Rec list" where
  "targets msk rs = filter (\<lambda>r. mask_Has msk (s_Status r)) rs"

text \<open>A sequence of interrupted runs, each resuming at the cursor the previous one left.\<close>

fun recrawl_runs ::
  "env \<Rightarrow> fs \<Rightarrow> string \<Rightarrow> status_mask \<Rightarrow> u64 \<Rightarrow> (u64 \<times> schedule) list \<Rightarrow> u64 \<Rightarrow> string list \<times> u64" where
  "recrawl_runs E fs path msk every [] c = ([], c)"
| "recrawl_runs E fs path msk every ((limit, sch) # runs) c =
     (let (out, curs, err) = StreamTargets E fs path msk c limit every sch;
          (outs, c') = recrawl_runs E fs path msk every runs (last curs)
      in (out @ outs, c'))"

section \<open>Counting\<close>

lemma CountTargets_list:
  "CountTargets E fs path msk =
     (case scan_list E fs path of (rs, Some e) \<Rightarrow> Inl e | (rs, None) \<Rightarrow> Inr (of_nat (length (targets msk rs))))"
proof -
  have "fold (\<lambda>r n. if mask_Has msk (s_Status r) then n + 1 else n) rs n = n + of_nat (length (targets msk rs))" for rs and n :: u64
    by (induction rs arbitrary: n) (simp_all add: targets_def)
  then show ?thesis
    unfolding CountTargets_def
    by (subst Scan_pure) (auto split: prod.splits option.splits)
qed

section \<open>The streaming callback\<close>

lemma target_fn_filter:
  "fold_err (target_fn msk skip limit every sch) rs s = fold_err (target_fn msk skip limit every sch) (targets msk rs) s"
  by (induction rs arbitrary: s) (auto simp: targets_def target_fn_def split: prod.splits option.splits)

lemma targets_idem [simp]: "x \<in> set (targets msk rs) \<Longrightarrow> mask_Has msk (s_Status x)"
  by (simp add: targets_def)

lemma target_fn_skip:
  assumes "\<And>r. r \<in> set ts \<Longrightarrow> mask_Has msk (s_Status r)" and "unat (t_produced s) + length ts \<le> unat skip"
  shows "fold_err (target_fn msk skip limit every sch) ts s = (s\<lparr>t_produced := t_produced s + of_nat (length ts)\<rparr>, None)"
  using assms
proof (induction ts arbitrary: s)
  case (Cons r ts)
  have lt: "t_produced s < skip" using Cons.prems(2) by (simp add: word_less_nat_alt)
  then have "unat (t_produced s) + 1 < 2 ^ 64"
    using unsigned_less [where ?'a = nat, of skip] by (simp add: word_less_nat_alt)
  then have u: "unat (t_produced s + 1) = unat (t_produced s) + 1" by (simp add: unat_word_ariths)
  have "fold_err (target_fn msk skip limit every sch) ts (s\<lparr>t_produced := t_produced s + 1\<rparr>) =
      (s\<lparr>t_produced := t_produced s + 1\<rparr>\<lparr>t_produced := t_produced s + 1 + of_nat (length ts)\<rparr>, None)"
    using Cons.IH [of "s\<lparr>t_produced := t_produced s + 1\<rparr>"] Cons.prems u by simp
  moreover have "target_fn msk skip limit every sch r s = (s\<lparr>t_produced := t_produced s + 1\<rparr>, None)"
    using Cons.prems(1) lt by (simp add: target_fn_def)
  ultimately show ?case by (simp add: add.assoc)
qed simp

text \<open>
  The invariant of the delivery phase: the addresses delivered are those of the first \<open>k\<close>
  targets, the counters agree, and the run ends early only because of the limit or a
  cancellation.
\<close>

lemma target_fn_emit:
  assumes "\<And>r. r \<in> set ts \<Longrightarrow> mask_Has msk (s_Status r)" and "skip \<le> t_produced s"
    and "unat (t_produced s) + length ts < 2 ^ 64"
  shows "\<exists>k s' e. fold_err (target_fn msk skip limit every sch) ts s = (s', e) \<and> k \<le> length ts \<and>
     t_out s' = t_out s @ map (\<lambda>r. intToIP (s_IP r)) (take k ts) \<and>
     t_produced s' = t_produced s + of_nat k \<and> t_emitted s' = t_emitted s + of_nat k \<and>
     (if e = None then k = length ts
      else e = Some ErrStop \<and> k < length ts \<and>
        (limit \<noteq> 0 \<and> limit \<le> t_emitted s' \<or> \<not> sch_deliver sch (t_produced s')))"
  using assms
proof (induction ts arbitrary: s)
  case (Cons r ts)
  let ?f = "target_fn msk skip limit every sch"
  have nskip: "\<not> t_produced s < skip" using Cons.prems(2) by simp
  have m: "mask_Has msk (s_Status r)" using Cons.prems(1) by simp
  show ?case
  proof (cases "limit \<noteq> 0 \<and> limit \<le> t_emitted s \<or> \<not> sch_deliver sch (t_produced s)")
    case True
    then have "?f r s = (s, Some ErrStop)" using m nskip by (auto simp: target_fn_def)
    then have "fold_err ?f (r # ts) s = (s, Some ErrStop)" by simp
    with True show ?thesis by (intro exI [of _ 0] exI [of _ s] exI [of _ "Some ErrStop"]) auto
  next
    case False
    obtain s1 where s1: "?f r s = (s1, None)" "t_out s1 = t_out s @ [intToIP (s_IP r)]"
      "t_produced s1 = t_produced s + 1" "t_emitted s1 = t_emitted s + 1"
      using False m nskip by (auto simp: target_fn_def Let_def split: option.splits)
    have "unat (t_produced s) + 1 < 2 ^ 64" using Cons.prems(3) by simp
    then have u: "unat (t_produced s1) = unat (t_produced s) + 1" by (simp add: s1(3) unat_word_ariths)
    have "skip \<le> t_produced s1" using Cons.prems(2) u by (simp add: word_le_nat_alt)
    then obtain k s' e where IH: "fold_err ?f ts s1 = (s', e)" "k \<le> length ts"
      "t_out s' = t_out s1 @ map (\<lambda>r. intToIP (s_IP r)) (take k ts)"
      "t_produced s' = t_produced s1 + of_nat k" "t_emitted s' = t_emitted s1 + of_nat k"
      "if e = None then k = length ts
        else e = Some ErrStop \<and> k < length ts \<and>
          (limit \<noteq> 0 \<and> limit \<le> t_emitted s' \<or> \<not> sch_deliver sch (t_produced s'))"
      using Cons.IH [of s1] Cons.prems u by force
    have "fold_err ?f (r # ts) s = (s', e)" using s1(1) IH(1) by simp
    moreover have "if e = None then Suc k = length (r # ts)
        else e = Some ErrStop \<and> Suc k < length (r # ts) \<and>
          (limit \<noteq> 0 \<and> limit \<le> t_emitted s' \<or> \<not> sch_deliver sch (t_produced s'))"
      using IH(6) by auto
    ultimately show ?thesis
      using IH(2-5) s1(2-4) by (intro exI [of _ "Suc k"] exI [of _ s'] exI [of _ e]) (simp add: add.assoc)
  qed
qed simp

text \<open>Every cursor value, received or buffered, is a position already reached.\<close>

definition cursors_safe :: "tstate \<Rightarrow> bool" where
  "cursors_safe s \<longleftrightarrow> (\<forall>c \<in> set (t_cur s) \<union> set_option (t_buf s). unat c \<le> unat (t_produced s))"

lemma cursors_safe_step:
  assumes "cursors_safe s" and "unat (t_produced s) + 1 < 2 ^ 64"
  shows "cursors_safe (fst (target_fn msk skip limit every sch r s)) \<and>
    unat (t_produced (fst (target_fn msk skip limit every sch r s))) \<le> unat (t_produced s) + 1"
proof -
  have u: "unat (t_produced s + 1) = unat (t_produced s) + 1"
    using assms(2) by (simp add: unat_word_ariths)
  show ?thesis
    using assms(1) u
    by (auto simp: target_fn_def cursors_safe_def Let_def intro: le_SucI split: option.splits if_splits)
qed

lemma cursors_safe_fold:
  "cursors_safe s \<Longrightarrow> unat (t_produced s) + length ts < 2 ^ 64 \<Longrightarrow>
     cursors_safe (fst (fold_err (target_fn msk skip limit every sch) ts s))"
proof (induction ts arbitrary: s)
  case (Cons r ts)
  obtain s1 e where s1: "target_fn msk skip limit every sch r s = (s1, e)" by fastforce
  have "cursors_safe s1 \<and> unat (t_produced s1) \<le> unat (t_produced s) + 1"
    using cursors_safe_step [OF Cons.prems(1), of msk skip limit every sch r] Cons.prems(2) s1 by simp
  then show ?case using Cons.IH [of s1] Cons.prems(2) s1 by (cases e) auto
qed simp

lemma emitted_limit:
  "limit \<noteq> 0 \<Longrightarrow> t_emitted s \<le> limit \<Longrightarrow> t_emitted (fst (fold_err (target_fn msk skip limit every sch) ts s)) \<le> limit"
proof (induction ts arbitrary: s)
  case (Cons r ts)
  obtain s1 e where s1: "target_fn msk skip limit every sch r s = (s1, e)" by fastforce
  have "t_emitted s1 \<le> limit"
    using s1 Cons.prems inc_le [of "t_emitted s" limit]
    by (auto simp: target_fn_def Let_def not_le split: option.splits if_splits)
  then show ?case using Cons s1 by (cases e) auto
qed simp

lemma StreamTargets_run:
  assumes scan: "scan_list E fs path = (rs, None)" and len: "length (targets msk rs) < 2 ^ 64"
  defines "ts \<equiv> targets msk rs"
  shows "\<exists>k curs. StreamTargets E fs path msk skip limit every sch =
       (map (\<lambda>r. intToIP (s_IP r)) (take k (drop (unat skip) ts)), curs @ [of_nat (min (unat skip) (length ts) + k)], None) \<and>
     k \<le> length ts - unat skip \<and> list_all (\<lambda>c. unat c \<le> min (unat skip) (length ts) + k) curs \<and>
     (limit = 0 \<or> k \<le> unat limit) \<and>
     (k = length ts - unat skip \<or> limit \<noteq> 0 \<and> limit \<le> of_nat k \<or> \<not> sch_deliver sch (skip + of_nat k))"
proof -
  define ev where "ev = (if every = 0 then DefaultTargetCheckpoint else every)"
  let ?f = "target_fn msk skip limit ev sch"
  let ?s0 = "\<lparr>t_produced = 0, t_emitted = 0, t_out = [], t_buf = None, t_cur = []\<rparr>"
  let ?m = "min (unat skip) (length ts)"
  define s1 where "s1 = ?s0\<lparr>t_produced := of_nat ?m\<rparr>"
  have s1f: "t_out s1 = []" "t_produced s1 = of_nat ?m" "t_emitted s1 = 0" by (simp_all add: s1_def)
  have m64: "unat (of_nat ?m :: u64) = ?m"
    using len by (simp add: ts_def unat_of_nat)
  have mem: "r \<in> set (take n ts) \<Longrightarrow> mask_Has msk (s_Status r)" "r \<in> set (drop n ts) \<Longrightarrow> mask_Has msk (s_Status r)" for r n
    unfolding ts_def by (auto dest: in_set_takeD in_set_dropD)
  have "fold_err ?f (take (unat skip) ts) ?s0 = (s1, None)"
    using target_fn_skip [of "take (unat skip) ts" msk ?s0 skip limit ev sch] mem(1) by (simp add: s1_def min.commute)
  then have run: "fold_err ?f ts ?s0 = fold_err ?f (drop (unat skip) ts) s1"
    using fold_err_append [of ?f "take (unat skip) ts" "drop (unat skip) ts" ?s0] by simp
  have "\<exists>k s' e. fold_err ?f (drop (unat skip) ts) s1 = (s', e) \<and> k \<le> length (drop (unat skip) ts) \<and>
     t_out s' = t_out s1 @ map (\<lambda>r. intToIP (s_IP r)) (take k (drop (unat skip) ts)) \<and>
     t_produced s' = t_produced s1 + of_nat k \<and> t_emitted s' = t_emitted s1 + of_nat k \<and>
     (if e = None then k = length (drop (unat skip) ts)
      else e = Some ErrStop \<and> k < length (drop (unat skip) ts) \<and>
        (limit \<noteq> 0 \<and> limit \<le> t_emitted s' \<or> \<not> sch_deliver sch (t_produced s')))"
  proof (cases "unat skip \<le> length ts")
    case True
    then show ?thesis
      using mem(2) m64 len by (intro target_fn_emit) (auto simp: s1_def ts_def word_le_nat_alt min_def)
  next
    case False
    then show ?thesis by (intro exI [of _ 0] exI [of _ s1] exI [of _ None]) simp
  qed
  then obtain k s' e where k: "fold_err ?f (drop (unat skip) ts) s1 = (s', e)" "k \<le> length ts - unat skip"
     "t_out s' = map (\<lambda>r. intToIP (s_IP r)) (take k (drop (unat skip) ts))"
     "t_produced s' = of_nat (?m + k)" "t_emitted s' = of_nat k"
     "if e = None then k = length ts - unat skip
      else e = Some ErrStop \<and> k < length ts - unat skip \<and>
        (limit \<noteq> 0 \<and> limit \<le> t_emitted s' \<or> \<not> sch_deliver sch (t_produced s'))"
    unfolding s1f length_drop append_Nil add_0_left of_nat_add by blast
  have "cursors_safe (fst (fold_err ?f ts ?s0))"
    using len by (intro cursors_safe_fold) (simp_all add: cursors_safe_def ts_def)
  moreover have "unat (t_produced s') = ?m + k"
    using len k(2,4) by (simp add: unat_of_nat ts_def min_def del: of_nat_add)
  ultimately have safe: "list_all (\<lambda>c. unat c \<le> ?m + k) (t_cur s')"
    using k(1) run by (simp add: cursors_safe_def list_all_iff)
  have "StreamTargets E fs path msk skip limit every sch = (t_out s', t_cur s' @ [t_produced s'], None)"
    using k(1,6) run
    by (auto simp: StreamTargets_def Let_def ev_def [symmetric] Scan_fold scan target_fn_filter [of _ _ _ _ _ rs]
        ts_def [symmetric] split: option.splits if_splits)
  moreover have "k = length ts - unat skip \<or> limit \<noteq> 0 \<and> limit \<le> of_nat k \<or> \<not> sch_deliver sch (skip + of_nat k)"
  proof (cases e)
    case (Some x)
    then have "unat skip \<le> length ts" using k(6) by auto
    then have "t_produced s' = skip + of_nat k" using k(4) by (simp add: min_def)
    then show ?thesis using k(5,6) Some by simp
  qed (use k(6) in simp)
  moreover have "limit = 0 \<or> k \<le> unat limit"
  proof -
    have "limit = 0 \<or> t_emitted s' \<le> limit"
      using emitted_limit [of limit ?s0 msk skip ev sch ts] k(1) run by auto
    moreover have "unat (of_nat k :: u64) = k" using k(2) len by (simp add: unat_of_nat ts_def)
    ultimately show ?thesis unfolding k(5) by (simp add: word_le_nat_alt)
  qed
  ultimately show ?thesis
    using k(2,3,4) safe by (intro exI [of _ k] exI [of _ "t_cur s'"]) simp
qed

section \<open>Properties\<close>

text \<open>
  \<open>CountTargets\<close> counts exactly the records of the file whose status is in the mask, and
  reports every read error instead of a partial count.\<close>
lemma count_targets_exact:
  "CountTargets E fs path msk =
     (case Scan E fs path collect [] of
        (rs, Some e) \<Rightarrow> Inl e
      | (rs, None) \<Rightarrow> Inr (of_nat (length (filter (\<lambda>r. mask_Has msk (s_Status r)) rs))))"
  by (cases "scan_list E fs path") (simp only: CountTargets_list Scan_collect targets_def)

lemma unat_limit_take:
  assumes "length xs < 2 ^ 64" and "k \<le> length xs"
    and "k = length xs \<or> limit \<noteq> 0 \<and> limit \<le> (of_nat k :: u64)"
    and "limit = 0 \<or> k \<le> unat limit"
  shows "take k xs = (if limit = 0 then xs else take (unat limit) xs)"
proof -
  have "unat (of_nat k :: u64) = k" using assms(1,2) by (simp add: unat_of_nat)
  then show ?thesis using assms by (auto simp: word_le_nat_alt)
qed

text \<open>
  C13. Re-crawling is restartable without loss. For a complete observation file and any sequence
  of runs, each cut short by its limit or by a cancellation and each resumed at the final cursor
  of the run before it, the addresses handed out over all runs are exactly the first \<open>c\<close> targets
  of the file, each once and in file order, where \<open>c\<close> is the last cursor.\<close>
theorem recrawl_runs_exact:
  assumes "Scan E fs path collect [] = (rs, None)" and "length (targets msk rs) < 2 ^ 64"
    and "recrawl_runs E fs path msk every runs 0 = (outs, c)"
  shows "outs = map (\<lambda>r. intToIP (s_IP r)) (take (unat c) (targets msk rs)) \<and> unat c \<le> length (targets msk rs)"
proof -
  let ?ts = "targets msk rs" and ?ip = "\<lambda>r. intToIP (s_IP r)"
  have scan: "scan_list E fs path = (rs, None)" using assms(1) by (simp add: Scan_collect)
  have "map ?ip (take (unat c0) ?ts) @ outs = map ?ip (take (unat c) ?ts) \<and> unat c \<le> length ?ts"
    if "unat c0 \<le> length ?ts" "recrawl_runs E fs path msk every runs c0 = (outs, c)" for c0
    using that
  proof (induction runs arbitrary: c0 outs)
    case (Cons run runs)
    obtain limit sch where run: "run = (limit, sch)" by fastforce
    obtain k curs where k: "StreamTargets E fs path msk c0 limit every sch =
        (map ?ip (take k (drop (unat c0) ?ts)), curs @ [of_nat (min (unat c0) (length ?ts) + k)], None)"
      "k \<le> length ?ts - unat c0"
      using StreamTargets_run [OF scan assms(2), of c0 limit every sch] by blast
    define c1 where "c1 = (of_nat (unat c0 + k) :: u64)"
    have c1: "unat c1 = unat c0 + k" using k(2) Cons.prems(1) assms(2) by (simp add: c1_def unat_of_nat del: of_nat_add)
    obtain outs1 where rest: "recrawl_runs E fs path msk every runs c1 = (outs1, c)"
      "outs = map ?ip (take k (drop (unat c0) ?ts)) @ outs1"
      using Cons.prems run k(1) by (auto simp: Let_def c1_def split: prod.splits)
    have "map ?ip (take (unat c1) ?ts) @ outs1 = map ?ip (take (unat c) ?ts) \<and> unat c \<le> length ?ts"
      using c1 k(2) Cons.prems(1) rest(1) by (intro Cons.IH) auto
    then show ?case
      using rest(2) by (simp add: c1 take_add)
  qed simp
  from this [of 0] show ?thesis using assms(3) by simp
qed

text \<open>
  An undisturbed run streams exactly the wanted targets: those after the first \<open>skip\<close>, in
  file order, all of them or the first \<open>limit\<close> of them, without an error, and every cursor value
  received on the way is a position already reached.\<close>
lemma stream_targets_exact:
  assumes "Scan E fs path collect [] = (rs, None)" and "length (targets msk rs) < 2 ^ 64"
    and "sch_deliver sch = (\<lambda>n. True)"
  shows "\<exists>curs. StreamTargets E fs path msk skip limit every sch =
       (map (\<lambda>r. intToIP (s_IP r))
          (if limit = 0 then drop (unat skip) (targets msk rs)
           else take (unat limit) (drop (unat skip) (targets msk rs))), curs, None) \<and>
     list_all (\<lambda>c. c \<le> last curs) curs"
proof -
  let ?ts = "targets msk rs"
  have scan: "scan_list E fs path = (rs, None)" using assms(1) by (simp add: Scan_collect)
  obtain k curs where k: "StreamTargets E fs path msk skip limit every sch =
       (map (\<lambda>r. intToIP (s_IP r)) (take k (drop (unat skip) ?ts)), curs @ [of_nat (min (unat skip) (length ?ts) + k)], None)"
     "k \<le> length ?ts - unat skip" "list_all (\<lambda>c. unat c \<le> min (unat skip) (length ?ts) + k) curs"
     "limit = 0 \<or> k \<le> unat limit" "k = length ?ts - unat skip \<or> limit \<noteq> 0 \<and> limit \<le> of_nat k"
    using StreamTargets_run [OF scan assms(2), of skip limit every sch] assms(3) by auto
  have "take k (drop (unat skip) ?ts) =
      (if limit = 0 then drop (unat skip) ?ts else take (unat limit) (drop (unat skip) ?ts))"
    using k(2,4,5) assms(2) by (intro unat_limit_take) auto
  moreover have "unat (of_nat (min (unat skip) (length ?ts) + k) :: u64) = min (unat skip) (length ?ts) + k"
    using k(2) assms(2) by (simp add: unat_of_nat min_def del: of_nat_add)
  ultimately show ?thesis
    using k(1,3) by (intro exI [of _ "curs @ [of_nat (min (unat skip) (length ?ts) + k)]"])
      (simp add: word_le_nat_alt list_all_iff)
qed

section \<open>Concrete instances\<close>

lemma targets_example: "targets 1 [stored rec_example] = [stored rec_example]"
  by (simp add: targets_def mask_Has_def stored_def rec_example_def Code_def statusToCode_def CodeHasPTR_def)

theorem recrawl_runs_exact_witness:
  "\<exists>outs c. recrawl_runs test_env fs_closed path_example 1 0
       [(0, \<lparr>sch_deliver = \<lambda>n. False, sch_taken = \<lambda>n. True\<rparr>), (0, \<lparr>sch_deliver = \<lambda>n. True, sch_taken = \<lambda>n. True\<rparr>)] 0 = (outs, c) \<and>
     outs = map (\<lambda>r. intToIP (s_IP r)) (take (unat c) [stored rec_example]) \<and> unat c \<le> 1"
proof -
  obtain outs c where r: "recrawl_runs test_env fs_closed path_example 1 0
       [(0, \<lparr>sch_deliver = \<lambda>n. False, sch_taken = \<lambda>n. True\<rparr>), (0, \<lparr>sch_deliver = \<lambda>n. True, sch_taken = \<lambda>n. True\<rparr>)] 0 = (outs, c)"
    by fastforce
  show ?thesis
    using recrawl_runs_exact [OF fs_closed_scan _ r] r unfolding targets_example by simp
qed

lemma stream_targets_exact_instance:
  "\<exists>curs. StreamTargets test_env fs_closed path_example 1 0 0 0 \<lparr>sch_deliver = \<lambda>n. True, sch_taken = \<lambda>n. True\<rparr> =
     ([intToIP 0x01020304], curs, None)"
  using stream_targets_exact [OF fs_closed_scan, of 1 "\<lparr>sch_deliver = \<lambda>n. True, sch_taken = \<lambda>n. True\<rparr>" 0 0 0]
  unfolding targets_example by (auto simp: stored_def rec_example_def)

end
