(* ===== verification/Go_Json.thy ===== *)
theory Go_Json
  imports Go_Strings Model_Record
begin

text \<open>
  \<open>encoding/json\<close> as far as the sources use it: strings with the HTML-safe escapes that
  \<open>json.Encoder\<close> applies by default, integers, and the record type of package \<open>model\<close> with
  its field tags. A string is scanned rune by rune; bytes that are not valid UTF-8 become the
  replacement character.
\<close>

section \<open>Strings\<close>

definition in_span :: "nat \<Rightarrow> nat \<Rightarrow> char \<Rightarrow> bool" where
  "in_span lo hi c \<longleftrightarrow> lo \<le> (of_char c :: nat) \<and> (of_char c :: nat) \<le> hi"

text \<open>The length of the multi-byte rune at the head of a string, 0 if it is not valid UTF-8.\<close>

definition rune_len :: "string \<Rightarrow> nat" where
  "rune_len s =
     (case s of
        a # b # cs \<Rightarrow>
          if in_span 0xC2 0xDF a then (if in_span 0x80 0xBF b then 2 else 0)
          else (case cs of
                  [] \<Rightarrow> 0
                | c # ds \<Rightarrow>
                    if \<not> in_span 0x80 0xBF c then 0
                    else if in_span 0xE0 0xE0 a \<and> in_span 0xA0 0xBF b \<or> in_span 0xE1 0xEC a \<and> in_span 0x80 0xBF b \<or>
                            in_span 0xED 0xED a \<and> in_span 0x80 0x9F b \<or> in_span 0xEE 0xEF a \<and> in_span 0x80 0xBF b
                    then 3
                    else (case ds of
                            [] \<Rightarrow> 0
                          | d # _ \<Rightarrow>
                              if in_span 0x80 0xBF d \<and>
                                 (in_span 0xF0 0xF0 a \<and> in_span 0x90 0xBF b \<or> in_span 0xF1 0xF3 a \<and> in_span 0x80 0xBF b \<or>
                                  in_span 0xF4 0xF4 a \<and> in_span 0x80 0x8F b)
                              then 4 else 0))
      | _ \<Rightarrow> 0)"

definition hex_digit :: "nat \<Rightarrow> char" where
  "hex_digit d = char_of (if d < 10 then 48 + d else 87 + d)"

text \<open>A backslash and a double quote.\<close>

definition bsl :: char where "bsl = CHR 0x5C"
definition dquote :: char where "dquote = CHR 0x22"

definition json_ascii :: "char \<Rightarrow> string" where
  "json_ascii c =
     (let n = (of_char c :: nat) in
      if c = bsl \<or> c = dquote then [bsl, c]
      else if n = 8 then [bsl, CHR ''b'']
      else if n = 12 then [bsl, CHR ''f'']
      else if n = 10 then [bsl, CHR ''n'']
      else if n = 13 then [bsl, CHR ''r'']
      else if n = 9 then [bsl, CHR ''t'']
      else if n < 32 \<or> c \<in> set ''<>&'' then bsl # ''u00'' @ [hex_digit (n div 16), hex_digit (n mod 16)]
      else [c])"

function json_chars :: "string \<Rightarrow> string" where
  "json_chars [] = []"
| "json_chars (c # cs) =
     (if (of_char c :: nat) < 128 then json_ascii c @ json_chars cs
      else if rune_len (c # cs) = 0 then bsl # ''ufffd'' @ json_chars cs
      else let k = rune_len (c # cs); r = take k (c # cs) in
        (if r = [CHR 0xE2, CHR 0x80, CHR 0xA8] then bsl # ''u2028''
         else if r = [CHR 0xE2, CHR 0x80, CHR 0xA9] then bsl # ''u2029''
         else r) @ json_chars (drop k (c # cs)))"
  by pat_completeness auto
termination
  by (relation "measure length") (auto simp: diff_less_Suc less_Suc_eq_le)

definition json_string :: "string \<Rightarrow> string" where
  "json_string s = dquote # json_chars s @ [dquote]"

section \<open>Records\<close>

definition show_int :: "int \<Rightarrow> string" where
  "show_int i = (if i < 0 then CHR ''-'' # show_nat (nat (- i)) else show_nat (nat i))"

definition json_field :: "string \<Rightarrow> string \<Rightarrow> string" where
  "json_field key val = json_string key @ '':'' @ val"

text \<open>The fields of a record in order; those tagged \<open>omitempty\<close> are left out when empty.\<close>

definition json_fields :: "Record \<Rightarrow> string list" where
  "json_fields r =
     [json_field ''ip'' (json_string (r_IP r)),
      json_field ''ip_int'' (show_nat (unat (r_IPInt r))),
      json_field ''status'' (json_string (r_Status r))] @
     (if r_PTR r = [] then [] else [json_field ''ptr'' (''['' @ go_join (map json_string (r_PTR r)) '','' @ '']'')]) @
     (case r_FCrDNS r of None \<Rightarrow> [] | Some b \<Rightarrow> [json_field ''fcrdns_match'' (if b then ''true'' else ''false'')]) @
     [json_field ''resolver'' (json_string (r_Resolver r)),
      json_field ''attempts'' (show_int (r_Attempts r)),
      json_field ''latency_ms'' (show_int (r_LatencyMs r))] @
     (if r_Rcode r = [] then [] else [json_field ''rcode'' (json_string (r_Rcode r))]) @
     (if r_Error r = [] then [] else [json_field ''error'' (json_string (r_Error r))]) @
     [json_field ''ts'' (json_string (r_TS r))]"

definition json_record :: "Record \<Rightarrow> string" where
  "json_record r = ''{'' @ go_join (json_fields r) '','' @ ''}''"

section \<open>An encoded record is one line\<close>

definition newline :: char where "newline = CHR 0x0A"

lemma of_char_newline: "(of_char c :: nat) \<noteq> 10 \<Longrightarrow> c \<noteq> newline"
  by (auto simp: newline_def)

lemma hex_digit_line: "d < 16 \<Longrightarrow> hex_digit d \<noteq> newline"
  unfolding hex_digit_def by (rule of_char_newline, subst of_char_char_of_small) auto

lemma json_ascii_line:
  assumes "(of_char c :: nat) < 128"
  shows "newline \<notin> set (json_ascii c)"
proof -
  have "c = newline \<Longrightarrow> (of_char c :: nat) = 10" by (simp add: newline_def)
  moreover have "hex_digit (of_char c div 16) \<noteq> newline" "hex_digit (of_char c mod 16) \<noteq> newline"
    using assms by (auto intro!: hex_digit_line)
  ultimately show ?thesis
    by (auto simp: json_ascii_def Let_def bsl_def newline_def dquote_def)
qed

lemma in_span_high: "in_span lo hi c \<Longrightarrow> 128 \<le> lo \<Longrightarrow> 128 \<le> (of_char c :: nat)"
  by (simp add: in_span_def)

lemma rune_bytes: "list_all (\<lambda>c. 128 \<le> (of_char c :: nat)) (take (rune_len s) s)"
proof -
  have *: "128 \<le> (of_char c :: nat)" if "in_span lo hi c" "128 \<le> lo" for lo hi c using in_span_high that .
  show ?thesis
  proof (cases s rule: remdups_adj.cases)
    case (3 a b cs)
    show ?thesis
    proof (cases "in_span 0xC2 0xDF a")
      case True
      then show ?thesis using 3 * [OF True] * [of 128 "0xBF" b] by (simp add: rune_len_def)
    next
      case two: False
      show ?thesis
      proof (cases cs)
        case (Cons c ds)
        show ?thesis
          using 3 two Cons * [of 128 "0xBF" b] * [of "0xA0" "0xBF" b] * [of 128 "0x9F" b] * [of "0x90" "0xBF" b] * [of 128 "0x8F" b]
            * [of _ _ a] * [of 128 "0xBF" c] * [of 128 "0xBF"]
          by (cases ds) (auto simp: rune_len_def)
      qed (use 3 two in \<open>simp add: rune_len_def\<close>)
    qed
  qed (simp_all add: rune_len_def)
qed

lemma rune_line: "newline \<notin> set (take (rune_len s) s)"
  using rune_bytes [of s] by (auto simp: list_all_iff newline_def)

lemma json_chars_line: "newline \<notin> set (json_chars s)"
proof (induction s rule: json_chars.induct)
  case (2 c cs)
  consider "(of_char c :: nat) < 128" | "\<not> (of_char c :: nat) < 128" "rune_len (c # cs) = 0"
    | "\<not> (of_char c :: nat) < 128" "rune_len (c # cs) \<noteq> 0" by blast
  then show ?case
  proof cases
    case 1
    then show ?thesis using "2.IH"(1) json_ascii_line by simp
  next
    case x: 2
    then show ?thesis using "2.IH"(2) by (simp add: bsl_def newline_def)
  next
    case 3
    have "newline \<notin> set (json_chars (drop (rune_len (c # cs)) (c # cs)))" using "2.IH"(3) 3 by simp
    then show ?thesis
      using 3 rune_line [of "c # cs"] by (simp add: Let_def del: take_Cons' drop_Cons') (auto simp: bsl_def newline_def)
  qed
qed simp

lemma go_join_line: "(\<And>x. x \<in> set xs \<Longrightarrow> c \<notin> set x) \<Longrightarrow> c \<notin> set sep \<Longrightarrow> c \<notin> set (go_join xs sep)"
  by (induction xs sep rule: go_join.induct) auto

lemma show_nat_line: "newline \<notin> set (show_nat n)"
  using show_nat_digits by (force simp: newline_def)

lemma show_int_line: "newline \<notin> set (show_int i)"
  using show_nat_line by (simp add: show_int_def newline_def)

lemma json_string_line: "newline \<notin> set (json_string s)"
  using json_chars_line by (simp add: json_string_def newline_def dquote_def)

lemma json_field_line: "newline \<notin> set val \<Longrightarrow> newline \<notin> set (json_field key val)"
  using json_string_line by (simp add: json_field_def newline_def)

lemma json_record_line: "newline \<notin> set (json_record r)"
proof -
  have p: "newline \<notin> set (''['' @ go_join (map json_string ns) '','' @ '']'')" for ns
    using go_join_line [of "map json_string ns" newline "'',''"] json_string_line by (auto simp: newline_def)
  have tf: "newline \<notin> set ''true''" "newline \<notin> set ''false''" by (simp_all add: newline_def)
  have "newline \<notin> set x" if "x \<in> set (json_fields r)" for x
    using that json_field_line [OF json_string_line] json_field_line [OF show_nat_line] json_field_line [OF show_int_line]
      json_field_line [OF p] json_field_line [OF tf(1)] json_field_line [OF tf(2)]
    by (auto simp: json_fields_def split: if_splits option.splits)
  then show ?thesis using go_join_line [of "json_fields r" newline "'',''"] by (simp add: json_record_def newline_def)
qed

end
