(* ===== verification/Output_Writer.thy ===== *)
theory Output_Writer
  imports Go_Json Store_File
begin

text \<open>
  The JSONL backend (\<^verbatim>\<open>src/internal/output/output.go\<close>): one JSON object per line, and the same
  statistics as the compact store. It interprets the sink contract a second time, and the two
  backends report the same figures for the same records.
\<close>

section \<open>Definitions\<close>

definition maxSamples :: nat where "maxSamples = 20"

text \<open>The counters are 64-bit \<open>int\<close>, kept as words (reports read them as unsigned, which agrees below \<open>2 ^ 63\<close>); \<open>ow_file\<close> is what the file holds, \<open>ow_bw\<close> what is buffered.\<close>

record out_Writer =
  ow_file :: bytes
  ow_bw :: bytes
  ow_Path :: string
  ow_Start :: u64
  ow_Total :: u64
  ow_byCode :: "u64 list"
  ow_FCChecked :: u64
  ow_FCMatch :: u64
  ow_tldCounts :: counter
  ow_samples :: "Record list"

definition output_New :: "fs \<Rightarrow> string \<Rightarrow> u64 \<Rightarrow> go_error + (fs \<times> out_Writer)" where
  "output_New fs path now =
     (case os_create fs path of
        Inl e \<Rightarrow> Inl e
      | Inr fs' \<Rightarrow>
          Inr (fs', \<lparr>ow_file = [], ow_bw = [], ow_Path = path, ow_Start = now, ow_Total = 0,
                     ow_byCode = replicate NumStatusCodes 0, ow_FCChecked = 0, ow_FCMatch = 0,
                     ow_tldCounts = [], ow_samples = []\<rparr>))"

definition output_tldOf :: "env \<Rightarrow> string \<Rightarrow> string" where
  "output_tldOf E host =
     (let host = trim_suffix (to_lower E host) ''.'' in
      case last_index host (CHR ''.'') of
        None \<Rightarrow> ''(none)''
      | Some i \<Rightarrow> if i = length host - 1 then ''(none)'' else drop (i + 1) host)"

definition output_topN :: "counter \<Rightarrow> nat \<Rightarrow> counter" where
  "output_topN m n =
     (let items = sort_key (\<lambda>kv. (- int (snd kv), fst kv)) m in if n < length items then take n items else items)"

definition output_write :: "env \<Rightarrow> Record \<Rightarrow> out_Writer \<Rightarrow> out_Writer" where
  "output_write E rec w =
     (let fb = bufio_write 1048576 (ow_file w, ow_bw w) (bytes_of (json_record rec @ [newline]));
          c = unat (Code (r_Status rec));
          w = w\<lparr>ow_file := fst fb, ow_bw := snd fb, ow_Total := ow_Total w + 1,
                ow_byCode := (ow_byCode w)[c := ow_byCode w ! c + 1]\<rparr>;
          w = (if HasPTR (r_Status rec) then
                 w\<lparr>ow_samples := (if length (ow_samples w) < maxSamples then ow_samples w @ [rec] else ow_samples w),
                   ow_tldCounts := fold (\<lambda>n. bump (output_tldOf E n)) (r_PTR rec) (ow_tldCounts w)\<rparr>
               else w)
      in case r_FCrDNS rec of None \<Rightarrow> w
         | Some m \<Rightarrow> w\<lparr>ow_FCChecked := ow_FCChecked w + 1,
                       ow_FCMatch := (if m then ow_FCMatch w + 1 else ow_FCMatch w)\<rparr>)"

definition output_Consume :: "env \<Rightarrow> Record list \<Rightarrow> out_Writer \<Rightarrow> out_Writer" where
  "output_Consume E recs w = fold (output_write E) recs w"

definition output_Close :: "out_Writer \<Rightarrow> fs \<Rightarrow> fs" where
  "output_Close w fs = fs_write fs (ow_Path w) (fst (bufio_flush (ow_file w, ow_bw w)))"

section \<open>The sink contract\<close>

lemma output_write_stats:
  "ow_Total (output_write E r w) = ow_Total w + 1"
  "ow_byCode (output_write E r w) = (ow_byCode w)[unat (Code (r_Status r)) := ow_byCode w ! unat (Code (r_Status r)) + 1]"
  "ow_FCChecked (output_write E r w) = ow_FCChecked w + (if r_FCrDNS r = None then 0 else 1)"
  "ow_FCMatch (output_write E r w) = ow_FCMatch w + (if r_FCrDNS r = Some True then 1 else 0)"
  "ow_Path (output_write E r w) = ow_Path w"
  by (simp_all add: output_write_def Let_def split: option.splits)

interpretation jsonl: sink "output_write E" ow_Total ow_byCode ow_FCChecked ow_FCMatch for E
  by unfold_locales (simp_all add: output_write_stats)

lemma output_write_tld:
  "ow_tldCounts (output_write E r w) =
     (if HasPTR (r_Status r) then fold (\<lambda>n. bump (tldOf E n)) (r_PTR r) (ow_tldCounts w) else ow_tldCounts w)"
proof -
  have "output_tldOf E = tldOf E" by (simp add: fun_eq_iff output_tldOf_def tldOf_def)
  then show ?thesis by (simp add: output_write_def Let_def split: option.splits)
qed

lemma output_write_samples:
  "ow_samples (output_write E r w) =
     (if HasPTR (r_Status r) \<and> length (ow_samples w) < maxSamples then ow_samples w @ [r] else ow_samples w)"
  by (simp add: output_write_def Let_def split: option.splits)

lemma output_write_out:
  "ow_file (output_write E r w) @ ow_bw (output_write E r w) = ow_file w @ ow_bw w @ bytes_of (json_record r @ [newline])"
proof -
  obtain f b where fb: "bufio_write 1048576 (ow_file w, ow_bw w) (bytes_of (json_record r @ [newline])) = (f, b)" by fastforce
  have "ow_file (output_write E r w) = f" "ow_bw (output_write E r w) = b"
    using fb by (simp_all add: output_write_def Let_def del: bufio_write.simps split: option.splits)
  then show ?thesis using bufio_write_content [OF fb] by simp
qed

section \<open>The file\<close>

definition json_lines :: "Record list \<Rightarrow> string" where
  "json_lines recs = concat (map (\<lambda>r. json_record r @ [newline]) recs)"

lemma output_Consume_out:
  "ow_file (output_Consume E recs w) @ ow_bw (output_Consume E recs w) = ow_file w @ ow_bw w @ bytes_of (json_lines recs)"
proof (induction recs arbitrary: w)
  case (Cons r recs)
  have "output_Consume E (r # recs) w = output_Consume E recs (output_write E r w)" by (simp add: output_Consume_def)
  then show ?case
    using Cons.IH [of "output_write E r w"] output_write_out [of E r w] by (simp add: json_lines_def bytes_of_def)
qed (simp add: output_Consume_def json_lines_def bytes_of_def)

lemma output_Consume_Path: "ow_Path (output_Consume E recs w) = ow_Path w"
  unfolding output_Consume_def by (induction recs arbitrary: w) (simp_all add: output_write_stats)

lemma split_line: "c \<notin> set x \<Longrightarrow> split_byte c (x @ c # ys) = x # split_byte c ys"
  by (induction x) auto

lemma split_json_lines: "split_byte newline (json_lines recs) = map json_record recs @ [[]]"
  by (induction recs) (simp_all add: json_lines_def split_line json_record_line)

lemma samples_fold:
  "ow_samples (output_Consume E recs w) =
     ow_samples w @ take (maxSamples - length (ow_samples w)) (filter (\<lambda>r. HasPTR (r_Status r)) recs)"
proof (induction recs arbitrary: w)
  case (Cons r recs)
  have "output_Consume E (r # recs) w = output_Consume E recs (output_write E r w)" by (simp add: output_Consume_def)
  moreover have "maxSamples - length (ow_samples w) = Suc (maxSamples - Suc (length (ow_samples w)))" if "length (ow_samples w) < maxSamples"
    using that by simp
  ultimately show ?case
    using Cons.IH [of "output_write E r w"]
    by (cases "length (ow_samples w) < maxSamples") (simp_all add: output_write_samples)
qed (simp add: output_Consume_def)

lemma tld_fold:
  "ow_tldCounts (output_Consume E recs w) =
     fold (\<lambda>r m. if HasPTR (r_Status r) then fold (\<lambda>n. bump (tldOf E n)) (r_PTR r) m else m) recs (ow_tldCounts w)"
  unfolding output_Consume_def by (induction recs arbitrary: w) (simp_all add: output_write_tld)

lemma store_tld_fold:
  "w_tldCounts (Consume E recs w) =
     fold (\<lambda>r m. if HasPTR (r_Status r) then fold (\<lambda>n. bump (tldOf E n)) (r_PTR r) m else m) recs (w_tldCounts w)"
proof -
  have "w_tldCounts (add E r w) = (if HasPTR (r_Status r) then fold (\<lambda>n. bump (tldOf E n)) (r_PTR r) (w_tldCounts w) else w_tldCounts w)" for r w
    by (simp add: add_def Let_def flushBlock_simps count_rec_def split: option.splits)
  then show ?thesis unfolding Consume_def by (induction recs arbitrary: w) simp_all
qed

section \<open>Properties\<close>

text \<open>
  C31. The JSONL file has one line per record. A file that the backend created, filled and closed
  splits at its newlines into exactly the JSON objects of the records, in the order in which
  they came, whatever bytes the names contain; and the samples of the summary are the first
  twenty records with names.
\<close>
theorem jsonl_lines:
  assumes "output_New fs path now = Inr (fs1, w)"
  shows "\<exists>bs. fs_read (output_Close (output_Consume E recs w) fs1) path = Some bs \<and>
     split_byte newline (string_of bs) = map json_record recs @ [[]] \<and>
     ow_samples (output_Consume E recs w) = take maxSamples (filter (\<lambda>r. HasPTR (r_Status r)) recs)"
proof -
  have w: "ow_file w = []" "ow_bw w = []" "ow_Path w = path" "ow_samples w = []"
    using assms by (auto simp: output_New_def split: sum.splits)
  have "ow_file (output_Consume E recs w) @ ow_bw (output_Consume E recs w) = bytes_of (json_lines recs)"
    using output_Consume_out [of E recs w] w by simp
  then have "fs_read (output_Close (output_Consume E recs w) fs1) path = Some (bytes_of (json_lines recs))"
    using output_Consume_Path [of E recs w] w(3) by (simp add: output_Close_def bufio_flush_def fs_read_write)
  then show ?thesis using split_json_lines samples_fold [of E recs w] w(4) by simp
qed

text \<open>
  The two backends agree. Fresh writers of either kind that drain the same results channel
  report the same totals, the same count of every status, the same forward-confirmation
  figures and the same TLD histogram.
\<close>
lemma sinks_agree:
  assumes "output_New fs path now = Inr (fs1, w)" and "NewWriter fs' path' shards sid now' = Inr (fs2, v)"
  shows "ow_Total (output_Consume E recs w) = w_Total (Consume E recs v) \<and>
     (\<forall>k<8. ow_byCode (output_Consume E recs w) ! k = w_counts (Consume E recs v) ! k) \<and>
     ow_FCChecked (output_Consume E recs w) = w_FCChecked (Consume E recs v) \<and>
     ow_FCMatch (output_Consume E recs w) = w_FCMatch (Consume E recs v) \<and>
     ow_tldCounts (output_Consume E recs w) = w_tldCounts (Consume E recs v)"
proof -
  have w: "ow_Total w = 0" "ow_byCode w = replicate 8 0" "ow_FCChecked w = 0" "ow_FCMatch w = 0" "ow_tldCounts w = []"
    using assms(1) by (auto simp: output_New_def NumStatusCodes_def split: sum.splits)
  have v: "w_Total v = 0" "w_counts v = replicate 8 0" "w_FCChecked v = 0" "w_FCMatch v = 0" "w_tldCounts v = []"
    using assms(2) by (auto simp: NewWriter_def newWriter_def NumStatusCodes_def Let_def split: sum.splits)
  have "ow_byCode (output_Consume E recs w) ! k = w_counts (Consume E recs v) ! k" if "k < 8" for k
    using jsonl.by_code_fold [of w k E recs] store_sink.by_code_fold [of v k E recs] w(2) v(2) that
    by (simp add: output_Consume_def Consume_def)
  then show ?thesis
    using jsonl.total_fold [of E recs w] store_sink.total_fold [of E recs v] jsonl.fc_fold [of E recs w] store_sink.fc_fold [of E recs v] w v
    by (simp add: tld_fold store_tld_fold) (simp add: output_Consume_def Consume_def)
qed

section \<open>Witnesses\<close>

lemma output_New_example: "\<exists>fs1 w. output_New fs_example ''d/x.jsonl'' 5 = Inr (fs1, w)"
  by (simp add: output_New_def os_create_def fs_example_def is_dir_def path_dir_def)

theorem jsonl_lines_witness:
  "\<exists>fs1 w bs. output_New fs_example ''d/x.jsonl'' 5 = Inr (fs1, w) \<and>
     fs_read (output_Close (output_Consume test_env [rec_example, rec_example] w) fs1) ''d/x.jsonl'' = Some bs \<and>
     length (split_byte newline (string_of bs)) = 3"
proof -
  obtain fs1 w where w: "output_New fs_example ''d/x.jsonl'' 5 = Inr (fs1, w)" using output_New_example by blast
  show ?thesis using jsonl_lines [OF w, of test_env "[rec_example, rec_example]"] w by auto
qed

lemma sinks_agree_instance:
  "\<exists>fs1 w fs2. output_New fs_example ''d/x.jsonl'' 5 = Inr (fs1, w) \<and>
     ow_Total (output_Consume test_env [rec_example] w) = w_Total (Consume test_env [rec_example] w_example)"
proof -
  obtain fs1 w where w: "output_New fs_example ''d/x.jsonl'' 5 = Inr (fs1, w)" using output_New_example by blast
  obtain fs2 where v: "NewWriter fs_example path_example 4 1 99 = Inr (fs2, w_example)" using NewWriter_example by blast
  show ?thesis using sinks_agree [OF w v, of test_env "[rec_example]"] w by auto
qed

end
