(* ===== verification/Resolver.thy ===== *)
theory Resolver
  imports Model_Record Go_Net
begin

unbundle bit_operations_syntax

text \<open>
  The lookup client (\<^verbatim>\<open>src/internal/resolver/resolver.go\<close>): a rotating pool of servers, one
  question asked with retries, and the classification of what came back. The DNS package is
  the parameter \<open>dns_lib\<close>; its exchange takes the running number of the exchange, so that the
  same question may be answered differently each time. Other goroutines share the rotation
  counter: \<open>oth n\<close> is how often they advanced it before this goroutine's exchange \<open>n\<close>.
\<close>

section \<open>The DNS package\<close>

datatype dns_rr = RR_PTR string | RR_A bytes | RR_other

record dns_msg =
  m_Rcode :: int
  m_Answer :: "dns_rr list"

text \<open>
  A transport error: whether \<open>errors.Is\<close> finds a deadline error in it, whether it is a
  \<open>net.Error\<close> that says \<open>Timeout\<close>, and its text.
\<close>

record net_err =
  ne_Deadline :: bool
  ne_Timeout :: bool
  ne_Error :: string

record dns_lib =
  dl_RcodeSuccess :: int
  dl_RcodeServerFailure :: int
  dl_RcodeNameError :: int
  dl_RcodeNotImplemented :: int
  dl_RcodeRefused :: int
  dl_RcodeToString :: "int \<Rightarrow> string"
  dl_TypePTR :: u16
  dl_TypeA :: u16
  dl_ReverseAddr :: "string \<Rightarrow> string + string"
  dl_Fqdn :: "string \<Rightarrow> string"
  dl_Exchange :: "nat \<Rightarrow> string \<Rightarrow> u16 \<Rightarrow> string \<Rightarrow> net_err + dns_msg"

text \<open>The response codes are different constants.\<close>

definition rcodes_distinct :: "dns_lib \<Rightarrow> bool" where
  "rcodes_distinct D \<longleftrightarrow> distinct [dl_RcodeSuccess D, dl_RcodeServerFailure D, dl_RcodeNameError D,
     dl_RcodeNotImplemented D, dl_RcodeRefused D]"

fun go_contains :: "string \<Rightarrow> string \<Rightarrow> bool" where
  "go_contains [] sub = (sub = [])"
| "go_contains (c # cs) sub = (prefix sub (c # cs) \<or> go_contains cs sub)"

section \<open>The resolver\<close>

definition DefaultResolvers :: "string list" where
  "DefaultResolvers =
     [''1.1.1.1:53'', ''1.0.0.1:53'', ''8.8.8.8:53'', ''8.8.4.4:53'', ''9.9.9.9:53'',
      ''149.112.112.112:53'', ''208.67.222.222:53'', ''208.67.220.220:53'']"

text \<open>\<open>pt_Latency\<close> is in nanoseconds; \<open>pt_Err\<close> is the text of the error.\<close>

record PTRResult =
  pt_Names :: "string list"
  pt_Resolver :: string
  pt_Attempts :: int
  pt_Latency :: int
  pt_Status :: string
  pt_Rcode :: string
  pt_Err :: "string option"

record Resolver =
  rv_servers :: "string list"
  rv_timeout :: int
  rv_retries :: int
  rv_counter :: u64

fun norm_servers :: "string list \<Rightarrow> string list" where
  "norm_servers [] = []"
| "norm_servers (s # ss) =
     (let s = trim_space s in
      if s = [] then norm_servers ss
      else (if CHR '':'' \<notin> set s then s @ '':53'' else s) # norm_servers ss)"

definition resolver_New :: "string list \<Rightarrow> int \<Rightarrow> int \<Rightarrow> go_error + Resolver" where
  "resolver_New servers timeout retries =
     (let norm = norm_servers servers in
      if norm = [] then Inl (ErrMsg ''no resolvers configured'')
      else Inr \<lparr>rv_servers = norm, rv_timeout = timeout,
                rv_retries = (if retries < 0 then 0 else retries), rv_counter = 0\<rparr>)"

definition pick :: "int \<Rightarrow> Resolver \<Rightarrow> go_error + (string \<times> Resolver)" where
  "pick offset r =
     (let r = r\<lparr>rv_counter := rv_counter r + 1\<rparr>; i = rv_counter r in
      if rv_servers r = [] then Inl EPanic
      else Inr (rv_servers r ! (unat (i + of_int offset) mod length (rv_servers r)), r))"

text \<open>
  The retry loop from attempt \<open>a\<close> on, with \<open>left\<close> attempts still allowed: the last soft failure
  and the last error so far, and the server of the attempt before.
\<close>

fun query_loop ::
  "dns_lib \<Rightarrow> (nat \<Rightarrow> u64) \<Rightarrow> string \<Rightarrow> u16 \<Rightarrow> nat \<Rightarrow> nat \<Rightarrow> dns_msg option \<Rightarrow> net_err option \<Rightarrow> string \<Rightarrow>
   Resolver \<Rightarrow> nat \<Rightarrow> go_error + ((dns_msg option \<times> string \<times> nat \<times> net_err option) \<times> Resolver \<times> nat)" where
  "query_loop D oth name qtype 0 a lastResp lastErr server r n =
     Inr ((case lastResp of Some resp \<Rightarrow> (Some resp, server, a, None)
                          | None \<Rightarrow> (None, server, a, lastErr)), r, n)"
| "query_loop D oth name qtype (Suc left) a lastResp lastErr server r n =
     (case pick (int a) (r\<lparr>rv_counter := rv_counter r + oth n\<rparr>) of
        Inl e \<Rightarrow> Inl e
      | Inr (server, r) \<Rightarrow>
          (case dl_Exchange D n name qtype server of
             Inl err \<Rightarrow> query_loop D oth name qtype left (a + 1) lastResp (Some err) server r (n + 1)
           | Inr resp \<Rightarrow>
               if m_Rcode resp = dl_RcodeSuccess D \<or> m_Rcode resp = dl_RcodeNameError D
               then Inr ((Some resp, server, a + 1, None), r, n + 1)
               else query_loop D oth name qtype left (a + 1) (Some resp)
                      (Some \<lparr>ne_Deadline = False, ne_Timeout = False,
                             ne_Error = ''rcode='' @ dl_RcodeToString D (m_Rcode resp)\<rparr>) server r (n + 1)))"

definition query ::
  "dns_lib \<Rightarrow> (nat \<Rightarrow> u64) \<Rightarrow> string \<Rightarrow> u16 \<Rightarrow> Resolver \<Rightarrow> nat \<Rightarrow>
   go_error + ((dns_msg option \<times> string \<times> nat \<times> net_err option) \<times> Resolver \<times> nat)" where
  "query D oth name qtype r n = query_loop D oth name qtype (nat (rv_retries r + 1)) 0 None None [] r n"

definition classifyErr :: "net_err \<Rightarrow> string" where
  "classifyErr err =
     (if ne_Deadline err then StatusTimeout
      else if ne_Timeout err then StatusTimeout
      else if go_contains (ne_Error err) ''timeout'' \<or> go_contains (ne_Error err) ''i/o timeout''
      then StatusTimeout
      else StatusNetError)"

definition ptr_names :: "dns_rr list \<Rightarrow> string list" where
  "ptr_names ans = concat (map (\<lambda>rr. case rr of RR_PTR p \<Rightarrow> [trim_suffix p ''.''] | _ \<Rightarrow> []) ans)"

definition LookupPTR ::
  "dns_lib \<Rightarrow> (nat \<Rightarrow> u64) \<Rightarrow> int \<Rightarrow> string \<Rightarrow> Resolver \<Rightarrow> nat \<Rightarrow> go_error + (PTRResult \<times> Resolver \<times> nat)" where
  "LookupPTR D oth latency ip r n =
     (case dl_ReverseAddr D ip of
        Inl err \<Rightarrow> Inr (\<lparr>pt_Names = [], pt_Resolver = [], pt_Attempts = 0, pt_Latency = latency,
                          pt_Status = StatusNetError, pt_Rcode = [], pt_Err = Some err\<rparr>, r, n)
      | Inr arpa \<Rightarrow>
          (case query D oth arpa (dl_TypePTR D) r n of
             Inl e \<Rightarrow> Inl e
           | Inr ((resp, server, attempts, err), r, n) \<Rightarrow>
               let res = \<lparr>pt_Names = [], pt_Resolver = server, pt_Attempts = int attempts, pt_Latency = latency,
                          pt_Status = [], pt_Rcode = [], pt_Err = None\<rparr> in
               (case err of
                  Some err \<Rightarrow> Inr (res\<lparr>pt_Status := classifyErr err, pt_Err := Some (ne_Error err)\<rparr>, r, n)
                | None \<Rightarrow>
                    (case resp of
                       None \<Rightarrow> Inl EPanic
                     | Some resp \<Rightarrow>
                         let res = res\<lparr>pt_Rcode := dl_RcodeToString D (m_Rcode resp)\<rparr> in
                         Inr (if m_Rcode resp = dl_RcodeSuccess D then
                                (let res = res\<lparr>pt_Names := ptr_names (m_Answer resp)\<rparr> in
                                 if pt_Names res = [] then res\<lparr>pt_Status := StatusNoErrorEmpty\<rparr>
                                 else res\<lparr>pt_Status := StatusHasPTR\<rparr>)
                              else if m_Rcode resp = dl_RcodeNameError D then res\<lparr>pt_Status := StatusNXDomain\<rparr>
                              else if m_Rcode resp = dl_RcodeServerFailure D then res\<lparr>pt_Status := StatusServFail\<rparr>
                              else if m_Rcode resp = dl_RcodeRefused D \<or> m_Rcode resp = dl_RcodeNotImplemented D
                              then res\<lparr>pt_Status := StatusRefused\<rparr>
                              else res\<lparr>pt_Status := StatusNetError\<rparr>, r, n)))))"

definition a_addrs :: "dns_rr list \<Rightarrow> bytes list" where
  "a_addrs ans = concat (map (\<lambda>rr. case rr of RR_A a \<Rightarrow> [a] | _ \<Rightarrow> []) ans)"

definition LookupA ::
  "dns_lib \<Rightarrow> (nat \<Rightarrow> u64) \<Rightarrow> string \<Rightarrow> Resolver \<Rightarrow> nat \<Rightarrow>
   go_error + ((net_err + bytes list) \<times> Resolver \<times> nat)" where
  "LookupA D oth host r n =
     (case query D oth (dl_Fqdn D host) (dl_TypeA D) r n of
        Inl e \<Rightarrow> Inl e
      | Inr ((resp, server, attempts, err), r, n) \<Rightarrow>
          (case err of
             Some err \<Rightarrow> Inr (Inl err, r, n)
           | None \<Rightarrow> (case resp of None \<Rightarrow> Inl EPanic
                      | Some resp \<Rightarrow> Inr (Inr (a_addrs (m_Answer resp)), r, n))))"

section \<open>What a query returns\<close>

text \<open>
  Reference definitions: the server and the answer of attempt \<open>a\<close>, and the result of a query
  as a function of the answers of all permitted attempts.
\<close>

definition server_at :: "Resolver \<Rightarrow> (nat \<Rightarrow> u64) \<Rightarrow> nat \<Rightarrow> nat \<Rightarrow> string" where
  "server_at r oth n a = rv_servers r !
     (unat (rv_counter r + (\<Sum>j<Suc a. oth (n + j)) + of_nat (2 * a + 1)) mod length (rv_servers r))"

definition answers ::
  "dns_lib \<Rightarrow> (nat \<Rightarrow> u64) \<Rightarrow> string \<Rightarrow> u16 \<Rightarrow> Resolver \<Rightarrow> nat \<Rightarrow> nat list \<Rightarrow> (string \<times> (net_err + dns_msg)) list" where
  "answers D oth name qtype r n as =
     map (\<lambda>a. (server_at r oth n a, dl_Exchange D (n + a) name qtype (server_at r oth n a))) as"

definition definitive :: "dns_lib \<Rightarrow> net_err + dns_msg \<Rightarrow> bool" where
  "definitive D out = (case out of Inl _ \<Rightarrow> False
     | Inr resp \<Rightarrow> m_Rcode resp = dl_RcodeSuccess D \<or> m_Rcode resp = dl_RcodeNameError D)"

definition responses :: "(string \<times> (net_err + dns_msg)) list \<Rightarrow> dns_msg list" where
  "responses L = concat (map (\<lambda>x. case snd x of Inl _ \<Rightarrow> [] | Inr resp \<Rightarrow> [resp]) L)"

definition query_spec ::
  "dns_lib \<Rightarrow> (string \<times> (net_err + dns_msg)) list \<Rightarrow> dns_msg option \<times> string \<times> nat \<times> net_err option" where
  "query_spec D L =
     (case dropWhile (\<lambda>x. \<not> definitive D (snd x)) L of
        x # _ \<Rightarrow> (Some (projr (snd x)), fst x, Suc (length (takeWhile (\<lambda>x. \<not> definitive D (snd x)) L)), None)
      | [] \<Rightarrow> if responses L = [] then (None, fst (last L), length L, Some (projl (snd (last L))))
              else (Some (last (responses L)), fst (last L), length L, None))"

definition resolver_ok :: "Resolver \<Rightarrow> bool" where
  "resolver_ok r \<longleftrightarrow> rv_servers r \<noteq> [] \<and> 0 \<le> rv_retries r"

lemma New_ok: "resolver_New servers timeout retries = Inr r \<Longrightarrow> resolver_ok r"
  by (auto simp: resolver_New_def resolver_ok_def Let_def split: if_splits)

text \<open>The loop from attempt \<open>a\<close> on, with what it carries.\<close>

definition loop_spec ::
  "dns_lib \<Rightarrow> nat \<Rightarrow> dns_msg option \<Rightarrow> net_err option \<Rightarrow> string \<Rightarrow> (string \<times> (net_err + dns_msg)) list \<Rightarrow>
   dns_msg option \<times> string \<times> nat \<times> net_err option" where
  "loop_spec D a lastResp lastErr server L =
     (case dropWhile (\<lambda>x. \<not> definitive D (snd x)) L of
        x # _ \<Rightarrow> (Some (projr (snd x)), fst x, a + Suc (length (takeWhile (\<lambda>x. \<not> definitive D (snd x)) L)), None)
      | [] \<Rightarrow> let server = (if L = [] then server else fst (last L));
                  ms = (case lastResp of None \<Rightarrow> [] | Some m \<Rightarrow> [m]) @ responses L in
              if ms = [] then (None, server, a + length L, if L = [] then lastErr else Some (projl (snd (last L))))
              else (Some (last ms), server, a + length L, None))"

lemma loop_spec_Cons:
  "loop_spec D a lastResp lastErr server ((s, out) # L) =
     (if definitive D out then (Some (projr out), s, a + 1, None)
      else loop_spec D (a + 1) (case out of Inl _ \<Rightarrow> lastResp | Inr m \<Rightarrow> Some m)
             (case out of Inl e \<Rightarrow> Some e | Inr m \<Rightarrow> lastErr) s L)"
proof (cases "definitive D out")
  case False
  let ?P = "\<lambda>x. \<not> definitive D (snd x)"
  show ?thesis
  proof (cases "dropWhile ?P L")
    case Nil
    then show ?thesis
      using False by (cases out; cases L; cases lastResp) (simp_all add: loop_spec_def responses_def Let_def del: dropWhile_eq_Nil_conv)
  next
    case (Cons x xs)
    then show ?thesis using False by (simp add: loop_spec_def del: dropWhile_eq_Nil_conv)
  qed
qed (simp add: loop_spec_def)

lemma loop_spec_err:
  "lastResp \<noteq> None \<Longrightarrow> loop_spec D a lastResp e server L = loop_spec D a lastResp e' server L"
  by (auto simp: loop_spec_def Let_def split: list.splits)

text \<open>The resolver after \<open>k\<close> attempts of a query that starts with exchange \<open>n\<close>.\<close>

definition advanced :: "Resolver \<Rightarrow> (nat \<Rightarrow> u64) \<Rightarrow> nat \<Rightarrow> nat \<Rightarrow> Resolver" where
  "advanced r oth n k = r\<lparr>rv_counter := rv_counter r + (\<Sum>j<k. oth (n + j)) + of_nat k\<rparr>"

definition attempts_of :: "'a \<times> 'b \<times> nat \<times> 'c \<Rightarrow> nat" where
  "attempts_of res = fst (snd (snd res))"

lemma query_loop_spec:
  assumes "rv_servers r0 \<noteq> []"
  shows "query_loop D oth name qtype left a lastResp lastErr server (advanced r0 oth n a) (n + a) =
     (let res = loop_spec D a lastResp lastErr server (answers D oth name qtype r0 n [a..<a + left])
      in Inr (res, advanced r0 oth n (attempts_of res), n + attempts_of res))"
proof (induction left arbitrary: a lastResp lastErr server)
  case 0
  then show ?case by (simp add: loop_spec_def answers_def responses_def attempts_of_def Let_def split: option.splits)
next
  case (Suc left)
  define s where "s = server_at r0 oth n a"
  define r where "r = advanced r0 oth n a"
  have pk: "pick (int a) (r\<lparr>rv_counter := rv_counter r + oth (n + a)\<rparr>) = Inr (s, advanced r0 oth n (Suc a))"
  proof -
    have "rv_counter r + oth (n + a) + 1 + of_int (int a) =
        rv_counter r0 + (\<Sum>j<Suc a. oth (n + j)) + of_nat (2 * a + 1)"
      by (simp add: r_def advanced_def)
    then show ?thesis
      using assms unfolding pick_def Let_def s_def server_at_def by (simp add: r_def advanced_def ac_simps)
  qed
  have up: "[a..<a + Suc left] = a # [Suc a..<Suc a + left]" by (simp add: upt_rec)
  have L: "answers D oth name qtype r0 n [a..<a + Suc left] =
      (s, dl_Exchange D (n + a) name qtype s) # answers D oth name qtype r0 n [Suc a..<Suc a + left]"
    unfolding up by (simp add: answers_def s_def)
  note IH = Suc.IH [of "Suc a", simplified add_Suc_right, unfolded Let_def]
  show ?case
  proof (cases "dl_Exchange D (n + a) name qtype s")
    case (Inl e)
    then show ?thesis
      using IH [of lastResp "Some e" s] unfolding L r_def [symmetric] by (simp add: pk loop_spec_Cons definitive_def Let_def)
  next
    case (Inr m)
    show ?thesis
    proof (cases "definitive D (Inr m)")
      case True
      then show ?thesis unfolding L r_def [symmetric]
        by (simp add: pk Inr loop_spec_Cons definitive_def attempts_of_def Let_def)
    next
      case False
      define e where "e = \<lparr>ne_Deadline = False, ne_Timeout = False, ne_Error = ''rcode='' @ dl_RcodeToString D (m_Rcode m)\<rparr>"
      have "loop_spec D (a + 1) (Some m) lastErr s X = loop_spec D (a + 1) (Some m) (Some e) s X" for X
        by (rule loop_spec_err) simp
      then show ?thesis
        using False Inr IH [of "Some m" "Some e" s] unfolding L r_def [symmetric]
        by (simp add: pk loop_spec_Cons definitive_def e_def Let_def)
    qed
  qed
qed

lemma query_exact:
  assumes "resolver_ok r"
  shows "query D oth name qtype r n =
     (let res = query_spec D (answers D oth name qtype r n [0..<Suc (nat (rv_retries r))])
      in Inr (res, advanced r oth n (attempts_of res), n + attempts_of res))"
proof -
  define k where "k = Suc (nat (rv_retries r))"
  have k: "nat (rv_retries r + 1) = k" "k \<noteq> 0" using assms(1) by (auto simp: k_def resolver_ok_def)
  let ?L = "answers D oth name qtype r n [0..<k]"
  have "?L \<noteq> []" using k(2) by (simp add: answers_def)
  then have "loop_spec D 0 None None [] ?L = query_spec D ?L"
    by (cases "dropWhile (\<lambda>x. \<not> definitive D (snd x)) ?L")
      (simp_all add: loop_spec_def query_spec_def Let_def del: dropWhile_eq_Nil_conv)
  moreover have "advanced r oth n 0 = r" by (simp add: advanced_def)
  ultimately show ?thesis
    using query_loop_spec [of r D oth name qtype k 0 None None "[]" n] assms(1)
    unfolding query_def k(1) k_def [symmetric] by (simp add: resolver_ok_def Let_def)
qed

lemma advanced_simps [simp]:
  "rv_servers (advanced r oth n k) = rv_servers r" "rv_retries (advanced r oth n k) = rv_retries r"
  "resolver_ok (advanced r oth n k) = resolver_ok r"
  by (simp_all add: advanced_def resolver_ok_def)

lemma query_ok:
  assumes "resolver_ok r"
  shows "\<exists>r' n'. query D oth name qtype r n =
     Inr (query_spec D (answers D oth name qtype r n [0..<Suc (nat (rv_retries r))]), r', n') \<and>
     resolver_ok r' \<and> rv_servers r' = rv_servers r \<and> rv_retries r' = rv_retries r"
  using query_exact [OF assms] assms by (simp add: Let_def)

section \<open>Properties\<close>

lemma length_takeWhile_def: "dropWhile P L = x # xs \<Longrightarrow> Suc (length (takeWhile P L)) \<le> length L"
  by (metis length_append list.size(4) le_add1 add_Suc_right takeWhile_dropWhile_id Suc_eq_plus1 add_left_mono add.commute length_Cons)

lemma query_spec_cases:
  assumes "L \<noteq> []"
  obtains m s k where "query_spec D L = (Some m, s, k, None)" "1 \<le> k" "k \<le> length L"
  | e s where "query_spec D L = (None, s, length L, Some e)"
proof (cases "dropWhile (\<lambda>x. \<not> definitive D (snd x)) L")
  case Nil
  show ?thesis
  proof (cases "responses L = []")
    case True
    then show ?thesis using Nil that(2) by (simp add: query_spec_def del: dropWhile_eq_Nil_conv)
  next
    case False
    have "1 \<le> length L" using assms by (cases L) auto
    then show ?thesis using Nil False that(1) by (simp add: query_spec_def del: dropWhile_eq_Nil_conv)
  qed
next
  case (Cons x xs)
  show ?thesis
    by (rule that(1)) (use Cons length_takeWhile_def [OF Cons] in \<open>simp_all add: query_spec_def\<close>)
qed

lemma lookup_ptr_ok:
  assumes "resolver_ok r"
  shows "\<exists>res r' n'. LookupPTR D oth latency ip r n = Inr (res, r', n') \<and> resolver_ok r' \<and>
     pt_Status res \<in> set codeToStatus - {StatusLameDelegation} \<and>
     (HasPTR (pt_Status res) \<longleftrightarrow> pt_Names res \<noteq> []) \<and>
     (pt_Err res \<noteq> None \<longrightarrow> pt_Status res \<in> {StatusTimeout, StatusNetError} \<and> pt_Rcode res = []) \<and>
     0 \<le> pt_Attempts res \<and> pt_Attempts res \<le> rv_retries r + 1"
proof (cases "dl_ReverseAddr D ip")
  case (Inl e)
  then show ?thesis
    using assms by (auto simp: LookupPTR_def HasPTR_def codeToStatus_def status_defs resolver_ok_def)
next
  case (Inr arpa)
  define L where "L = answers D oth arpa (dl_TypePTR D) r n [0..<Suc (nat (rv_retries r))]"
  have len: "L \<noteq> []" "int (length L) = rv_retries r + 1"
    using assms by (simp_all add: L_def answers_def resolver_ok_def del: upt_Suc)
  obtain r' n' where q: "query D oth arpa (dl_TypePTR D) r n = Inr (query_spec D L, r', n')" "resolver_ok r'"
    using query_ok [OF assms] L_def by metis
  have cls: "classifyErr e \<in> {StatusTimeout, StatusNetError}" for e by (simp add: classifyErr_def)
  show ?thesis
    using len(1)
  proof (cases rule: query_spec_cases [of L D])
    case (1 m s k)
    then show ?thesis
      using Inr q len(2) by (simp add: LookupPTR_def Let_def HasPTR_def codeToStatus_def status_defs)
  next
    case (2 e s)
    then show ?thesis
      using Inr q len(2) cls [of e] by (auto simp: LookupPTR_def Let_def HasPTR_def codeToStatus_def status_defs)
  qed
qed

text \<open>
  C25. A query is answered by its first definitive response. For every behaviour of the servers and
  every interference of other lookups with the rotation, the result is a function of the answers
  of the permitted attempts: the first NOERROR or NXDOMAIN response with its server and attempt
  number; failing that the last response of any kind; failing that the last transport error.
\<close>
theorem query_first_definitive:
  assumes "resolver_ok r"
  shows "\<exists>r' n'. query D oth name qtype r n =
     Inr (query_spec D (answers D oth name qtype r n [0..<Suc (nat (rv_retries r))]), r', n') \<and>
     resolver_ok r' \<and> rv_servers r' = rv_servers r"
  using query_ok [OF assms] by blast

text \<open>
  C26. A reverse lookup returns a well-formed result and never panics: the status is one of the
  taxonomy (never \<open>lame_delegation\<close>, which a recursive resolver cannot tell), there are names
  exactly with status \<open>has_ptr\<close>, an error goes with \<open>timeout\<close> or \<open>net_error\<close> and no rcode, and
  the number of attempts is at most one more than the retries.
\<close>
theorem lookup_ptr_wellformed:
  assumes "resolver_ok r"
  shows "\<exists>res r' n'. LookupPTR D oth latency ip r n = Inr (res, r', n') \<and> resolver_ok r' \<and>
     pt_Status res \<in> set codeToStatus - {StatusLameDelegation} \<and>
     (HasPTR (pt_Status res) \<longleftrightarrow> pt_Names res \<noteq> []) \<and>
     (pt_Err res \<noteq> None \<longrightarrow> pt_Status res \<in> {StatusTimeout, StatusNetError} \<and> pt_Rcode res = []) \<and>
     0 \<le> pt_Attempts res \<and> pt_Attempts res \<le> rv_retries r + 1"
  using assms by (rule lookup_ptr_ok)

lemma unat_mod_2: "unat (w :: u64) mod 2 = (if odd w then 1 else 0)"
proof -
  have "bit (unat w) 0 \<longleftrightarrow> bit w 0" by (simp only: bit_unsigned_iff) simp
  then show ?thesis by (simp add: bit_0 mod2_eq_if)
qed

text \<open>
  With a pool of two servers the retries of one lookup, undisturbed by others, all go to the
  server of its first attempt: the rotation step and the retry offset add up to two. When that
  server does not answer, the query fails after all its attempts, whatever the other server
  would have answered.
\<close>
lemma two_servers_never_rotate:
  assumes ok: "resolver_ok r" and two: "length (rv_servers r) = 2"
    and s: "s = rv_servers r ! (unat (rv_counter r + 1) mod 2)"
    and dead: "\<forall>k. \<exists>e. dl_Exchange D k name qtype s = Inl e"
  shows "\<exists>e r' n'. query D (\<lambda>_. 0) name qtype r n = Inr ((None, s, Suc (nat (rv_retries r)), Some e), r', n')"
proof -
  define L where "L = answers D (\<lambda>_. 0) name qtype r n [0..<Suc (nat (rv_retries r))]"
  have par: "unat (rv_counter r + of_nat (2 * a + 1)) mod 2 = unat (rv_counter r + 1) mod 2" for a
    by (simp add: unat_mod_2)
  then have srv: "server_at r (\<lambda>_. 0) n a = s" for a
    using par [of a] two s by (simp add: server_at_def)
  have all: "fst x = s \<and> (\<exists>e. snd x = Inl e)" if "x \<in> set L" for x
    using that dead by (auto simp: L_def answers_def srv simp del: upt_Suc)
  have ne: "L \<noteq> []" "length L = Suc (nat (rv_retries r))" by (simp_all add: L_def answers_def del: upt_Suc)
  have "dropWhile (\<lambda>x. \<not> definitive D (snd x)) L = []" "responses L = []"
    using all by (fastforce simp: definitive_def responses_def)+
  then have "query_spec D L = (None, s, Suc (nat (rv_retries r)), Some (projl (snd (last L))))"
    using all [of "last L"] ne by (simp add: query_spec_def del: dropWhile_eq_Nil_conv)
  then show ?thesis using query_ok [OF ok, of D "\<lambda>_. 0" name qtype n] by (auto simp: L_def)
qed

section \<open>Witnesses\<close>

text \<open>
  A DNS package for the concrete instances: reverse names are the addresses themselves, and the
  server \<open>a:53\<close> times out, \<open>b:53\<close> fails, every other one answers.
\<close>

definition dns_example :: dns_lib where
  "dns_example = \<lparr>dl_RcodeSuccess = 0, dl_RcodeServerFailure = 2, dl_RcodeNameError = 3, dl_RcodeNotImplemented = 4,
     dl_RcodeRefused = 5, dl_RcodeToString = (\<lambda>c. if c = 0 then ''NOERROR'' else ''SERVFAIL''),
     dl_TypePTR = 12, dl_TypeA = 1, dl_ReverseAddr = Inr, dl_Fqdn = (\<lambda>h. h @ ''.''),
     dl_Exchange = (\<lambda>n name qtype server.
       if server = ''a:53'' then Inl \<lparr>ne_Deadline = True, ne_Timeout = True, ne_Error = ''i/o timeout''\<rparr>
       else if server = ''b:53'' then Inr \<lparr>m_Rcode = 2, m_Answer = []\<rparr>
       else Inr \<lparr>m_Rcode = 0, m_Answer = [if qtype = 12 then RR_PTR ''h.example.'' else RR_A [1, 2, 3, 4]]\<rparr>)\<rparr>"

definition resolver_example :: "string list \<Rightarrow> Resolver" where
  "resolver_example servers = \<lparr>rv_servers = servers, rv_timeout = 3000000000, rv_retries = 2, rv_counter = 1\<rparr>"

theorem query_first_definitive_witness:
  "\<exists>r' n'. query dns_example (\<lambda>_. 0) ''x'' 12 (resolver_example [''c:53'', ''b:53'', ''a:53'']) 7 =
     Inr ((Some \<lparr>m_Rcode = 0, m_Answer = [RR_PTR ''h.example.'']\<rparr>, ''c:53'', 3, None), r', n')"
proof -
  let ?r = "resolver_example [''c:53'', ''b:53'', ''a:53'']"
  have ok: "resolver_ok ?r" by (simp add: resolver_ok_def resolver_example_def)
  have "[0..<Suc (nat (rv_retries ?r))] = [0, 1, 2]" by (simp add: resolver_example_def upt_rec)
  moreover have "query_spec dns_example (answers dns_example (\<lambda>_. 0) ''x'' 12 ?r 7 [0, 1, 2]) =
      (Some \<lparr>m_Rcode = 0, m_Answer = [RR_PTR ''h.example.'']\<rparr>, ''c:53'', 3, None)"
    by (simp add: query_spec_def answers_def server_at_def resolver_example_def dns_example_def definitive_def)
  ultimately show ?thesis using query_first_definitive [OF ok, of dns_example "\<lambda>_. 0" "''x''" 12 7] by metis
qed

theorem lookup_ptr_wellformed_witness:
  "\<exists>res r' n'. LookupPTR dns_example (\<lambda>_. 0) 5 ''1.2.3.4'' (resolver_example [''b:53'']) 0 = Inr (res, r', n') \<and>
     pt_Status res \<in> set codeToStatus \<and> pt_Attempts res \<le> 3"
  using lookup_ptr_wellformed [of "resolver_example [''b:53'']" dns_example "\<lambda>_. 0" 5 "''1.2.3.4''" 0]
  by (auto simp: resolver_ok_def resolver_example_def)

lemma two_servers_never_rotate_instance:
  "\<exists>e r' n'. query dns_example (\<lambda>_. 0) ''x'' 12 (resolver_example [''a:53'', ''c:53'']) 0 =
     Inr ((None, ''a:53'', 3, Some e), r', n')"
  using two_servers_never_rotate [of "resolver_example [''a:53'', ''c:53'']" "''a:53''" dns_example "''x''" 12 0]
  by (simp add: resolver_ok_def resolver_example_def dns_example_def)

end
