(* ===== verification/Run_System.thy ===== *)
theory Run_System
  imports Main
begin

text \<open>
  The contract of a component that runs as a step relation: an invariant that every step keeps,
  a rank that every step lowers, and a final condition that holds as soon as no step is
  possible. It gives what the clients need: the invariant in every reachable state, and that
  every run is finite and ends in a final state.
\<close>

locale run_system =
  fixes step :: "'s \<Rightarrow> 's \<Rightarrow> bool"
    and inv :: "'s \<Rightarrow> bool"
    and rank :: "'s \<Rightarrow> nat"
    and final :: "'s \<Rightarrow> bool"
  assumes step_inv: "inv s \<Longrightarrow> step s s' \<Longrightarrow> inv s'"
    and step_rank: "step s s' \<Longrightarrow> rank s' < rank s"
    and progress: "inv s \<Longrightarrow> \<not> final s \<Longrightarrow> \<exists>s'. step s s'"
begin

lemma reachable_inv: "step\<^sup>*\<^sup>* s s' \<Longrightarrow> inv s \<Longrightarrow> inv s'"
  by (induction rule: rtranclp_induct) (auto intro: step_inv)

lemma reachable_rank: "step\<^sup>*\<^sup>* s s' \<Longrightarrow> rank s' \<le> rank s"
  by (induction rule: rtranclp_induct) (auto dest: step_rank)

lemma runs_bounded: "(step ^^ k) s s' \<Longrightarrow> rank s' + k \<le> rank s"
proof (induction k arbitrary: s')
  case (Suc k)
  then obtain t where "(step ^^ k) s t" "step t s'" by auto
  then show ?case using Suc.IH [of t] step_rank [of t s'] by simp
qed simp

lemma reaches_final: "inv s \<Longrightarrow> \<exists>s'. step\<^sup>*\<^sup>* s s' \<and> final s'"
proof (induction "rank s" arbitrary: s rule: less_induct)
  case less
  show ?case
  proof (cases "final s")
    case False
    then obtain t where t: "step s t" using progress less.prems by blast
    then obtain s' where "step\<^sup>*\<^sup>* t s'" "final s'"
      using less.hyps [OF step_rank [OF t]] step_inv [OF less.prems t] by blast
    then show ?thesis using t by (meson converse_rtranclp_into_rtranclp)
  qed auto
qed

end

end
