(* ===== verification/Crawler.thy ===== *)
theory Crawler
  imports Resolver Sink_Contract Run_System "HOL-Library.Signed_Division"
begin

unbundle bit_operations_syntax

text \<open>
  The worker pool (\<^verbatim>\<open>src/internal/crawler/crawler.go\<close>). Resolving one address is a function;
  the pool is a step relation in which any worker may move at any time, the context may be
  cancelled at any time, and a select with two ready cases may take either. The input channel
  is the list of addresses still to be received; on cancellation its producer keeps back
  the ones it has not sent.
\<close>

section \<open>Configuration and state\<close>

text \<open>Without \<open>ProgressOut\<close>, the file that progress lines are printed to.\<close>

record Config =
  cf_Concurrency :: int
  cf_FCrDNS :: bool
  cf_QPS :: int
  cf_ProgressInt :: int

record Crawler =
  cw_cfg :: Config
  cw_res :: Resolver
  cw_processed :: u64
  cw_byCode :: "u64 list"

definition crawler_New :: "Config \<Rightarrow> Resolver \<Rightarrow> Crawler" where
  "crawler_New cfg res =
     (let cfg = (if cf_Concurrency cfg < 1 then cfg\<lparr>cf_Concurrency := 1\<rparr> else cfg);
          cfg = (if cf_ProgressInt cfg \<le> 0 then cfg\<lparr>cf_ProgressInt := 1000000000\<rparr> else cfg)
      in \<lparr>cw_cfg = cfg, cw_res = res, cw_processed = 0, cw_byCode = replicate NumStatusCodes 0\<rparr>)"

section \<open>One address\<close>

definition ipToInt :: "string \<Rightarrow> u32" where
  "ipToInt s =
     (case ParseIP s of None \<Rightarrow> 0
      | Some ip \<Rightarrow>
          (case To4 ip of None \<Rightarrow> 0
           | Some q \<Rightarrow> push_bit 24 (ucast (q ! 0)) OR push_bit 16 (ucast (q ! 1)) OR
                       push_bit 8 (ucast (q ! 2)) OR ucast (q ! 3)))"

text \<open>\<open>net.IP.Equal\<close>: a 4-byte address equals its 16-byte form.\<close>

definition ip_Equal :: "bytes \<Rightarrow> bytes \<Rightarrow> bool" where
  "ip_Equal ip x =
     (if length ip = length x then ip = x
      else if length ip = 4 \<and> length x = 16 then take 12 x = v4_in_v6 \<and> ip = drop 12 x
      else if length ip = 16 \<and> length x = 4 then take 12 ip = v4_in_v6 \<and> drop 12 ip = x
      else False)"

text \<open>Forward confirmation: does any of the names resolve back to the address?\<close>

fun confirm_loop ::
  "dns_lib \<Rightarrow> (nat \<Rightarrow> u64) \<Rightarrow> bytes \<Rightarrow> string list \<Rightarrow> Resolver \<Rightarrow> nat \<Rightarrow> go_error + (bool \<times> Resolver \<times> nat)" where
  "confirm_loop D oth target [] r n = Inr (False, r, n)"
| "confirm_loop D oth target (name # names) r n =
     (case LookupA D oth name r n of
        Inl e \<Rightarrow> Inl e
      | Inr (Inl err, r, n) \<Rightarrow> confirm_loop D oth target names r n
      | Inr (Inr addrs, r, n) \<Rightarrow>
          if list_ex (\<lambda>a. ip_Equal a target) addrs then Inr (True, r, n)
          else confirm_loop D oth target names r n)"

text \<open>The two atomic additions of \<open>tally\<close>: other goroutines may run between them.\<close>

definition tally_processed :: "Crawler \<Rightarrow> Crawler" where
  "tally_processed c = c\<lparr>cw_processed := cw_processed c + 1\<rparr>"

definition tally_code :: "string \<Rightarrow> Crawler \<Rightarrow> Crawler" where
  "tally_code status c =
     c\<lparr>cw_byCode := (cw_byCode c)[unat (Code status) := cw_byCode c ! unat (Code status) + 1]\<rparr>"

lemmas tally_defs = tally_processed_def tally_code_def

text \<open>\<open>process\<close> up to its call of \<open>tally\<close>, which the pool takes as two more steps.\<close>

definition process ::
  "dns_lib \<Rightarrow> (nat \<Rightarrow> u64) \<Rightarrow> int \<Rightarrow> string \<Rightarrow> string \<Rightarrow> Crawler \<Rightarrow> nat \<Rightarrow> go_error + (Record \<times> Crawler \<times> nat)" where
  "process D oth latency ts ip c n =
     (case LookupPTR D oth latency ip (cw_res c) n of
        Inl e \<Rightarrow> Inl e
      | Inr (ptr, r, n) \<Rightarrow>
          let rec = \<lparr>r_IP = ip, r_IPInt = ipToInt ip, r_Status = pt_Status ptr, r_PTR = pt_Names ptr,
                     r_FCrDNS = None, r_Resolver = pt_Resolver ptr, r_Attempts = pt_Attempts ptr,
                     r_LatencyMs = pt_Latency ptr sdiv 1000000, r_Rcode = pt_Rcode ptr,
                     r_Error = (case pt_Err ptr of None \<Rightarrow> [] | Some e \<Rightarrow> e), r_TS = ts\<rparr> in
          if cf_FCrDNS (cw_cfg c) \<and> HasPTR (pt_Status ptr) then
            (let target = (case ParseIP ip of None \<Rightarrow> [] | Some t \<Rightarrow> t) in
             case confirm_loop D oth target (pt_Names ptr) r n of
               Inl e \<Rightarrow> Inl e
             | Inr (match, r, n) \<Rightarrow>
                 Inr (rec\<lparr>r_FCrDNS := Some match\<rparr>, c\<lparr>cw_res := r\<rparr>, n))
          else Inr (rec, c\<lparr>cw_res := r\<rparr>, n))"

section \<open>The pool\<close>

text \<open>Where a worker stands in its loop.\<close>

datatype worker =
    W_Idle               \<comment> \<open>at the head of the loop, about to receive\<close>
  | W_Token string       \<comment> \<open>waiting for the rate limiter\<close>
  | W_Got string         \<comment> \<open>about to process\<close>
  | W_Tally Record       \<comment> \<open>in \<open>tally\<close>, about to count its address as processed\<close>
  | W_Code Record        \<comment> \<open>in \<open>tally\<close>, about to count its status\<close>
  | W_Send Record        \<comment> \<open>sending its record\<close>
  | W_Exit

record pool =
  pl_in :: "string list"       \<comment> \<open>addresses still to come on the input channel\<close>
  pl_unsent :: "string list"   \<comment> \<open>addresses the producer kept back on cancellation\<close>
  pl_workers :: "worker list"
  pl_out :: "Record list"      \<comment> \<open>records sent on the output channel\<close>
  pl_cancelled :: bool
  pl_closed :: bool            \<comment> \<open>the output channel is closed\<close>
  pl_crawler :: Crawler

text \<open>The start of \<open>Run\<close>: \<open>time.NewTicker\<close> panics when the interval is not positive.\<close>

definition pool_start :: "Crawler \<Rightarrow> string list \<Rightarrow> go_error + pool" where
  "pool_start c ips =
     (if 0 < cf_QPS (cw_cfg c) \<and> 1000000000 sdiv cf_QPS (cw_cfg c) \<le> 0 then Inl EPanic
      else Inr \<lparr>pl_in = ips, pl_unsent = [],
                pl_workers = replicate (nat (cf_Concurrency (cw_cfg c))) W_Idle,
                pl_out = [], pl_cancelled = False, pl_closed = False, pl_crawler = c\<rparr>)"

definition set_worker :: "nat \<Rightarrow> worker \<Rightarrow> pool \<Rightarrow> pool" where
  "set_worker i w s = s\<lparr>pl_workers := (pl_workers s)[i := w]\<rparr>"

definition worker_at :: "pool \<Rightarrow> nat \<Rightarrow> worker \<Rightarrow> bool" where
  "worker_at s i w \<longleftrightarrow> i < length (pl_workers s) \<and> pl_workers s ! i = w"

inductive pool_step :: "dns_lib \<Rightarrow> pool \<Rightarrow> pool \<Rightarrow> bool" for D where
  receive: "worker_at s i W_Idle \<Longrightarrow> pl_in s = ip # rest \<Longrightarrow>
     pool_step D s (set_worker i (if 0 < cf_QPS (cw_cfg (pl_crawler s)) then W_Token ip else W_Got ip)
                      (s\<lparr>pl_in := rest\<rparr>))"
| input_closed: "worker_at s i W_Idle \<Longrightarrow> pl_in s = [] \<Longrightarrow> pool_step D s (set_worker i W_Exit s)"
| token: "worker_at s i (W_Token ip) \<Longrightarrow> pool_step D s (set_worker i (W_Got ip) s)"
| token_cancelled: "worker_at s i (W_Token ip) \<Longrightarrow> pl_cancelled s \<Longrightarrow> pool_step D s (set_worker i W_Exit s)"
| process: "worker_at s i (W_Got ip) \<Longrightarrow> process D oth latency ts ip (pl_crawler s) n = Inr (rec, c, n') \<Longrightarrow>
     pool_step D s (set_worker i (W_Tally rec) (s\<lparr>pl_crawler := c\<rparr>))"
| processed: "worker_at s i (W_Tally rec) \<Longrightarrow>
     pool_step D s (set_worker i (W_Code rec) (s\<lparr>pl_crawler := tally_processed (pl_crawler s)\<rparr>))"
| coded: "worker_at s i (W_Code rec) \<Longrightarrow>
     pool_step D s (set_worker i (W_Send rec) (s\<lparr>pl_crawler := tally_code (r_Status rec) (pl_crawler s)\<rparr>))"
| send: "worker_at s i (W_Send rec) \<Longrightarrow> pool_step D s (set_worker i W_Idle (s\<lparr>pl_out := pl_out s @ [rec]\<rparr>))"
| send_cancelled: "worker_at s i (W_Send rec) \<Longrightarrow> pl_cancelled s \<Longrightarrow> pool_step D s (set_worker i W_Exit s)"
| cancel: "\<not> pl_cancelled s \<Longrightarrow> pool_step D s (s\<lparr>pl_cancelled := True\<rparr>)"
| producer_stops: "pl_cancelled s \<Longrightarrow> pl_in s = kept @ dropped \<Longrightarrow> dropped \<noteq> [] \<Longrightarrow>
     pool_step D s (s\<lparr>pl_in := kept, pl_unsent := dropped @ pl_unsent s\<rparr>)"
| finish: "\<not> pl_closed s \<Longrightarrow> list_all ((=) W_Exit) (pl_workers s) \<Longrightarrow> pool_step D s (s\<lparr>pl_closed := True\<rparr>)"

section \<open>Resolving one address never fails\<close>

lemma LookupA_ok:
  assumes "resolver_ok r"
  shows "\<exists>x r' n'. LookupA D oth host r n = Inr (x, r', n') \<and> resolver_ok r'"
proof -
  define L where "L = answers D oth (dl_Fqdn D host) (dl_TypeA D) r n [0..<Suc (nat (rv_retries r))]"
  obtain r' n' where q: "query D oth (dl_Fqdn D host) (dl_TypeA D) r n = Inr (query_spec D L, r', n')" "resolver_ok r'"
    using query_ok [OF assms] L_def by metis
  have "L \<noteq> []" by (simp add: L_def answers_def del: upt_Suc)
  then show ?thesis
    by (cases rule: query_spec_cases [of L D]) (use q in \<open>simp_all add: LookupA_def\<close>)
qed

lemma confirm_loop_ok: "resolver_ok r \<Longrightarrow> \<exists>b r' n'. confirm_loop D oth target names r n = Inr (b, r', n') \<and> resolver_ok r'"
proof (induction names arbitrary: r n)
  case (Cons name names)
  obtain x r' n' where x: "LookupA D oth name r n = Inr (x, r', n')" "resolver_ok r'" using LookupA_ok [OF Cons.prems] by blast
  then show ?case using Cons.IH [OF x(2), of n'] by (cases x) auto
qed auto

text \<open>What holds of every record the crawler makes.\<close>

definition crawl_rec :: "Config \<Rightarrow> Record \<Rightarrow> bool" where
  "crawl_rec cfg rec \<longleftrightarrow> r_IPInt rec = ipToInt (r_IP rec) \<and>
     r_Status rec \<in> set codeToStatus - {StatusLameDelegation} \<and>
     (HasPTR (r_Status rec) \<longleftrightarrow> r_PTR rec \<noteq> []) \<and>
     (r_FCrDNS rec \<noteq> None \<longleftrightarrow> cf_FCrDNS cfg \<and> HasPTR (r_Status rec))"

lemma LookupPTR_ok:
  assumes "resolver_ok r"
  shows "\<exists>res r' n'. LookupPTR D oth latency ip r n = Inr (res, r', n') \<and> resolver_ok r' \<and>
     pt_Status res \<in> set codeToStatus - {StatusLameDelegation} \<and> (HasPTR (pt_Status res) \<longleftrightarrow> pt_Names res \<noteq> [])"
  using lookup_ptr_ok [OF assms] by blast

lemma process_ok:
  assumes "resolver_ok (cw_res c)"
  shows "\<exists>rec r' n'. process D oth latency ts ip c n = Inr (rec, c\<lparr>cw_res := r'\<rparr>, n') \<and>
     resolver_ok r' \<and> r_IP rec = ip \<and> crawl_rec (cw_cfg c) rec"
proof -
  obtain res r1 n1 where p: "LookupPTR D oth latency ip (cw_res c) n = Inr (res, r1, n1)" "resolver_ok r1"
    "pt_Status res \<in> set codeToStatus - {StatusLameDelegation}" "HasPTR (pt_Status res) \<longleftrightarrow> pt_Names res \<noteq> []"
    using LookupPTR_ok [OF assms] by blast
  obtain b r2 n2 where "confirm_loop D oth (case ParseIP ip of None \<Rightarrow> [] | Some t \<Rightarrow> t) (pt_Names res) r1 n1 = Inr (b, r2, n2)" "resolver_ok r2"
    using confirm_loop_ok [OF p(2)] by blast
  then show ?thesis using p by (auto simp: process_def Let_def crawl_rec_def)
qed

lemma process_out:
  assumes "process D oth latency ts ip c n = Inr (rec, c', n')" and "resolver_ok (cw_res c)"
  shows "\<exists>r'. c' = c\<lparr>cw_res := r'\<rparr> \<and> resolver_ok r' \<and> r_IP rec = ip \<and> crawl_rec (cw_cfg c) rec"
  using process_ok [OF assms(2), of D oth latency ts ip n] assms(1) by auto

section \<open>The invariant of the pool\<close>

definition held :: "worker \<Rightarrow> string multiset" where
  "held w = (case w of W_Token ip \<Rightarrow> {#ip#} | W_Got ip \<Rightarrow> {#ip#} | W_Tally rec \<Rightarrow> {#r_IP rec#} |
     W_Code rec \<Rightarrow> {#r_IP rec#} | W_Send rec \<Rightarrow> {#r_IP rec#} | _ \<Rightarrow> {#})"

definition sending :: "worker \<Rightarrow> Record multiset" where
  "sending w = (case w of W_Send rec \<Rightarrow> {#rec#} | _ \<Rightarrow> {#})"

definition tallying :: "worker \<Rightarrow> Record multiset" where
  "tallying w = (case w of W_Tally rec \<Rightarrow> {#rec#} | W_Code rec \<Rightarrow> {#rec#} | _ \<Rightarrow> {#})"

definition coding :: "worker \<Rightarrow> nat" where
  "coding w = (case w of W_Code _ \<Rightarrow> 1 | _ \<Rightarrow> 0)"

definition exited :: "worker \<Rightarrow> nat" where
  "exited w = (if w = W_Exit then 1 else 0)"

lemmas worker_sums = held_def sending_def tallying_def coding_def exited_def

definition total_of :: "(worker \<Rightarrow> 'b :: comm_monoid_add) \<Rightarrow> pool \<Rightarrow> 'b" where
  "total_of f s = sum_list (map f (pl_workers s))"

lemma total_of_set_worker:
  "worker_at s i w \<Longrightarrow> total_of f (set_worker i w' s') + f w = total_of f s + f w'" if "pl_workers s' = pl_workers s"
  using sum_list_map_update [of i "pl_workers s" f w'] that by (auto simp: total_of_def set_worker_def worker_at_def)

lemma total_of_other: "pl_workers s' = pl_workers s \<Longrightarrow> total_of f s' = total_of f s"
  by (simp add: total_of_def)

lemma set_worker_frame [simp]:
  "pl_in (set_worker i w s) = pl_in s" "pl_unsent (set_worker i w s) = pl_unsent s" "pl_out (set_worker i w s) = pl_out s"
  "pl_cancelled (set_worker i w s) = pl_cancelled s" "pl_closed (set_worker i w s) = pl_closed s"
  "pl_crawler (set_worker i w s) = pl_crawler s" "length (pl_workers (set_worker i w s)) = length (pl_workers s)"
  by (simp_all add: set_worker_def)

text \<open>Every address of the input is in one place; a worker that gave up lost at most one.\<close>

definition conserved :: "string list \<Rightarrow> pool \<Rightarrow> bool" where
  "conserved ips s \<longleftrightarrow> (\<exists>lost. mset ips = mset (map r_IP (pl_out s)) + total_of held s + mset (pl_in s) + mset (pl_unsent s) + lost \<and>
     size lost \<le> total_of exited s \<and> (\<not> pl_cancelled s \<longrightarrow> lost = {#}))"

lemma conserved_move:
  assumes "conserved ips s"
    and "mset (map r_IP (pl_out s')) + total_of held s' + mset (pl_in s') + mset (pl_unsent s') =
         mset (map r_IP (pl_out s)) + total_of held s + mset (pl_in s) + mset (pl_unsent s)"
    and "total_of exited s \<le> total_of exited s'" and "pl_cancelled s' = pl_cancelled s" 
  shows "conserved ips s'"
proof -
  obtain lost where l: "mset ips = mset (map r_IP (pl_out s)) + total_of held s + mset (pl_in s) + mset (pl_unsent s) + lost"
    "size lost \<le> total_of exited s" "\<not> pl_cancelled s \<longrightarrow> lost = {#}"
    using assms(1) by (auto simp: conserved_def)
  show ?thesis
    unfolding conserved_def
    by (rule exI [of _ lost]) (use l assms(2,3,4) in \<open>simp add: order_trans\<close>)
qed

lemma conserved_give_up:
  assumes "conserved ips s" and w: "worker_at s i w" and "held w = {#ip#}" and "w \<noteq> W_Exit" and "pl_cancelled s"
  shows "conserved ips (set_worker i W_Exit s)"
proof -
  obtain lost where l: "mset ips = mset (map r_IP (pl_out s)) + total_of held s + mset (pl_in s) + mset (pl_unsent s) + lost"
    "size lost \<le> total_of exited s"
    using assms(1) by (auto simp: conserved_def)
  have h: "total_of held (set_worker i W_Exit s) + {#ip#} = total_of held s"
    using total_of_set_worker [OF refl w, of held W_Exit] assms(3) by (simp add: held_def)
  have e: "total_of exited (set_worker i W_Exit s) = total_of exited s + 1"
    using total_of_set_worker [OF refl w, of exited W_Exit] assms(4) by (simp add: exited_def)
  have "mset ips = mset (map r_IP (pl_out s)) + total_of held (set_worker i W_Exit s) + mset (pl_in s) + mset (pl_unsent s) + add_mset ip lost"
    using l(1) unfolding h [symmetric] by simp
  then show ?thesis using l(2) e assms(5) unfolding conserved_def by (intro exI [of _ "add_mset ip lost"]) simp
qed

lemma conserved_worker:
  assumes "conserved ips s" and w: "worker_at s i w" and "pl_workers s1 = pl_workers s" and "pl_cancelled s1 = pl_cancelled s"
    and "w \<noteq> W_Exit"
    and "mset (map r_IP (pl_out s1)) + held w' + mset (pl_in s1) + mset (pl_unsent s1) =
         mset (map r_IP (pl_out s)) + held w + mset (pl_in s) + mset (pl_unsent s)"
  shows "conserved ips (set_worker i w' s1)"
proof (rule conserved_move [OF assms(1)])
  have h: "total_of held (set_worker i w' s1) + held w = total_of held s + held w'"
    using total_of_set_worker [OF assms(3) w] .
  have "mset (map r_IP (pl_out s1)) + total_of held (set_worker i w' s1) + mset (pl_in s1) + mset (pl_unsent s1) + held w =
      (mset (map r_IP (pl_out s1)) + held w' + mset (pl_in s1) + mset (pl_unsent s1)) + total_of held s"
    using h by (simp add: ac_simps)
  also have "\<dots> = mset (map r_IP (pl_out s)) + total_of held s + mset (pl_in s) + mset (pl_unsent s) + held w"
    unfolding assms(6) by (simp add: ac_simps)
  finally show "mset (map r_IP (pl_out (set_worker i w' s1))) + total_of held (set_worker i w' s1) +
      mset (pl_in (set_worker i w' s1)) + mset (pl_unsent (set_worker i w' s1)) =
      mset (map r_IP (pl_out s)) + total_of held s + mset (pl_in s) + mset (pl_unsent s)"
    by simp
  show "total_of exited s \<le> total_of exited (set_worker i w' s1)"
    using total_of_set_worker [OF assms(3) w, of exited w'] assms(5) by (simp add: exited_def)
qed (simp add: assms(4))

lemma step_conserved:
  assumes "pool_step D s s'" and "conserved ips s" and "resolver_ok (cw_res (pl_crawler s))"
  shows "conserved ips s'"
  using assms(1)
proof cases
  case (process i ip oth latency ts n rec c n')
  have "r_IP rec = ip" using process_out [OF process(3) assms(3)] by blast
  then show ?thesis unfolding process(1) by (intro conserved_worker [OF assms(2) process(2)]) (simp_all add: held_def)
next
  case (processed i rec)
  then show ?thesis unfolding processed(1) by (intro conserved_worker [OF assms(2) processed(2)]) (simp_all add: held_def)
next
  case (coded i rec)
  then show ?thesis unfolding coded(1) by (intro conserved_worker [OF assms(2) coded(2)]) (simp_all add: held_def)
next
  case (receive i ip rest)
  then show ?thesis unfolding receive(1) by (intro conserved_worker [OF assms(2) receive(2)]) (simp_all add: held_def)
next
  case (input_closed i)
  then show ?thesis unfolding input_closed(1) by (intro conserved_worker [OF assms(2) input_closed(2)]) (simp_all add: held_def)
next
  case (token i ip)
  then show ?thesis unfolding token(1) by (intro conserved_worker [OF assms(2) token(2)]) (simp_all add: held_def)
next
  case (send i rec)
  then show ?thesis unfolding send(1) by (intro conserved_worker [OF assms(2) send(2)]) (simp_all add: held_def)
next
  case (token_cancelled i ip)
  then show ?thesis using conserved_give_up [OF assms(2)] by (simp add: held_def)
next
  case (send_cancelled i rec)
  then show ?thesis using conserved_give_up [OF assms(2)] by (simp add: held_def)
next
  case cancel
  then show ?thesis using assms(2) by (auto simp: conserved_def total_of_def)
qed (auto intro!: conserved_move [OF assms(2)] simp: total_of_def)

text \<open>
  The status counters count every record tallied: those sent, those being sent and those given up;
  the counter of processed addresses is ahead by the workers between the two additions.
\<close>

definition code_of :: "Record \<Rightarrow> nat" where
  "code_of r = unat (Code (r_Status r))"

definition counts_of :: "Config \<Rightarrow> Crawler \<Rightarrow> Record multiset \<Rightarrow> nat \<Rightarrow> bool" where
  "counts_of cfg c R k \<longleftrightarrow> (\<forall>r\<in>#R. crawl_rec cfg r) \<and> cw_processed c = of_nat (size R + k) \<and>
     (\<forall>j<8. cw_byCode c ! j = of_nat (size {#r \<in># R. code_of r = j#}))"

definition counted :: "Config \<Rightarrow> pool \<Rightarrow> bool" where
  "counted cfg s \<longleftrightarrow> resolver_ok (cw_res (pl_crawler s)) \<and> cw_cfg (pl_crawler s) = cfg \<and>
     length (cw_byCode (pl_crawler s)) = 8 \<and> (\<forall>r\<in>#total_of tallying s. crawl_rec cfg r) \<and>
     (\<exists>lost. (\<not> pl_cancelled s \<longrightarrow> lost = {#}) \<and>
        counts_of cfg (pl_crawler s) (mset (pl_out s) + total_of sending s + lost) (total_of coding s))"

lemma counted_move:
  assumes "counted cfg s" and "mset (pl_out s') + total_of sending s' + given_up = mset (pl_out s) + total_of sending s"
    and "pl_crawler s' = pl_crawler s" and "pl_cancelled s \<longrightarrow> pl_cancelled s'" and "\<not> pl_cancelled s' \<longrightarrow> given_up = {#}"
    and "total_of tallying s' = total_of tallying s" and "total_of coding s' = total_of coding s"
  shows "counted cfg s'"
proof -
  obtain lost where l: "\<not> pl_cancelled s \<longrightarrow> lost = {#}"
    "counts_of cfg (pl_crawler s) (mset (pl_out s) + total_of sending s + lost) (total_of coding s)"
    using assms(1) unfolding counted_def by blast
  have eq: "mset (pl_out s) + total_of sending s + lost = mset (pl_out s') + total_of sending s' + (given_up + lost)"
    using assms(2) by (simp only: add.assoc [symmetric])
  have "\<not> pl_cancelled s' \<longrightarrow> given_up + lost = {#}" using assms(4,5) l(1) by auto
  then show ?thesis
    using assms(1) l(2) unfolding counted_def eq assms(3,6,7) by blast
qed

lemma counted_tally:
  assumes "counted cfg s" and "pl_crawler s' = c" and "pl_cancelled s' = pl_cancelled s"
    and "resolver_ok (cw_res c)" "cw_cfg c = cfg" "length (cw_byCode c) = 8" "\<forall>r\<in>#total_of tallying s'. crawl_rec cfg r"
    and step: "\<And>R. counts_of cfg (pl_crawler s) R (total_of coding s) \<Longrightarrow> counts_of cfg c (R + extra) (total_of coding s')"
    and "mset (pl_out s') + total_of sending s' = mset (pl_out s) + total_of sending s + extra"
  shows "counted cfg s'"
proof -
  obtain lost where l: "\<not> pl_cancelled s \<longrightarrow> lost = {#}"
    "counts_of cfg (pl_crawler s) (mset (pl_out s) + total_of sending s + lost) (total_of coding s)"
    using assms(1) unfolding counted_def by blast
  have "counts_of cfg c (mset (pl_out s') + total_of sending s' + lost) (total_of coding s')"
    using step [OF l(2)] unfolding assms(9) by (simp add: ac_simps)
  then show ?thesis using l(1) assms(2-7) unfolding counted_def by metis
qed

lemma counts_processed: "counts_of cfg c R k \<Longrightarrow> counts_of cfg (tally_processed c) R (k + 1)"
  by (simp add: counts_of_def tally_processed_def)

lemma counts_code:
  assumes "counts_of cfg c R (Suc k)" and "length (cw_byCode c) = 8" and "crawl_rec cfg rec"
  shows "counts_of cfg (tally_code (r_Status rec) c) (R + {#rec#}) k"
proof -
  have "unat (Code (r_Status rec)) < 8" by (rule Code_less)
  then have "cw_byCode (tally_code (r_Status rec) c) ! j = of_nat (size {#r \<in># R + {#rec#}. code_of r = j#})" if "j < 8" for j
    using assms(1,2) that by (auto simp: counts_of_def tally_code_def code_of_def nth_list_update)
  then show ?thesis using assms(1,3) by (simp add: counts_of_def tally_code_def)
qed

lemma sending_worker:
  assumes "worker_at s i w" and "pl_workers s1 = pl_workers s" and "sending w' + given_up = sending w + extra"
  shows "total_of sending (set_worker i w' s1) + given_up = total_of sending s + extra"
proof -
  have "total_of sending (set_worker i w' s1) + given_up + sending w = total_of sending s + (sending w' + given_up)"
    using total_of_set_worker [OF assms(2,1), of sending w'] by (simp add: ac_simps)
  also have "\<dots> = total_of sending s + extra + sending w" unfolding assms(3) by (simp add: ac_simps)
  finally show ?thesis by simp
qed

lemma counted_worker:
  assumes "counted cfg s" and "worker_at s i w" and "pl_workers s1 = pl_workers s" and "pl_cancelled s1 = pl_cancelled s"
    and "pl_crawler s1 = pl_crawler s" and "\<not> pl_cancelled s \<longrightarrow> given_up = {#}"
    and "mset (pl_out s1) = mset (pl_out s) + extra" and "sending w' + given_up + extra = sending w"
    and "tallying w' = tallying w" "coding w' = coding w"
  shows "counted cfg (set_worker i w' s1)"
proof (rule counted_move [OF assms(1)])
  have "total_of sending (set_worker i w' s1) + (given_up + extra) = total_of sending s + {#}"
    using sending_worker [OF assms(2,3), of w' "given_up + extra" "{#}"] assms(8) by (simp add: ac_simps)
  then show "mset (pl_out (set_worker i w' s1)) + total_of sending (set_worker i w' s1) + given_up =
      mset (pl_out s) + total_of sending s"
    using assms(7) by (simp add: ac_simps)
  show "total_of tallying (set_worker i w' s1) = total_of tallying s" "total_of coding (set_worker i w' s1) = total_of coding s"
    using total_of_set_worker [OF assms(3,2), of tallying w'] total_of_set_worker [OF assms(3,2), of coding w'] assms(9,10) by simp_all
qed (use assms(4,5,6) in simp_all)

lemma step_counted:
  assumes "pool_step D s s'" and "counted cfg s"
  shows "counted cfg s'"
  using assms(1)
proof cases
  case (process i ip oth latency ts n rec c n')
  have ok: "resolver_ok (cw_res (pl_crawler s))" "cw_cfg (pl_crawler s) = cfg" "length (cw_byCode (pl_crawler s)) = 8"
    "\<forall>r\<in>#total_of tallying s. crawl_rec cfg r" using assms(2) by (auto simp: counted_def)
  obtain r where r: "c = (pl_crawler s)\<lparr>cw_res := r\<rparr>" "resolver_ok r" "crawl_rec cfg rec"
    using process_out [OF process(3) ok(1)] ok(2) by blast
  note t = total_of_set_worker [OF _ process(2), of "s\<lparr>pl_crawler := c\<rparr>" _ "W_Tally rec", folded process(1)]
  have "total_of tallying s' = total_of tallying s + {#rec#}" "total_of coding s' = total_of coding s" "total_of sending s' = total_of sending s"
    using t [of tallying] t [of coding] t [of sending] by (simp_all add: worker_sums)
  then show ?thesis using ok r process(1) by (intro counted_tally [OF assms(2), of s' c "{#}"]) (auto simp: counts_of_def)
next
  case (processed i rec)
  note t = total_of_set_worker [OF _ processed(2), of "s\<lparr>pl_crawler := tally_processed (pl_crawler s)\<rparr>" _ "W_Code rec", folded processed(1)]
  have "total_of tallying s' = total_of tallying s" "total_of coding s' = total_of coding s + 1" "total_of sending s' = total_of sending s"
    using t [of tallying] t [of coding] t [of sending] by (simp_all add: worker_sums)
  then show ?thesis
    using assms(2) processed(1) counts_processed
    by (intro counted_tally [OF assms(2), of s' "tally_processed (pl_crawler s)" "{#}"]) (auto simp: counted_def tally_processed_def)
next
  case (coded i rec)
  note t = total_of_set_worker [OF _ coded(2), of "s\<lparr>pl_crawler := tally_code (r_Status rec) (pl_crawler s)\<rparr>" _ "W_Send rec", folded coded(1)]
  have sums: "total_of tallying s = total_of tallying s' + {#rec#}" "total_of coding s = Suc (total_of coding s')"
    "total_of sending s' = total_of sending s + {#rec#}"
    using t [of tallying] t [of coding] t [of sending] by (simp_all add: worker_sums)
  have inv: "resolver_ok (cw_res (pl_crawler s))" "cw_cfg (pl_crawler s) = cfg" "length (cw_byCode (pl_crawler s)) = 8"
    "\<forall>r\<in>#total_of tallying s. crawl_rec cfg r" using assms(2) by (auto simp: counted_def)
  show ?thesis
  proof (rule counted_tally [OF assms(2), of s' "tally_code (r_Status rec) (pl_crawler s)" "{#rec#}"])
    show "counts_of cfg (tally_code (r_Status rec) (pl_crawler s)) (R + {#rec#}) (total_of coding s')"
      if "counts_of cfg (pl_crawler s) R (total_of coding s)" for R
      using counts_code that inv sums(1,2) by simp
  qed (use coded(1) inv sums in \<open>simp_all add: tally_code_def\<close>)
next
  case (receive i ip rest)
  show ?thesis unfolding receive(1)
    by (rule counted_worker [OF assms(2) receive(2), where given_up = "{#}" and extra = "{#}"]) (simp_all add: worker_sums)
next
  case (input_closed i)
  show ?thesis unfolding input_closed(1)
    by (rule counted_worker [OF assms(2) input_closed(2), where given_up = "{#}" and extra = "{#}"]) (simp_all add: worker_sums)
next
  case (token i ip)
  show ?thesis unfolding token(1)
    by (rule counted_worker [OF assms(2) token(2), where given_up = "{#}" and extra = "{#}"]) (simp_all add: worker_sums)
next
  case (token_cancelled i ip)
  show ?thesis unfolding token_cancelled(1)
    by (rule counted_worker [OF assms(2) token_cancelled(2), where given_up = "{#}" and extra = "{#}"]) (simp_all add: worker_sums)
next
  case (send i rec)
  show ?thesis unfolding send(1)
    by (rule counted_worker [OF assms(2) send(2), where given_up = "{#}" and extra = "{#rec#}"]) (simp_all add: worker_sums)
next
  case (send_cancelled i rec)
  show ?thesis unfolding send_cancelled(1)
    by (rule counted_worker [OF assms(2) send_cancelled(2), where given_up = "{#rec#}" and extra = "{#}"])
      (simp_all add: worker_sums send_cancelled(3))
qed (auto intro!: counted_move [OF assms(2), of _ "{#}"] simp: total_of_def)

text \<open>Workers stop on their own only at the end of the input, and the output closes after all of them.\<close>

definition orderly :: "pool \<Rightarrow> bool" where
  "orderly s \<longleftrightarrow> (\<not> pl_cancelled s \<longrightarrow> pl_unsent s = [] \<and> (W_Exit \<in> set (pl_workers s) \<longrightarrow> pl_in s = [])) \<and>
     (pl_closed s \<longrightarrow> set (pl_workers s) \<subseteq> {W_Exit})"

lemma worker_at_mem: "worker_at s i w \<Longrightarrow> w \<in> set (pl_workers s)"
  by (auto simp: worker_at_def)

lemma set_worker_mem: "x \<in> set (pl_workers (set_worker i w s)) \<Longrightarrow> x = w \<or> x \<in> set (pl_workers s)"
  using set_update_subset_insert [of "pl_workers s" i w] by (auto simp: set_worker_def)

lemma step_orderly: "pool_step D s s' \<Longrightarrow> orderly s \<Longrightarrow> orderly s'"
  by (induction rule: pool_step.induct)
    (auto simp: orderly_def list_all_iff dest!: worker_at_mem set_worker_mem split: if_splits)

definition worker_rank :: "worker \<Rightarrow> nat" where
  "worker_rank w = (case w of W_Idle \<Rightarrow> 1 | W_Token _ \<Rightarrow> 6 | W_Got _ \<Rightarrow> 5 | W_Tally _ \<Rightarrow> 4 | W_Code _ \<Rightarrow> 3 | W_Send _ \<Rightarrow> 2 | W_Exit \<Rightarrow> 0)"

definition pool_rank :: "pool \<Rightarrow> nat" where
  "pool_rank s = 6 * length (pl_in s) + total_of worker_rank s +
     (if pl_closed s then 0 else 1) + (if pl_cancelled s then 0 else 1)"

lemma rank_worker:
  assumes "worker_at s i w" and "pl_workers s1 = pl_workers s" and "pl_closed s1 = pl_closed s" "pl_cancelled s1 = pl_cancelled s"
    and "6 * length (pl_in s1) + worker_rank w' < 6 * length (pl_in s) + worker_rank w"
  shows "pool_rank (set_worker i w' s1) < pool_rank s"
  using total_of_set_worker [OF assms(2,1), of worker_rank w'] assms(3-5) by (simp add: pool_rank_def)

lemma step_rank: "pool_step D s s' \<Longrightarrow> pool_rank s' < pool_rank s"
  by (induction rule: pool_step.induct)
    (auto intro!: rank_worker simp: worker_rank_def, auto simp: pool_rank_def total_of_def)

lemma pool_progress:
  assumes "resolver_ok (cw_res (pl_crawler s))" and "\<not> pl_closed s"
  shows "\<exists>s'. pool_step D s s'"
proof (cases "list_all ((=) W_Exit) (pl_workers s)")
  case True
  then show ?thesis using assms(2) pool_step.finish by blast
next
  case False
  then obtain i where i: "i < length (pl_workers s)" "pl_workers s ! i \<noteq> W_Exit" by (auto simp: list_all_length)
  show ?thesis
  proof (cases "pl_workers s ! i")
    case W_Idle
    then have w: "worker_at s i W_Idle" using i by (simp add: worker_at_def)
    show ?thesis
      by (cases "pl_in s") (use pool_step.input_closed [OF w] pool_step.receive [OF w] in blast)+
  next
    case (W_Token ip)
    then have "worker_at s i (W_Token ip)" using i by (simp add: worker_at_def)
    then show ?thesis using pool_step.token by blast
  next
    case (W_Got ip)
    then have w: "worker_at s i (W_Got ip)" using i by (simp add: worker_at_def)
    obtain rec c n' where "process D (\<lambda>_. 0) 0 [] ip (pl_crawler s) 0 = Inr (rec, c, n')" using process_ok [OF assms(1)] by blast
    then show ?thesis using pool_step.process [OF w] by blast
  next
    case (W_Tally rec)
    then have "worker_at s i (W_Tally rec)" using i by (simp add: worker_at_def)
    then show ?thesis using pool_step.processed by blast
  next
    case (W_Code rec)
    then have "worker_at s i (W_Code rec)" using i by (simp add: worker_at_def)
    then show ?thesis using pool_step.coded by blast
  next
    case (W_Send rec)
    then have "worker_at s i (W_Send rec)" using i by (simp add: worker_at_def)
    then show ?thesis using pool_step.send by blast
  qed (use i in simp)
qed

definition pool_inv :: "string list \<Rightarrow> Config \<Rightarrow> pool \<Rightarrow> bool" where
  "pool_inv ips cfg s \<longleftrightarrow> conserved ips s \<and> counted cfg s \<and> orderly s \<and>
     length (pl_workers s) = nat (cf_Concurrency cfg)"

lemma step_length: "pool_step D s s' \<Longrightarrow> length (pl_workers s') = length (pl_workers s)"
  by (induction rule: pool_step.induct) simp_all

lemma counted_resolver: "counted cfg s \<Longrightarrow> resolver_ok (cw_res (pl_crawler s))"
  by (simp add: counted_def)

interpretation pool_run: run_system "pool_step D" "pool_inv ips cfg" pool_rank pl_closed for D ips cfg
proof
  show "pool_inv ips cfg s'" if "pool_inv ips cfg s" "pool_step D s s'" for s s'
    using that step_conserved [OF that(2)] step_counted [OF that(2)] step_orderly [OF that(2)] step_length [OF that(2)]
      counted_resolver by (auto simp: pool_inv_def)
qed (auto simp: pool_inv_def intro: step_rank pool_progress counted_resolver)

lemma total_of_idle: "pl_workers s = replicate k W_Idle \<Longrightarrow> f W_Idle = 0 \<Longrightarrow> total_of f s = 0"
proof -
  have "sum_list (replicate k (0 :: 'a)) = 0" by (induction k) auto
  then show "pl_workers s = replicate k W_Idle \<Longrightarrow> f W_Idle = 0 \<Longrightarrow> total_of f s = 0" by (simp add: total_of_def)
qed

lemma start_inv:
  assumes "pool_start (crawler_New cfg res) ips = Inr s0" and "resolver_ok res"
  shows "pool_inv ips (cw_cfg (crawler_New cfg res)) s0"
proof -
  define c where "c = crawler_New cfg res"
  define k where "k = nat (cf_Concurrency (cw_cfg c))"
  have s0: "s0 = \<lparr>pl_in = ips, pl_unsent = [], pl_workers = replicate k W_Idle, pl_out = [],
      pl_cancelled = False, pl_closed = False, pl_crawler = c\<rparr>"
    using assms(1) by (simp add: pool_start_def c_def k_def split: if_splits)
  have t: "total_of held s0 = {#}" "total_of sending s0 = {#}" "total_of tallying s0 = {#}" "total_of coding s0 = 0" "total_of exited s0 = 0"
    by (rule total_of_idle [of _ k], simp add: s0, simp add: worker_sums)+
  have "resolver_ok (cw_res c)" "cw_processed c = 0" "cw_byCode c = replicate 8 0"
    using assms(2) by (simp_all add: c_def crawler_New_def Let_def NumStatusCodes_def)
  then have "counted (cw_cfg c) s0" using t by (simp add: counted_def counts_of_def s0)
  moreover have "conserved ips s0" using t by (simp add: conserved_def s0)
  moreover have "orderly s0" by (simp add: orderly_def s0)
  ultimately show ?thesis by (simp add: pool_inv_def s0 k_def c_def)
qed

lemma exited_le: "total_of exited s \<le> length (pl_workers s)"
proof -
  have "sum_list (map exited ws) \<le> length ws" for ws
    by (induction ws) (simp_all add: exited_def)
  then show ?thesis by (simp add: total_of_def)
qed

lemma total_of_exit: "set (pl_workers s) \<subseteq> {W_Exit} \<Longrightarrow> f W_Exit = 0 \<Longrightarrow> total_of f s = 0"
proof -
  have "set ws \<subseteq> {W_Exit} \<Longrightarrow> f W_Exit = 0 \<Longrightarrow> sum_list (map f ws) = 0" for ws by (induction ws) auto
  then show "set (pl_workers s) \<subseteq> {W_Exit} \<Longrightarrow> f W_Exit = 0 \<Longrightarrow> total_of f s = 0" by (simp add: total_of_def)
qed

lemma crawl_complete_run:
  assumes "resolver_ok res" and "pool_start (crawler_New cfg res) ips = Inr s0" and "(pool_step D)\<^sup>*\<^sup>* s0 s"
    and "pl_closed s" and "\<not> pl_cancelled s"
  shows "mset (map r_IP (pl_out s)) = mset ips \<and> (\<forall>rec\<in>set (pl_out s). crawl_rec (cw_cfg (crawler_New cfg res)) rec) \<and>
     cw_processed (pl_crawler s) = of_nat (length ips) \<and>
     (\<forall>k<8. cw_byCode (pl_crawler s) ! k = of_nat (status_count k (pl_out s)))"
proof -
  have inv: "pool_inv ips (cw_cfg (crawler_New cfg res)) s"
    using pool_run.reachable_inv [OF assms(3) start_inv [OF assms(2,1)]] .
  have ws: "set (pl_workers s) \<subseteq> {W_Exit}" using inv assms(4) by (simp add: pool_inv_def orderly_def)
  have "1 \<le> cf_Concurrency (cw_cfg (crawler_New cfg res))" by (simp add: crawler_New_def Let_def)
  then have "pl_workers s \<noteq> []" using inv by (auto simp: pool_inv_def)
  then have "pl_in s = []" "pl_unsent s = []"
    using ws inv assms(5) by (cases "pl_workers s"; auto simp: pool_inv_def orderly_def)+
  moreover have t: "total_of held s = {#}" "total_of sending s = {#}" "total_of coding s = 0"
    by (rule total_of_exit [OF ws], simp add: worker_sums)+
  ultimately have ips: "mset ips = mset (map r_IP (pl_out s))"
    using inv assms(5) by (auto simp: pool_inv_def conserved_def)
  then have "length ips = length (pl_out s)" by (metis length_map size_mset)
  moreover have "size {#r \<in># mset rs. code_of r = k#} = status_count k rs" for k rs
    by (induction rs) (auto simp: code_of_def)
  ultimately show ?thesis
    using inv t(2,3) assms(5) ips by (auto simp: pool_inv_def counted_def counts_of_def)
qed

section \<open>Properties\<close>

text \<open>
  C7. The pool loses nothing it does not have to. In every reachable state of a crawl each address
  of the input is in exactly one place: in a record already sent, with a worker, still on the
  input channel, kept back by the producer, or lost; an address is lost only by a worker that
  returned because of the cancellation, so at most one per worker, and none without it.
  Once the output channel is closed no worker holds an address.
\<close>
theorem pool_conserves:
  assumes "resolver_ok res" and "pool_start (crawler_New cfg res) ips = Inr s0" and "(pool_step D)\<^sup>*\<^sup>* s0 s"
  shows "\<exists>lost. mset ips = mset (map r_IP (pl_out s)) + sum_list (map held (pl_workers s)) + mset (pl_in s) + mset (pl_unsent s) + lost \<and>
     size lost \<le> nat (cf_Concurrency (cw_cfg (crawler_New cfg res))) \<and>
     (\<not> pl_cancelled s \<longrightarrow> lost = {#} \<and> pl_unsent s = []) \<and>
     (pl_closed s \<longrightarrow> sum_list (map held (pl_workers s)) = {#})"
proof -
  have inv: "pool_inv ips (cw_cfg (crawler_New cfg res)) s"
    using pool_run.reachable_inv [OF assms(3) start_inv [OF assms(2,1)]] .
  then obtain lost where l: "mset ips = mset (map r_IP (pl_out s)) + total_of held s + mset (pl_in s) + mset (pl_unsent s) + lost"
    "size lost \<le> total_of exited s" "\<not> pl_cancelled s \<longrightarrow> lost = {#}"
    by (auto simp: pool_inv_def conserved_def)
  moreover have "size lost \<le> nat (cf_Concurrency (cw_cfg (crawler_New cfg res)))"
    using l(2) exited_le [of s] inv by (simp add: pool_inv_def)
  moreover have "\<not> pl_cancelled s \<longrightarrow> pl_unsent s = []" using inv by (simp add: pool_inv_def orderly_def)
  moreover have "pl_closed s \<longrightarrow> total_of held s = {#}"
    using inv total_of_exit [of s held] by (auto simp: pool_inv_def orderly_def held_def)
  ultimately show ?thesis unfolding total_of_def by blast
qed

text \<open>
  C8. A crawl that is not cancelled is complete: when the output channel closes, the records sent
  are exactly one per address of the input, each with the address, a status of the taxonomy,
  names exactly for \<open>has_ptr\<close> and a forward confirmation exactly when it was asked for; and the
  progress counters are exact.
\<close>
theorem crawl_complete:
  assumes "resolver_ok res" and "pool_start (crawler_New cfg res) ips = Inr s0" and "(pool_step D)\<^sup>*\<^sup>* s0 s"
    and "pl_closed s" and "\<not> pl_cancelled s"
  shows "mset (map r_IP (pl_out s)) = mset ips \<and> (\<forall>rec\<in>set (pl_out s). crawl_rec (cw_cfg (crawler_New cfg res)) rec) \<and>
     cw_processed (pl_crawler s) = of_nat (length ips) \<and>
     (\<forall>k<8. cw_byCode (pl_crawler s) ! k = of_nat (status_count k (pl_out s)))"
  using assms by (rule crawl_complete_run)

text \<open>
  C9. Every crawl ends. No run of the pool takes more than a fixed number of steps, a state whose
  output channel is still open always has a next step (no deadlock, no panic), and so the
  channel is closed at the end of every run, cancelled or not.
\<close>
theorem crawl_terminates:
  assumes "resolver_ok res" and "pool_start (crawler_New cfg res) ips = Inr s0" and "(pool_step D)\<^sup>*\<^sup>* s0 s"
  shows "(\<not> pl_closed s \<longrightarrow> (\<exists>s'. pool_step D s s')) \<and> (\<exists>s'. (pool_step D)\<^sup>*\<^sup>* s s' \<and> pl_closed s') \<and>
     (\<forall>k s'. (pool_step D ^^ k) s0 s' \<longrightarrow> k \<le> 6 * length ips + nat (cf_Concurrency (cw_cfg (crawler_New cfg res))) + 2)"
proof -
  have i0: "pool_inv ips (cw_cfg (crawler_New cfg res)) s0" using start_inv [OF assms(2,1)] .
  have inv: "pool_inv ips (cw_cfg (crawler_New cfg res)) s" using pool_run.reachable_inv [OF assms(3) i0] .
  have "total_of worker_rank s0 = nat (cf_Concurrency (cw_cfg (crawler_New cfg res)))"
    using assms(2) by (auto simp: pool_start_def total_of_def sum_list_replicate worker_rank_def split: if_splits)
  moreover have "pl_in s0 = ips" using assms(2) by (auto simp: pool_start_def split: if_splits)
  ultimately have "pool_rank s0 \<le> 6 * length ips + nat (cf_Concurrency (cw_cfg (crawler_New cfg res))) + 2"
    by (simp add: pool_rank_def)
  then have "k \<le> 6 * length ips + nat (cf_Concurrency (cw_cfg (crawler_New cfg res))) + 2" if "(pool_step D ^^ k) s0 s'" for k s'
    using pool_run.runs_bounded [OF that] by simp
  then show ?thesis using pool_run.progress [OF inv] pool_run.reaches_final [OF inv] by blast
qed

section \<open>Forward confirmation\<close>

text \<open>
  Reference definitions. The answers that the attempts of an A query for \<open>host\<close> get, the addresses in
  the message that the query settles on (none after a failure), and a sequence of such queries, one
  after the other, from one state of the resolver to another.
\<close>

definition a_answers :: "dns_lib \<Rightarrow> (nat \<Rightarrow> u64) \<Rightarrow> string \<Rightarrow> Resolver \<Rightarrow> nat \<Rightarrow> (string \<times> (net_err + dns_msg)) list" where
  "a_answers D oth host r n = answers D oth (dl_Fqdn D host) (dl_TypeA D) r n [0..<Suc (nat (rv_retries r))]"

definition settled_addrs :: "dns_lib \<Rightarrow> (string \<times> (net_err + dns_msg)) list \<Rightarrow> bytes list" where
  "settled_addrs D L = (case query_spec D L of (Some m, _, _, None) \<Rightarrow> a_addrs (m_Answer m) | _ \<Rightarrow> [])"

fun a_queries ::
  "dns_lib \<Rightarrow> (nat \<Rightarrow> u64) \<Rightarrow> Resolver \<Rightarrow> nat \<Rightarrow> (string \<times> (string \<times> (net_err + dns_msg)) list) list \<Rightarrow> Resolver \<Rightarrow> nat \<Rightarrow> bool" where
  "a_queries D oth r n [] r' n' \<longleftrightarrow> r' = r \<and> n' = n"
| "a_queries D oth r n ((host, L) # qs) r' n' \<longleftrightarrow> L = a_answers D oth host r n \<and>
     (let k = attempts_of (query_spec D L) in a_queries D oth (advanced r oth n k) (n + k) qs r' n')"

definition names_target :: "dns_lib \<Rightarrow> bytes \<Rightarrow> string \<times> (string \<times> (net_err + dns_msg)) list \<Rightarrow> bool" where
  "names_target D target q \<longleftrightarrow> (\<exists>a\<in>set (settled_addrs D (snd q)). ip_Equal a target)"

lemma LookupA_exact:
  assumes "resolver_ok r"
  shows "\<exists>x. LookupA D oth host r n =
     (let L = a_answers D oth host r n; k = attempts_of (query_spec D L) in Inr (x, advanced r oth n k, n + k)) \<and>
     (case x of Inl _ \<Rightarrow> [] | Inr addrs \<Rightarrow> addrs) = settled_addrs D (a_answers D oth host r n)"
proof -
  define L where "L = a_answers D oth host r n"
  define k where "k = attempts_of (query_spec D L)"
  have q: "query D oth (dl_Fqdn D host) (dl_TypeA D) r n = Inr (query_spec D L, advanced r oth n k, n + k)"
    using query_exact [OF assms] unfolding L_def k_def a_answers_def by (simp add: Let_def)
  have "L \<noteq> []" by (simp add: L_def a_answers_def answers_def del: upt_Suc)
  then show ?thesis
    unfolding L_def [symmetric] Let_def k_def [symmetric]
    by (cases rule: query_spec_cases [of L D]) (simp_all add: LookupA_def q settled_addrs_def)
qed

text \<open>The names are asked in order, up to and including the first one that names the target.\<close>

lemma confirm_loop_exact:
  "resolver_ok r \<Longrightarrow> \<exists>qs r' n'. confirm_loop D oth target names r n = Inr (\<exists>q\<in>set qs. names_target D target q, r', n') \<and>
     a_queries D oth r n qs r' n' \<and> prefix (map fst qs) names \<and>
     (\<forall>q\<in>set (butlast qs). \<not> names_target D target q) \<and>
     (map fst qs \<noteq> names \<longrightarrow> (\<exists>q\<in>set qs. names_target D target q))"
proof (induction names arbitrary: r n)
  case (Cons name names)
  define L where "L = a_answers D oth name r n"
  define k where "k = attempts_of (query_spec D L)"
  obtain x where x: "LookupA D oth name r n = Inr (x, advanced r oth n k, n + k)"
    "(case x of Inl _ \<Rightarrow> [] | Inr addrs \<Rightarrow> addrs) = settled_addrs D L"
    using LookupA_exact [OF Cons.prems, of D oth name n] unfolding Let_def L_def [symmetric] k_def [symmetric] by blast
  show ?case
  proof (cases "names_target D target (name, L)")
    case True
    then obtain addrs where "x = Inr addrs" "list_ex (\<lambda>a. ip_Equal a target) addrs"
      using x(2) by (cases x) (auto simp: names_target_def list_ex_iff)
    then have "confirm_loop D oth target (name # names) r n = Inr (True, advanced r oth n k, n + k)" using x(1) by simp
    then show ?thesis
      using True by (intro exI [of _ "[(name, L)]"]) (simp add: L_def k_def Let_def)
  next
    case False
    then have eq: "confirm_loop D oth target (name # names) r n = confirm_loop D oth target names (advanced r oth n k) (n + k)"
      using x by (cases x) (auto simp: names_target_def list_ex_iff)
    obtain qs r' n' where "confirm_loop D oth target names (advanced r oth n k) (n + k) = Inr (\<exists>q\<in>set qs. names_target D target q, r', n')"
      "a_queries D oth (advanced r oth n k) (n + k) qs r' n'" "prefix (map fst qs) names"
      "\<forall>q\<in>set (butlast qs). \<not> names_target D target q" "map fst qs \<noteq> names \<longrightarrow> (\<exists>q\<in>set qs. names_target D target q)"
      using Cons.IH [of "advanced r oth n k" "n + k"] Cons.prems by auto
    then show ?thesis
      using False unfolding eq by (intro exI [of _ "(name, L) # qs"] exI [of _ r'] exI [of _ n']) (auto simp: L_def k_def Let_def)
  qed
qed simp

text \<open>
  C27. Forward confirmation is exact, whatever the name servers answer and however other lookups
  interfere. For an address with names the crawler sends A queries for these names, one
  after the other, right after its PTR query: in order, up to and including the first name whose
  query settles on a message with the crawled address among its A records (in 4-byte or 16-byte
  form), and for all names if there is none. The record says \<open>true\<close> exactly if it met such a name; a
  failed or empty lookup neither ends the search nor counts as a match. What a query settles on is
  given by its attempts as for C25.
\<close>
theorem forward_confirm_exact:
  assumes "resolver_ok (cw_res c)" and "cf_FCrDNS (cw_cfg c)"
    and "process D oth latency ts ip c n = Inr (rec, c', n')" and "HasPTR (r_Status rec)" and "ParseIP ip = Some target"
  shows "\<exists>ptr r1 n1 qs. LookupPTR D oth latency ip (cw_res c) n = Inr (ptr, r1, n1) \<and> r_PTR rec = pt_Names ptr \<and>
     a_queries D oth r1 n1 qs (cw_res c') n' \<and>
     r_FCrDNS rec = Some (\<exists>q\<in>set qs. names_target D target q) \<and>
     prefix (map fst qs) (r_PTR rec) \<and> (\<forall>q\<in>set (butlast qs). \<not> names_target D target q) \<and>
     (r_FCrDNS rec = Some False \<longrightarrow> map fst qs = r_PTR rec)"
proof -
  obtain res r1 n1 where p: "LookupPTR D oth latency ip (cw_res c) n = Inr (res, r1, n1)" "resolver_ok r1"
    using LookupPTR_ok [OF assms(1)] by blast
  obtain qs r2 n2 where q: "confirm_loop D oth target (pt_Names res) r1 n1 = Inr (\<exists>q\<in>set qs. names_target D target q, r2, n2)"
    "a_queries D oth r1 n1 qs r2 n2" "prefix (map fst qs) (pt_Names res)"
    "\<forall>q\<in>set (butlast qs). \<not> names_target D target q" "map fst qs \<noteq> pt_Names res \<longrightarrow> (\<exists>q\<in>set qs. names_target D target q)"
    using confirm_loop_exact [OF p(2)] by blast
  have "pt_Status res = r_Status rec"
    using assms(3) p(1) by (auto simp: process_def Let_def split: if_splits sum.splits)
  then have "HasPTR (pt_Status res)" using assms(4) by simp
  then have "r_PTR rec = pt_Names res" "r_FCrDNS rec = Some (\<exists>q\<in>set qs. names_target D target q)" "cw_res c' = r2" "n' = n2"
    using assms(2,3,5) p(1) q(1) by (auto simp: process_def Let_def)
  then show ?thesis using p(1) q by (intro exI [of _ res] exI [of _ r1] exI [of _ n1] exI [of _ qs]) auto
qed

section \<open>Where the names of a record come from\<close>

lemma query_loop_answer:
  "query_loop D oth name qtype left a lastResp lastErr server r n = Inr ((Some m, s, k, e), r', n') \<Longrightarrow>
     lastResp = Some m \<or> (\<exists>i srv. dl_Exchange D i name qtype srv = Inr m)"
proof (induction left arbitrary: a lastResp lastErr server r n)
  case 0
  then show ?case by (auto split: option.splits)
next
  case (Suc left)
  obtain srv r1 where p: "pick (int a) (r\<lparr>rv_counter := rv_counter r + oth n\<rparr>) = Inr (srv, r1)"
    using Suc.prems by (auto split: sum.splits)
  show ?case
  proof (cases "dl_Exchange D n name qtype srv")
    case (Inl e1)
    then show ?thesis using Suc.IH [of "a + 1" lastResp "Some e1" srv r1 "n + 1"] Suc.prems p by simp
  next
    case (Inr m1)
    show ?thesis
    proof (cases "m_Rcode m1 = dl_RcodeSuccess D \<or> m_Rcode m1 = dl_RcodeNameError D")
      case True
      then show ?thesis using Inr Suc.prems p by auto
    next
      case False
      define e1 where "e1 = \<lparr>ne_Deadline = False, ne_Timeout = False, ne_Error = ''rcode='' @ dl_RcodeToString D (m_Rcode m1)\<rparr>"
      have "query_loop D oth name qtype left (a + 1) (Some m1) (Some e1) srv r1 (n + 1) = Inr ((Some m, s, k, e), r', n')"
        using False Inr Suc.prems p by (simp add: e1_def)
      then have "Some m1 = Some m \<or> (\<exists>i srv. dl_Exchange D i name qtype srv = Inr m)" by (rule Suc.IH)
      then show ?thesis using Inr by auto
    qed
  qed
qed

lemma query_answer:
  "query D oth name qtype r n = Inr ((Some m, s, k, e), r', n') \<Longrightarrow> \<exists>i srv. dl_Exchange D i name qtype srv = Inr m"
  using query_loop_answer by (fastforce simp: query_def)

text \<open>The names of a result are names of PTR records that some server sent.\<close>

definition dns_names :: "dns_lib \<Rightarrow> string set" where
  "dns_names D = {nm. \<exists>i name srv m. dl_Exchange D i name (dl_TypePTR D) srv = Inr m \<and> nm \<in> set (ptr_names (m_Answer m))}"

lemma LookupPTR_names:
  assumes "LookupPTR D oth latency ip r n = Inr (res, r', n')"
  shows "set (pt_Names res) \<subseteq> dns_names D"
proof (cases "dl_ReverseAddr D ip")
  case (Inr arpa)
  obtain resp s k e r1 n1 where q: "query D oth arpa (dl_TypePTR D) r n = Inr ((resp, s, k, e), r1, n1)"
    using assms Inr by (auto simp: LookupPTR_def split: sum.splits)
  show ?thesis
  proof (cases "e = None \<and> resp \<noteq> None")
    case True
    then obtain m where m: "resp = Some m" "e = None" by blast
    then have "pt_Names res = ptr_names (m_Answer m) \<or> pt_Names res = []"
      using assms Inr q by (auto simp: LookupPTR_def Let_def split: if_splits)
    moreover have "set (ptr_names (m_Answer m)) \<subseteq> dns_names D"
      using query_answer [OF q [unfolded m]] unfolding dns_names_def by blast
    ultimately show ?thesis by auto
  next
    case False
    then have "pt_Names res = []" using assms Inr q by (auto simp: LookupPTR_def Let_def split: option.splits)
    then show ?thesis by simp
  qed
qed (use assms in \<open>auto simp: LookupPTR_def\<close>)

lemma process_names:
  assumes "process D oth latency ts ip c n = Inr (rec, c', n')"
  shows "set (r_PTR rec) \<subseteq> dns_names D"
proof -
  obtain res r1 n1 where p: "LookupPTR D oth latency ip (cw_res c) n = Inr (res, r1, n1)"
    using assms by (auto simp: process_def split: sum.splits)
  then have "r_PTR rec = pt_Names res" using assms by (auto simp: process_def Let_def split: sum.splits if_splits)
  then show ?thesis using LookupPTR_names [OF p] by simp
qed

definition names_from :: "string set \<Rightarrow> pool \<Rightarrow> bool" where
  "names_from N s \<longleftrightarrow> (\<forall>rec. rec \<in> set (pl_out s) \<or> {W_Tally rec, W_Code rec, W_Send rec} \<inter> set (pl_workers s) \<noteq> {} \<longrightarrow> set (r_PTR rec) \<subseteq> N)"

lemma step_names: "pool_step D s s' \<Longrightarrow> names_from (dns_names D) s \<Longrightarrow> names_from (dns_names D) s'"
proof (induction rule: pool_step.induct)
  case (process s i ip oth latency ts n rec c n')
  then show ?case using process_names [OF process(2)] by (auto simp: names_from_def dest!: set_worker_mem)
qed (auto simp: names_from_def dest!: set_worker_mem worker_at_mem split: if_splits)

lemma reachable_names:
  assumes "pool_start crw ips = Inr s0" and "(pool_step D)\<^sup>*\<^sup>* s0 s"
  shows "\<forall>rec\<in>set (pl_out s). set (r_PTR rec) \<subseteq> dns_names D"
proof -
  have "names_from (dns_names D) s0" using assms(1) by (auto simp: names_from_def pool_start_def split: if_splits)
  with assms(2) have "names_from (dns_names D) s" by (induction rule: rtranclp_induct) (auto intro: step_names)
  then show ?thesis by (auto simp: names_from_def)
qed

section \<open>Runs that exist\<close>

lemma worker_round:
  assumes "worker_at s i W_Idle" and "pl_in s = ip # rest" and "cf_QPS (cw_cfg (pl_crawler s)) \<le> 0"
    and "resolver_ok (cw_res (pl_crawler s))"
  shows "\<exists>rec c. (pool_step D)\<^sup>*\<^sup>* s (set_worker i (W_Send rec) (s\<lparr>pl_in := rest, pl_crawler := c\<rparr>)) \<and>
     (pool_step D)\<^sup>*\<^sup>* s (s\<lparr>pl_in := rest, pl_out := pl_out s @ [rec], pl_crawler := c\<rparr>) \<and> r_IP rec = ip \<and>
     cw_cfg c = cw_cfg (pl_crawler s) \<and> resolver_ok (cw_res c)"
proof -
  have i: "i < length (pl_workers s)" "(pl_workers s)[i := W_Idle] = pl_workers s"
    using assms(1) by (auto simp: worker_at_def list_update_same_conv)
  define s1 where "s1 = set_worker i (W_Got ip) (s\<lparr>pl_in := rest\<rparr>)"
  have st1: "pool_step D s s1" using pool_step.receive [OF assms(1,2), of D] assms(3) by (simp add: s1_def)
  have w1: "worker_at s1 i (W_Got ip)" using i by (simp add: s1_def worker_at_def set_worker_def)
  have cr: "pl_crawler s1 = pl_crawler s" by (simp add: s1_def)
  obtain rec r' n' where p: "process D (\<lambda>_. 0) 0 [] ip (pl_crawler s1) 0 = Inr (rec, (pl_crawler s)\<lparr>cw_res := r'\<rparr>, n')"
    "resolver_ok r'" "r_IP rec = ip"
    using process_ok [OF assms(4)] cr by metis
  define c where "c = tally_code (r_Status rec) (tally_processed ((pl_crawler s)\<lparr>cw_res := r'\<rparr>))"
  define st where "st w c = set_worker i w (s\<lparr>pl_in := rest, pl_crawler := c\<rparr>)" for w c
  have w: "worker_at (st w c) i w" for w c using i by (simp add: st_def worker_at_def set_worker_def)
  have mv: "set_worker i w' ((st w c)\<lparr>pl_crawler := c'\<rparr>) = st w' c'" "pl_crawler (st w c) = c" for w w' c c'
    by (simp_all add: st_def set_worker_def)
  define s2 where "s2 = st (W_Send rec) c"
  have "pool_step D s1 (st (W_Tally rec) ((pl_crawler s)\<lparr>cw_res := r'\<rparr>))"
    using pool_step.process [OF w1 p(1)] by (simp add: s1_def st_def set_worker_def)
  moreover have "pool_step D (st (W_Tally rec) ((pl_crawler s)\<lparr>cw_res := r'\<rparr>)) (st (W_Code rec) (tally_processed ((pl_crawler s)\<lparr>cw_res := r'\<rparr>)))"
    using pool_step.processed [OF w] by (simp add: mv)
  ultimately have "(pool_step D)\<^sup>*\<^sup>* s1 (st (W_Code rec) (tally_processed ((pl_crawler s)\<lparr>cw_res := r'\<rparr>)))"
    by (meson r_into_rtranclp rtranclp_trans)
  moreover have "pool_step D (st (W_Code rec) (tally_processed ((pl_crawler s)\<lparr>cw_res := r'\<rparr>))) s2"
    using pool_step.coded [OF w] by (simp add: mv s2_def c_def)
  ultimately have st2: "(pool_step D)\<^sup>*\<^sup>* s1 s2" by (rule rtranclp.rtrancl_into_rtrancl)
  have w2: "worker_at s2 i (W_Send rec)" using w by (simp add: s2_def)
  have "set_worker i W_Idle (s2\<lparr>pl_out := pl_out s2 @ [rec]\<rparr>) = s\<lparr>pl_in := rest, pl_out := pl_out s @ [rec], pl_crawler := c\<rparr>"
    using i(2) by (cases s) (simp add: s2_def st_def set_worker_def)
  then have st3: "pool_step D s2 (s\<lparr>pl_in := rest, pl_out := pl_out s @ [rec], pl_crawler := c\<rparr>)"
    using pool_step.send [OF w2, of D] by simp
  have r2: "(pool_step D)\<^sup>*\<^sup>* s s2" using st1 st2 by (rule converse_rtranclp_into_rtranclp)
  then have "(pool_step D)\<^sup>*\<^sup>* s (s\<lparr>pl_in := rest, pl_out := pl_out s @ [rec], pl_crawler := c\<rparr>)"
    using st3 by (rule rtranclp.rtrancl_into_rtrancl)
  moreover have "cw_cfg c = cw_cfg (pl_crawler s)" "resolver_ok (cw_res c)" using p(2) by (simp_all add: c_def tally_defs)
  ultimately show ?thesis
    using r2 p(3) unfolding s2_def st_def by blast
qed

lemma worker_drains:
  "worker_at s i W_Idle \<Longrightarrow> cf_QPS (cw_cfg (pl_crawler s)) \<le> 0 \<Longrightarrow> resolver_ok (cw_res (pl_crawler s)) \<Longrightarrow> pl_in s = xs \<Longrightarrow>
     \<exists>out c. (pool_step D)\<^sup>*\<^sup>* s (s\<lparr>pl_in := [], pl_out := pl_out s @ out, pl_crawler := c\<rparr>) \<and> map r_IP out = xs \<and>
       resolver_ok (cw_res c)"
proof (induction xs arbitrary: s)
  case Nil
  then have "s\<lparr>pl_in := [], pl_out := pl_out s @ [], pl_crawler := pl_crawler s\<rparr> = s" by (cases s) simp
  then show ?case using Nil(3) by (intro exI [of _ "[]"] exI [of _ "pl_crawler s"]) simp
next
  case (Cons ip rest)
  obtain rec c where r: "(pool_step D)\<^sup>*\<^sup>* s (s\<lparr>pl_in := rest, pl_out := pl_out s @ [rec], pl_crawler := c\<rparr>)" "r_IP rec = ip"
    "cw_cfg c = cw_cfg (pl_crawler s)" "resolver_ok (cw_res c)"
    using worker_round [OF Cons.prems(1,4,2,3)] by blast
  let ?s = "s\<lparr>pl_in := rest, pl_out := pl_out s @ [rec], pl_crawler := c\<rparr>"
  obtain out c' where "(pool_step D)\<^sup>*\<^sup>* ?s (?s\<lparr>pl_in := [], pl_out := pl_out ?s @ out, pl_crawler := c'\<rparr>)" "map r_IP out = rest"
    "resolver_ok (cw_res c')"
    using Cons.IH [of ?s] Cons.prems r(3,4) by (auto simp: worker_at_def)
  then show ?case
    using r(1,2) by (intro exI [of _ "rec # out"] exI [of _ c']) (auto intro: rtranclp_trans)
qed

text \<open>With the input drained and nothing held, the output does not change any more.\<close>

definition quiet :: "pool \<Rightarrow> bool" where
  "quiet s \<longleftrightarrow> pl_in s = [] \<and> set (pl_workers s) \<subseteq> {W_Idle, W_Exit}"

lemma step_quiet: "pool_step D s s' \<Longrightarrow> quiet s \<Longrightarrow> quiet s' \<and> pl_out s' = pl_out s \<and> pl_unsent s' = pl_unsent s"
  by (induction rule: pool_step.induct) (auto simp: quiet_def dest!: worker_at_mem set_worker_mem)

lemma steps_quiet: "(pool_step D)\<^sup>*\<^sup>* s s' \<Longrightarrow> quiet s \<Longrightarrow> quiet s' \<and> pl_out s' = pl_out s \<and> pl_unsent s' = pl_unsent s"
  by (induction rule: rtranclp_induct) (auto dest: step_quiet)

text \<open>
  A cancelled run may lose the very first address while every later one has been recorded: one
  worker is still busy with it when the others have finished the input.
\<close>

lemma lose_first:
  assumes "resolver_ok res" and st: "pool_start (crawler_New cfg res) (ip # rest) = Inr s0"
    and "2 \<le> cf_Concurrency cfg" and q: "cf_QPS cfg \<le> 0"
  shows "\<exists>s. (pool_step D)\<^sup>*\<^sup>* s0 s \<and> pl_closed s \<and> map r_IP (pl_out s) = rest \<and> pl_in s = [] \<and> pl_unsent s = []"
proof -
  define k where "k = nat (cf_Concurrency cfg) - 2"
  have "nat (cf_Concurrency cfg) = Suc (Suc k)" using assms(3) by (simp add: k_def)
  then have s0: "pl_in s0 = ip # rest" "pl_workers s0 = W_Idle # W_Idle # replicate k W_Idle" "pl_out s0 = []"
    "\<not> pl_cancelled s0" "pl_unsent s0 = []" "pl_crawler s0 = crawler_New cfg res"
    using st assms(3) by (auto simp: pool_start_def crawler_New_def Let_def split: if_splits)
  have cr: "cf_QPS (cw_cfg (pl_crawler s0)) \<le> 0" "resolver_ok (cw_res (pl_crawler s0))"
    using q assms(1) by (simp_all add: s0(6) crawler_New_def Let_def)
  have w0: "worker_at s0 0 W_Idle" by (simp add: worker_at_def s0(2))
  obtain rec c where r: "(pool_step D)\<^sup>*\<^sup>* s0 (set_worker 0 (W_Send rec) (s0\<lparr>pl_in := rest, pl_crawler := c\<rparr>))"
    "cw_cfg c = cw_cfg (pl_crawler s0)" "resolver_ok (cw_res c)"
    using worker_round [OF w0 s0(1) cr] by blast
  define s1 where "s1 = set_worker 0 (W_Send rec) (s0\<lparr>pl_in := rest, pl_crawler := c\<rparr>)"
  have w1: "worker_at s1 1 W_Idle" by (simp add: s1_def worker_at_def set_worker_def s0(2))
  have s1: "pl_in s1 = rest" "pl_out s1 = []" "pl_unsent s1 = []" "\<not> pl_cancelled s1" "pl_crawler s1 = c"
    "pl_workers s1 = W_Send rec # W_Idle # replicate k W_Idle"
    by (simp_all add: s1_def s0 set_worker_def)
  obtain out c' where o: "(pool_step D)\<^sup>*\<^sup>* s1 (s1\<lparr>pl_in := [], pl_out := pl_out s1 @ out, pl_crawler := c'\<rparr>)" "map r_IP out = rest"
    using worker_drains [OF w1 _ _ s1(1), of D] r(2,3) cr(1) s1(5) by auto
  define s2 where "s2 = s1\<lparr>pl_in := [], pl_out := out, pl_crawler := c'\<rparr>"
  define s3 where "s3 = s2\<lparr>pl_cancelled := True\<rparr>"
  have st3: "pool_step D s2 s3" using pool_step.cancel [of s2 D] s1(4) by (simp add: s2_def s3_def)
  have w3: "worker_at s3 0 (W_Send rec)" by (simp add: worker_at_def s3_def s2_def s1(6))
  define s4 where "s4 = set_worker 0 W_Exit s3"
  have st4: "pool_step D s3 s4" using pool_step.send_cancelled [OF w3] by (simp add: s4_def s3_def)
  have r4: "(pool_step D)\<^sup>*\<^sup>* s0 s4"
    using r(1) o(1) st3 st4 by (simp add: s1_def [symmetric] s1(2) s2_def [symmetric])
  have "quiet s4" by (auto simp: quiet_def s4_def s3_def s2_def s1(6) set_worker_def)
  obtain s where s: "(pool_step D)\<^sup>*\<^sup>* s4 s" "pl_closed s"
    using pool_run.reaches_final [OF pool_run.reachable_inv [OF r4 start_inv [OF st assms(1)]]] by blast
  have "pl_out s4 = out" "pl_unsent s4 = []" by (simp_all add: s4_def s3_def s2_def s1)
  then show ?thesis
    using s steps_quiet [OF s(1) \<open>quiet s4\<close>] r4 o(2) by (auto simp: quiet_def intro: rtranclp_trans)
qed

lemma all_exit:
  "pl_in s = [] \<Longrightarrow> pl_workers s = replicate j W_Exit @ replicate k W_Idle \<Longrightarrow>
     (pool_step D)\<^sup>*\<^sup>* s (s\<lparr>pl_workers := replicate (j + k) W_Exit\<rparr>)"
proof (induction k arbitrary: s j)
  case 0
  then have "s\<lparr>pl_workers := replicate j W_Exit\<rparr> = s" by (cases s) simp
  then show ?case by simp
next
  case (Suc k)
  define s1 where "s1 = set_worker j W_Exit s"
  have "worker_at s j W_Idle" using Suc.prems(2) by (simp add: worker_at_def nth_append)
  then have "pool_step D s s1" using pool_step.input_closed Suc.prems(1) by (simp add: s1_def)
  moreover have "pl_workers s1 = replicate (Suc j) W_Exit @ replicate k W_Idle"
  proof -
    have "pl_workers s1 = replicate j W_Exit @ W_Exit # replicate k W_Idle"
      using Suc.prems(2) by (simp add: s1_def set_worker_def list_update_append del: replicate_app_Cons_same)
    then show ?thesis by (simp add: replicate_app_Cons_same)
  qed
  then have "(pool_step D)\<^sup>*\<^sup>* s1 (s1\<lparr>pl_workers := replicate (Suc j + k) W_Exit\<rparr>)"
    using Suc.IH [of s1 "Suc j"] Suc.prems(1) by (simp add: s1_def)
  moreover have "s1\<lparr>pl_workers := replicate (Suc j + k) W_Exit\<rparr> = s\<lparr>pl_workers := replicate (j + Suc k) W_Exit\<rparr>"
    by (simp add: s1_def set_worker_def)
  ultimately show ?case by (metis converse_rtranclp_into_rtranclp)
qed

text \<open>A run up to the point where all workers have returned, and to its end.\<close>

lemma stopped_run:
  assumes "resolver_ok res" and st: "pool_start (crawler_New cfg res) ips = Inr s0" and q: "cf_QPS cfg \<le> 0"
  shows "\<exists>s. (pool_step D)\<^sup>*\<^sup>* s0 s \<and> list_all ((=) W_Exit) (pl_workers s) \<and> \<not> pl_closed s \<and> \<not> pl_cancelled s \<and> pl_unsent s = []"
proof -
  define k where "k = nat (cf_Concurrency (cw_cfg (crawler_New cfg res)))"
  have k: "0 < k" by (simp add: k_def crawler_New_def Let_def)
  have s0: "pl_workers s0 = replicate k W_Idle" "\<not> pl_cancelled s0" "pl_unsent s0 = []" "\<not> pl_closed s0" "pl_crawler s0 = crawler_New cfg res"
    using st by (auto simp: pool_start_def k_def split: if_splits)
  have w: "worker_at s0 0 W_Idle" "cf_QPS (cw_cfg (pl_crawler s0)) \<le> 0" "resolver_ok (cw_res (pl_crawler s0))"
    using k q assms(1) by (simp_all add: worker_at_def s0 crawler_New_def Let_def)
  obtain out c where o: "(pool_step D)\<^sup>*\<^sup>* s0 (s0\<lparr>pl_in := [], pl_out := pl_out s0 @ out, pl_crawler := c\<rparr>)"
    using worker_drains [OF w refl] by blast
  define s1 where "s1 = s0\<lparr>pl_in := [], pl_out := pl_out s0 @ out, pl_crawler := c\<rparr>"
  define s2 where "s2 = s1\<lparr>pl_workers := replicate (0 + k) W_Exit\<rparr>"
  have "(pool_step D)\<^sup>*\<^sup>* s1 s2" unfolding s2_def by (intro all_exit) (simp_all add: s1_def s0)
  then have "(pool_step D)\<^sup>*\<^sup>* s0 s2" using o unfolding s1_def [symmetric] by (rule rtranclp_trans [rotated])
  moreover have "list_all ((=) W_Exit) (pl_workers s2)" "\<not> pl_closed s2" "\<not> pl_cancelled s2" "pl_unsent s2 = []"
    by (simp_all add: s2_def s1_def s0 list_all_iff)
  ultimately show ?thesis by blast
qed

lemma complete_run:
  assumes "resolver_ok res" and "pool_start (crawler_New cfg res) ips = Inr s0" and "cf_QPS cfg \<le> 0"
  shows "\<exists>s. (pool_step D)\<^sup>*\<^sup>* s0 s \<and> pl_closed s \<and> \<not> pl_cancelled s \<and> pl_unsent s = []"
proof -
  obtain s where s: "(pool_step D)\<^sup>*\<^sup>* s0 s" "list_all ((=) W_Exit) (pl_workers s)" "\<not> pl_closed s" "\<not> pl_cancelled s" "pl_unsent s = []"
    using stopped_run [OF assms] by blast
  have "(pool_step D)\<^sup>*\<^sup>* s0 (s\<lparr>pl_closed := True\<rparr>)"
    using s(1) pool_step.finish [OF s(3,2)] by (rule rtranclp.rtrancl_into_rtrancl)
  then show ?thesis using s(4,5) by (intro exI [of _ "s\<lparr>pl_closed := True\<rparr>"]) simp
qed

section \<open>Witnesses\<close>

definition crawl_cfg_example :: Config where
  "crawl_cfg_example = \<lparr>cf_Concurrency = 2, cf_FCrDNS = True, cf_QPS = 0, cf_ProgressInt = 0\<rparr>"

abbreviation crawler_example :: Crawler where
  "crawler_example \<equiv> crawler_New crawl_cfg_example (resolver_example [''c:53''])"

lemma crawler_example_ok: "resolver_ok (resolver_example [''c:53''])" "cf_Concurrency (cw_cfg crawler_example) = 2"
  by (simp_all add: resolver_ok_def resolver_example_def crawler_New_def crawl_cfg_example_def)

definition pool_example :: "string list \<Rightarrow> pool" where
  "pool_example ips = \<lparr>pl_in = ips, pl_unsent = [], pl_workers = [W_Idle, W_Idle], pl_out = [],
     pl_cancelled = False, pl_closed = False, pl_crawler = crawler_example\<rparr>"

lemma pool_start_example: "pool_start crawler_example ips = Inr (pool_example ips)"
  by (simp add: pool_start_def pool_example_def crawler_New_def crawl_cfg_example_def numeral_2_eq_2)

lemma complete_run_example:
  "\<exists>s. (pool_step dns_example)\<^sup>*\<^sup>* (pool_example ips) s \<and> pl_closed s \<and> \<not> pl_cancelled s"
  using complete_run [OF crawler_example_ok(1) pool_start_example] by (fastforce simp: crawl_cfg_example_def)

lemma stopped_run_example:
  "\<exists>s. (pool_step dns_example)\<^sup>*\<^sup>* (pool_example ips) s \<and> list_all ((=) W_Exit) (pl_workers s) \<and> \<not> pl_closed s \<and> \<not> pl_cancelled s"
  using stopped_run [OF crawler_example_ok(1) pool_start_example] by (fastforce simp: crawl_cfg_example_def)

theorem pool_conserves_witness:
  "\<exists>s lost. (pool_step dns_example)\<^sup>*\<^sup>* (pool_example [''1.2.3.4'', ''5.6.7.8'']) s \<and> pl_closed s \<and>
     {#''1.2.3.4'', ''5.6.7.8''#} = mset (map r_IP (pl_out s)) + mset (pl_in s) + lost \<and> size lost \<le> 2"
proof -
  obtain s where s: "(pool_step dns_example)\<^sup>*\<^sup>* (pool_example [''1.2.3.4'', ''5.6.7.8'']) s" "pl_closed s" "\<not> pl_cancelled s"
    using complete_run_example by blast
  show ?thesis
    using pool_conserves [OF crawler_example_ok(1) pool_start_example s(1)] s crawler_example_ok(2)
    by (intro exI [of _ s]) auto
qed

theorem crawl_complete_witness:
  "\<exists>s. (pool_step dns_example)\<^sup>*\<^sup>* (pool_example [''1.2.3.4'', ''5.6.7.8'']) s \<and>
     mset (map r_IP (pl_out s)) = {#''1.2.3.4'', ''5.6.7.8''#} \<and> cw_processed (pl_crawler s) = 2"
proof -
  obtain s where s: "(pool_step dns_example)\<^sup>*\<^sup>* (pool_example [''1.2.3.4'', ''5.6.7.8'']) s" "pl_closed s" "\<not> pl_cancelled s"
    using complete_run_example by blast
  show ?thesis
    using crawl_complete [OF crawler_example_ok(1) pool_start_example s] s(1) by (intro exI [of _ s]) simp
qed

theorem crawl_terminates_witness:
  "(\<exists>s'. (pool_step dns_example)\<^sup>*\<^sup>* (pool_example [''1.2.3.4'']) s' \<and> pl_closed s') \<and>
   (\<nexists>s'. (pool_step dns_example ^^ 11) (pool_example [''1.2.3.4'']) s')"
proof -
  note t = crawl_terminates [OF crawler_example_ok(1) pool_start_example rtranclp.rtrancl_refl, of "[''1.2.3.4'']" dns_example]
  have "k \<le> 10" if "(pool_step dns_example ^^ k) (pool_example [''1.2.3.4'']) s'" for k s'
    using t that crawler_example_ok(2) by fastforce
  from this [of 11] show ?thesis using t by auto
qed

text \<open>
  One address and three servers, of which one times out and one fails: both queries of the address
  are answered at their third attempt.
\<close>

abbreviation resolver_three :: Resolver where
  "resolver_three \<equiv> resolver_example [''c:53'', ''b:53'', ''a:53'']"

definition crawler_three :: Crawler where
  "crawler_three = crawler_New crawl_cfg_example resolver_three"

lemma server_three:
  assumes "k + 2 * a + 2 < 2 ^ 64"
  shows "server_at (advanced resolver_three (\<lambda>_. 0) i k) (\<lambda>_. 0) n a = [''c:53'', ''b:53'', ''a:53''] ! ((k + 2 * a + 2) mod 3)"
proof -
  have "rv_counter (advanced resolver_three (\<lambda>_. 0) i k) + (\<Sum>j<Suc a. 0) + of_nat (2 * a + 1) = of_nat (k + 2 * a + 2)"
    by (simp add: advanced_def resolver_example_def)
  then have "unat (rv_counter (advanced resolver_three (\<lambda>_. 0) i k) + (\<Sum>j<Suc a. 0) + of_nat (2 * a + 1)) = k + 2 * a + 2"
    using unat_of_nat_u64 [OF assms] by (simp only:)
  moreover have "rv_servers (advanced resolver_three (\<lambda>_. 0) i k) = [''c:53'', ''b:53'', ''a:53'']" by (simp add: resolver_example_def)
  moreover have "length [''c:53'', ''b:53'', ''a:53''] = 3" by simp
  ultimately show ?thesis unfolding server_at_def by (simp only:)
qed

lemma answers_three:
  assumes "k mod 3 = 0" "k < 1000"
  shows "answers dns_example (\<lambda>_. 0) name qtype (advanced resolver_three (\<lambda>_. 0) i k) n [0..<Suc (nat 2)] =
     [(''a:53'', Inl \<lparr>ne_Deadline = True, ne_Timeout = True, ne_Error = ''i/o timeout''\<rparr>),
      (''b:53'', Inr \<lparr>m_Rcode = 2, m_Answer = []\<rparr>),
      (''c:53'', Inr \<lparr>m_Rcode = 0, m_Answer = [if qtype = 12 then RR_PTR ''h.example.'' else RR_A [1, 2, 3, 4]]\<rparr>)]"
proof -
  have m: "(k + 2 * 0 + 2) mod 3 = 2" "(k + 2 * 1 + 2) mod 3 = 1" "(k + 2 * 2 + 2) mod 3 = 0" using assms(1) by presburger+
  have "[0..<Suc (nat 2)] = [0, 1, 2]" by code_simp
  then show ?thesis
    using server_three [of k 0 i n] server_three [of k 1 i n] server_three [of k 2 i n] assms(2)
    unfolding m by (simp add: answers_def dns_example_def)
qed

lemma query_spec_three:
  "query_spec dns_example [(s1, Inl e), (s2, Inr \<lparr>m_Rcode = 2, m_Answer = []\<rparr>), (s3, Inr \<lparr>m_Rcode = 0, m_Answer = ans\<rparr>)] =
     (Some \<lparr>m_Rcode = 0, m_Answer = ans\<rparr>, s3, 3, None)"
  by (simp add: query_spec_def definitive_def dns_example_def)

lemma three_ok: "resolver_ok resolver_three" "rv_retries resolver_three = 2" "advanced resolver_three (\<lambda>_. 0) 0 0 = resolver_three"
  by (simp_all add: resolver_ok_def resolver_example_def advanced_def)

lemma LookupPTR_example:
  "\<exists>res. LookupPTR dns_example (\<lambda>_. 0) 5 ''1.2.3.4'' resolver_three 0 = Inr (res, advanced resolver_three (\<lambda>_. 0) 0 3, 3) \<and>
     pt_Status res = StatusHasPTR \<and> pt_Names res = [''h.example'']"
proof -
  have "query dns_example (\<lambda>_. 0) ''1.2.3.4'' 12 resolver_three 0 =
      Inr ((Some \<lparr>m_Rcode = 0, m_Answer = [RR_PTR ''h.example.'']\<rparr>, ''c:53'', 3, None), advanced resolver_three (\<lambda>_. 0) 0 3, 3)"
    using query_exact [OF three_ok(1), of dns_example "\<lambda>_. 0" "''1.2.3.4''" 12 0] answers_three [of 0 "''1.2.3.4''" 12 0 0]
    unfolding three_ok(2,3) by (simp add: query_spec_three attempts_of_def Let_def)
  then show ?thesis
    by (simp add: LookupPTR_def dns_example_def Let_def ptr_names_def trim_suffix_def suffix_def)
qed

lemma a_answers_example:
  "settled_addrs dns_example (a_answers dns_example (\<lambda>_. 0) ''h.example'' (advanced resolver_three (\<lambda>_. 0) 0 3) 3) = [[1, 2, 3, 4]]"
proof -
  have "dl_TypeA dns_example = 1" by (simp add: dns_example_def)
  then show ?thesis
    unfolding a_answers_def settled_addrs_def using answers_three [of 3]
    by (simp add: three_ok(2) query_spec_three a_addrs_def del: upt_Suc)
qed

theorem forward_confirm_exact_witness:
  "\<exists>rec c' n'. process dns_example (\<lambda>_. 0) 5 [] ''1.2.3.4'' crawler_three 0 = Inr (rec, c', n') \<and> r_FCrDNS rec = Some True"
proof -
  have c: "cw_res crawler_three = resolver_three" "cf_FCrDNS (cw_cfg crawler_three)"
    by (simp_all add: crawler_three_def crawler_New_def crawl_cfg_example_def)
  have ok: "resolver_ok (cw_res crawler_three)" unfolding c(1) by (simp add: resolver_ok_def resolver_example_def)
  obtain rec c' n' where p: "process dns_example (\<lambda>_. 0) 5 [] ''1.2.3.4'' crawler_three 0 = Inr (rec, c', n')"
    using process_ok [OF ok] by blast
  have h: "r_Status rec = StatusHasPTR"
    using p LookupPTR_example c by (auto simp: process_def Let_def split: sum.splits if_splits)
  have ip: "ParseIP ''1.2.3.4'' = Some (v4_in_v6 @ [1, 2, 3, 4])" by code_simp
  obtain ptr r1 n1 qs where q: "LookupPTR dns_example (\<lambda>_. 0) 5 ''1.2.3.4'' resolver_three 0 = Inr (ptr, r1, n1)"
    "r_PTR rec = pt_Names ptr" "a_queries dns_example (\<lambda>_. 0) r1 n1 qs (cw_res c') n'"
    "r_FCrDNS rec = Some (\<exists>q\<in>set qs. names_target dns_example (v4_in_v6 @ [1, 2, 3, 4]) q)"
    "r_FCrDNS rec = Some False \<longrightarrow> map fst qs = r_PTR rec"
    using forward_confirm_exact [OF ok c(2) p _ ip] h unfolding c(1) HasPTR_def by blast
  have "r_FCrDNS rec = Some True"
  proof (rule ccontr)
    assume "r_FCrDNS rec \<noteq> Some True"
    then have "r_FCrDNS rec = Some False" using q(4) by auto
    then have "map fst qs = [''h.example'']" using q(1,2,5) LookupPTR_example by auto
    then obtain L where "qs = [(''h.example'', L)]" by (cases qs) auto
    moreover from this have "settled_addrs dns_example L = [[1, 2, 3, 4]]"
      using q(1,3) LookupPTR_example a_answers_example by (auto simp: Let_def)
    ultimately show False
      using q(4) \<open>r_FCrDNS rec = Some False\<close> by (simp add: names_target_def ip_Equal_def v4_in_v6_def)
  qed
  then show ?thesis using p by blast
qed

end
