(* ===== verification/Sorted_Table.thy ===== *)
theory Sorted_Table
  imports Rdns_Prelude
begin

text \<open>
  The in-memory join table that merge and compare share: \<open>sort.Search\<close> over a slice sorted by
  address, and the in-place removal of adjacent duplicates. The locales are the contract
  of such a table towards the code that joins a scan against it: \<open>obs_table\<close> (every address of
  the loaded pass is represented once, by one of its observations) and \<open>first_table\<close> (by its
  first observation). Merge provides the second, compare, whose sort is not stable, the first.
\<close>

section \<open>Definitions\<close>

text \<open>\<open>sort.Search\<close>: binary search on the half-open interval.\<close>

function search_loop :: "(nat \<Rightarrow> bool) \<Rightarrow> nat \<Rightarrow> nat \<Rightarrow> nat" where
  "search_loop f i j =
     (if i < j then
        (let h = (i + j) div 2 in
         if \<not> f h then search_loop f (h + 1) j else search_loop f i h)
      else i)"
  by pat_completeness auto
termination
  by (relation "measure (\<lambda>(f, i, j). j - i)") auto

declare search_loop.simps [simp del]

definition sort_Search :: "nat \<Rightarrow> (nat \<Rightarrow> bool) \<Rightarrow> nat" where
  "sort_Search n f = search_loop f 0 n"

text \<open>The lookup both joins perform: the index of the entry with this address, if there is one.\<close>

definition lookup_ip :: "('e \<Rightarrow> u32) \<Rightarrow> 'e list \<Rightarrow> u32 \<Rightarrow> nat option" where
  "lookup_ip key ents ip =
     (let i = sort_Search (length ents) (\<lambda>k. ip \<le> key (ents ! k)) in
      if length ents \<le> i \<or> key (ents ! i) \<noteq> ip then None else Some i)"

text \<open>The duplicate-removal loop: what is kept so far, and how many were dropped.\<close>

fun dedup_loop :: "('e \<Rightarrow> u32) \<Rightarrow> 'e list \<Rightarrow> 'e list \<Rightarrow> u64 \<Rightarrow> 'e list \<times> u64" where
  "dedup_loop key kept [] d = (kept, d)"
| "dedup_loop key kept (e # es) d =
     (if kept \<noteq> [] \<and> key (last kept) = key e then dedup_loop key kept es (d + 1)
      else dedup_loop key (kept @ [e]) es d)"

section \<open>Binary search\<close>

lemma search_loop_correct:
  assumes "i \<le> j" and "j \<le> n" and mono: "\<And>a b. a \<le> b \<Longrightarrow> b < n \<Longrightarrow> f a \<Longrightarrow> f b"
    and "\<And>k. k < i \<Longrightarrow> \<not> f k" and "\<And>k. j \<le> k \<Longrightarrow> k < n \<Longrightarrow> f k"
  shows "search_loop f i j \<le> n \<and> (\<forall>k < search_loop f i j. \<not> f k) \<and> (\<forall>k. search_loop f i j \<le> k \<and> k < n \<longrightarrow> f k)"
  using assms(1,2,4,5)
proof (induction "j - i" arbitrary: i j rule: less_induct)
  case less
  show ?case
  proof (cases "i < j")
    case False
    then show ?thesis using less.prems by (auto simp: search_loop.simps)
  next
    case True
    define h where "h = (i + j) div 2"
    have h: "i \<le> h" "h < j" using True by (auto simp: h_def)
    show ?thesis
    proof (cases "f h")
      case fh: True
      have eq: "search_loop f i j = search_loop f i h" using True fh by (simp add: search_loop.simps [of f i j] h_def Let_def)
      have "\<And>k. h \<le> k \<Longrightarrow> k < n \<Longrightarrow> f k" using mono fh by blast
      then show ?thesis unfolding eq using less.prems h by (intro less.hyps) auto
    next
      case nf: False
      have eq: "search_loop f i j = search_loop f (h + 1) j" using True nf by (simp add: search_loop.simps [of f i j] h_def Let_def)
      have "\<not> f k" if "k < h + 1" for k
        using mono [of k h] that nf h less.prems(2) by auto
      then show ?thesis unfolding eq using less.prems h by (intro less.hyps) auto
    qed
  qed
qed

lemma lookup_ip_Some:
  assumes "sorted_wrt (<) (map key ents)"
  shows "lookup_ip key ents ip = Some i \<longleftrightarrow> i < length ents \<and> key (ents ! i) = ip"
proof -
  let ?n = "length ents" and ?f = "\<lambda>k. ip \<le> key (ents ! k)"
  have lt: "key (ents ! a) < key (ents ! b)" if "a < b" "b < ?n" for a b
    using sorted_wrt_nth_less [OF assms, of a b] that by simp
  have mono: "?f b" if "a \<le> b" "b < ?n" "?f a" for a b
  proof (cases "a = b")
    case False
    then have "key (ents ! a) < key (ents ! b)" using lt [of a b] that by simp
    then show ?thesis using that(3) by (meson less_imp_le order_trans)
  qed (use that in simp)
  define s where "s = sort_Search ?n ?f"
  have "s \<le> ?n \<and> (\<forall>k < s. \<not> ?f k) \<and> (\<forall>k. s \<le> k \<and> k < ?n \<longrightarrow> ?f k)"
    unfolding s_def sort_Search_def by (rule search_loop_correct) (use mono in auto)
  then have s: "s \<le> ?n" "\<And>k. k < s \<Longrightarrow> \<not> ?f k" "\<And>k. s \<le> k \<Longrightarrow> k < ?n \<Longrightarrow> ?f k" by blast+
  have "i = s" if "i < ?n" "key (ents ! i) = ip"
  proof -
    have "s \<le> i" using s(2) [of i] that by fastforce
    moreover have "\<not> s < i"
    proof
      assume "s < i"
      then have "key (ents ! s) < ip" using lt [of s i] that by simp
      then show False using s(3) [of s] \<open>s < i\<close> that(1) by simp
    qed
    ultimately show ?thesis by simp
  qed
  then show ?thesis by (auto simp: lookup_ip_def s_def [symmetric] Let_def)
qed

lemma lookup_ip_None:
  "sorted_wrt (<) (map key ents) \<Longrightarrow> lookup_ip key ents ip = None \<longleftrightarrow> ip \<notin> key ` set ents"
  using lookup_ip_Some [of key ents ip] by (metis (no_types, lifting) image_iff in_set_conv_nth not_Some_eq)

section \<open>Removing duplicates\<close>

lemma find_append: "find P (xs @ ys) = (case find P xs of None \<Rightarrow> find P ys | Some x \<Rightarrow> Some x)"
  by (induction xs) auto

lemma dedup_loop_correct:
  assumes "sorted_wrt (<) (map key kept)" and "sorted (map key (kept @ es))"
  shows "\<exists>r d'. dedup_loop key kept es d = (r, d') \<and> sorted_wrt (<) (map key r) \<and>
     (\<forall>ip. find (\<lambda>e. key e = ip) r = find (\<lambda>e. key e = ip) (kept @ es)) \<and>
     d' + of_nat (length r) = d + of_nat (length kept + length es)"
  using assms
proof (induction es arbitrary: kept d)
  case (Cons e es)
  show ?case
  proof (cases "kept \<noteq> [] \<and> key (last kept) = key e")
    case True
    have "sorted (map key (kept @ es))" using Cons.prems(2) by (auto simp: sorted_append)
    then obtain r d' where r: "dedup_loop key kept es (d + 1) = (r, d')" "sorted_wrt (<) (map key r)"
      "\<forall>ip. find (\<lambda>e. key e = ip) r = find (\<lambda>e. key e = ip) (kept @ es)"
      "d' + of_nat (length r) = d + 1 + of_nat (length kept + length es)"
      using Cons.IH [OF Cons.prems(1)] by blast
    have "find (\<lambda>e. key e = ip) (kept @ es) = find (\<lambda>e. key e = ip) (kept @ e # es)" for ip
    proof (cases "key e = ip")
      case e: True
      then have "find (\<lambda>e. key e = ip) kept \<noteq> None"
        using True last_in_set [of kept] by (auto simp: find_None_iff simp del: last_in_set)
      then show ?thesis by (auto simp: find_append)
    qed (simp add: find_append split: option.split)
    then show ?thesis using r True by (intro exI [of _ r] exI [of _ d']) (simp add: add.assoc)
  next
    case False
    have le: "key x \<le> key e" if "x \<in> set kept" for x using Cons.prems(2) that by (auto simp: sorted_append)
    have "key x < key e" if "x \<in> set kept" for x
    proof -
      have "kept \<noteq> []" using that by auto
      then obtain ks l where ks: "kept = ks @ [l]" by (meson rev_exhaust)
      have "x = l \<or> key x < key l" using Cons.prems(1) that unfolding ks by (auto simp: sorted_wrt_append)
      moreover have "key l \<noteq> key e" using False ks by simp
      then have "key l < key e" using le [of l] ks by (simp add: order_less_le)
      ultimately show ?thesis by (metis order_less_trans)
    qed
    then have "sorted_wrt (<) (map key (kept @ [e]))" using Cons.prems(1) by (auto simp: sorted_wrt_append)
    moreover have "sorted (map key ((kept @ [e]) @ es))" using Cons.prems(2) by simp
    ultimately obtain r d' where "dedup_loop key (kept @ [e]) es d = (r, d')" "sorted_wrt (<) (map key r)"
      "\<forall>ip. find (\<lambda>e. key e = ip) r = find (\<lambda>e. key e = ip) ((kept @ [e]) @ es)"
      "d' + of_nat (length r) = d + of_nat (length (kept @ [e]) + length es)"
      using Cons.IH by blast
    then show ?thesis using False by (intro exI [of _ r] exI [of _ d']) auto
  qed
qed simp

lemma find_sort_stable: "find (\<lambda>e. key e = ip) (sort_key key es) = find (\<lambda>e. key e = ip) es"
proof -
  have f: "find P xs = (case filter P xs of [] \<Rightarrow> None | x # _ \<Rightarrow> Some x)" for P and xs :: "'a list"
    by (induction xs) auto
  have "filter (\<lambda>e. key e = ip) (sort_key key es) = filter (\<lambda>e. key e = ip) es"
    using filter_sort [of "\<lambda>e. key e = ip" key es] sort_key_stable [of key ip es] by metis
  then show ?thesis by (simp add: f)
qed

section \<open>The table contracts\<close>

locale obs_table =
  fixes ip_of :: "'r \<Rightarrow> u32"
    and conv :: "'r \<Rightarrow> 'e"
    and ok :: "'r list \<Rightarrow> bool"
    and key :: "'e \<Rightarrow> u32"
    and build :: "'r list \<Rightarrow> 'e list"
  assumes sorted_build: "ok rs \<Longrightarrow> sorted_wrt (<) (map key (build rs))"
    and build_sound: "ok rs \<Longrightarrow> e \<in> set (build rs) \<Longrightarrow> \<exists>r\<in>set rs. e = conv r \<and> key e = ip_of r"
    and build_complete: "ok rs \<Longrightarrow> r \<in> set rs \<Longrightarrow> ip_of r \<in> key ` set (build rs)"
begin

lemma keys_build: "ok rs \<Longrightarrow> key ` set (build rs) = ip_of ` set rs"
  using build_sound build_complete by fastforce

lemma distinct_keys: "ok rs \<Longrightarrow> distinct (map key (build rs))"
  using sorted_build strict_sorted_iff by blast

lemma length_build: "ok rs \<Longrightarrow> length (build rs) = card (ip_of ` set rs)"
  using distinct_keys keys_build distinct_card by (metis length_map list.set_map)

lemma lookup_missing: "ok rs \<Longrightarrow> lookup_ip key (build rs) ip = None \<longleftrightarrow> ip \<notin> ip_of ` set rs"
  using lookup_ip_None [OF sorted_build] keys_build by metis

lemma lookup_found:
  "ok rs \<Longrightarrow> lookup_ip key (build rs) ip = Some i \<Longrightarrow> \<exists>r\<in>set rs. build rs ! i = conv r \<and> ip_of r = ip"
  using lookup_ip_Some [OF sorted_build] build_sound nth_mem by metis

end

locale first_table = obs_table +
  assumes build_first: "ok rs \<Longrightarrow>
    find (\<lambda>e. key e = ip) (build rs) = map_option conv (find (\<lambda>r. ip_of r = ip) rs)"
begin

lemma lookup_first:
  assumes "ok rs"
  shows "(case lookup_ip key (build rs) ip of None \<Rightarrow> None | Some i \<Rightarrow> Some (build rs ! i)) =
     map_option conv (find (\<lambda>r. ip_of r = ip) rs)"
proof -
  note srt = sorted_build [OF assms]
  have "(case lookup_ip key (build rs) ip of None \<Rightarrow> None | Some i \<Rightarrow> Some (build rs ! i)) =
      find (\<lambda>e. key e = ip) (build rs)"
  proof (cases "lookup_ip key (build rs) ip")
    case None
    then have "ip \<notin> key ` set (build rs)" using lookup_ip_None [OF srt] by blast
    then have "find (\<lambda>e. key e = ip) (build rs) = None" by (auto simp: find_None_iff)
    then show ?thesis using None by simp
  next
    case (Some i)
    then have i: "i < length (build rs)" "key (build rs ! i) = ip" using lookup_ip_Some [OF srt] by auto
    moreover have "\<not> key (build rs ! j) = ip" if "j < i" for j
      using sorted_wrt_nth_less [OF srt, of j i] that i by auto
    ultimately have "find (\<lambda>e. key e = ip) (build rs) = Some (build rs ! i)"
      by (auto simp: find_Some_iff)
    then show ?thesis using Some by simp
  qed
  then show ?thesis using build_first [OF assms] by simp
qed

end

end
