(* ===== verification/Name_Hash.thy ===== *)
theory Name_Hash
  imports Go_Strings
begin

unbundle bit_operations_syntax

text \<open>
  The change detector for PTR names (\<open>hashNames\<close> in \<^verbatim>\<open>src/internal/merge/merge.go\<close> and its twin
  in \<^verbatim>\<open>src/internal/compare/compare.go\<close>): an FNV-1a hash of the lower-cased, dot-trimmed and
  sorted names. It does not depend on the order or the case of the names; it does depend on how
  often a name occurs.
\<close>

definition offset64 :: u64 where "offset64 = 14695981039346656037"
definition prime64 :: u64 where "prime64 = 1099511628211"

definition norm_name :: "env \<Rightarrow> string \<Rightarrow> string" where
  "norm_name E n = to_lower E (trim_suffix n ''.'')"

definition fnv_byte :: "char \<Rightarrow> u64 \<Rightarrow> u64" where
  "fnv_byte c h = (h XOR of_nat (of_char c)) * prime64"

definition fnv_name :: "string \<Rightarrow> u64 \<Rightarrow> u64" where
  "fnv_name n h = (let h = fold fnv_byte n h; h = h XOR 0 in h * prime64)"

definition hashNames :: "env \<Rightarrow> string list \<Rightarrow> u64" where
  "hashNames E names =
     (if names = [] then 0
      else fold fnv_name (sort (map (norm_name E) names)) offset64)"

lemma hashNames_mset:
  assumes "mset (map (norm_name E) a) = mset (map (norm_name E) b)"
  shows "hashNames E a = hashNames E b"
proof -
  have "sort (map (norm_name E) a) = sort (map (norm_name E) b)"
    by (metis assms properties_for_sort mset_sort sorted_sort)
  moreover have "a = [] \<longleftrightarrow> b = []"
    using assms by (metis map_is_Nil_conv mset_zero_iff)
  ultimately show ?thesis by (simp add: hashNames_def)
qed

end
