(* ===== verification/Merge.thy ===== *)
theory Merge
  imports Store_File Sorted_Table Name_Hash
begin

unbundle bit_operations_syntax

text \<open>
  The updater (\<^verbatim>\<open>src/internal/merge/merge.go\<close>): a re-crawl pass is folded into its baseline and
  written as fresh shards. The theory follows the source: shard discovery, the sorted table of
  the new pass with its name arena, the bitmap of baseline addresses already seen, the scan
  callback with the grace policy, and the loop over the shards.
\<close>

section \<open>Data\<close>

record Options =
  o_OldPath :: string
  o_NewPath :: string
  o_OutDir :: string
  o_Mask :: status_mask
  o_AllowPartial :: bool

record ShardResult =
  sr_Shard :: nat
  sr_OutFile :: string
  sr_OldTotal :: u64
  sr_NewTotal :: u64
  sr_Merged :: u64
  sr_Truncated :: bool

text \<open>\<open>res_Created\<close> is the internal seconds count of \<open>time.Time\<close>, 0 for the zero time.\<close>

record Result =
  res_OutDir :: string
  res_Created :: u64
  res_TargetStatuses :: string
  res_Shards :: "ShardResult list"
  res_MergedTotal :: u64
  res_MergedCounts :: "(string \<times> u64) list"
  res_Gained :: u64
  res_RemovedAuth :: u64
  res_PTRChanged :: u64
  res_PTRUnchanged :: u64
  res_GraceKept :: u64
  res_MissingKept :: u64
  res_OldDups :: u64
  res_NewDups :: u64
  res_UnexpectedNew :: u64

definition zero_result :: Result where
  "zero_result = \<lparr>res_OutDir = [], res_Created = 0, res_TargetStatuses = [], res_Shards = [], res_MergedTotal = 0, res_MergedCounts = [],
     res_Gained = 0, res_RemovedAuth = 0, res_PTRChanged = 0, res_PTRUnchanged = 0,
     res_GraceKept = 0, res_MissingKept = 0, res_OldDups = 0, res_NewDups = 0, res_UnexpectedNew = 0\<rparr>"

definition entStatusMask :: u8 where "entStatusMask = 0x0f"
definition entFCChecked :: u8 where "entFCChecked = 16"
definition entFCMatch :: u8 where "entFCMatch = 32"
definition entUsed :: u8 where "entUsed = 128"

lemmas ent_defs = entStatusMask_def entFCChecked_def entFCMatch_def entUsed_def

record newEnt =
  e_ip :: u32
  e_sf :: u8
  e_nameOff :: u32
  e_nameLen :: u32

definition nameSep :: char where "nameSep = CHR 0x00"

section \<open>Discovery\<close>

fun discover_files :: "fs \<Rightarrow> string list \<Rightarrow> (nat \<times> string) list \<Rightarrow> go_error + (nat \<times> string) list" where
  "discover_files fs [] shards = Inr shards"
| "discover_files fs (f # files) shards =
     (case ReadHeader fs f of
        Inl e \<Rightarrow> Inl e
      | Inr h \<Rightarrow>
          if map_of shards (unat (h_ShardID h)) \<noteq> None then Inl (ErrMsg ''both claim shard'')
          else discover_files fs files (AList.update (unat (h_ShardID h)) f shards))"

definition discover :: "fs \<Rightarrow> string \<Rightarrow> go_error + (nat \<times> string) list" where
  "discover fs path =
     (case os_stat fs path of
        StatErr \<Rightarrow> Inl ErrNotExist
      | StatDir \<Rightarrow>
          if glob_rdnsz fs path = [] then Inl (ErrMsg ''no .rdnsz files'')
          else discover_files fs (glob_rdnsz fs path) []
      | StatFile n \<Rightarrow> discover_files fs [path] [])"

definition sortedKeys :: "(nat \<times> string) list \<Rightarrow> nat list" where
  "sortedKeys m = sort (map fst m)"

section \<open>Loading the new pass\<close>

definition ent_flags :: "Rec \<Rightarrow> u8" where
  "ent_flags r =
     (let sf = s_Status r AND entStatusMask in
      if s_FCChecked r then
        (let sf = sf OR entFCChecked in if s_FCMatch r then sf OR entFCMatch else sf)
      else sf)"

definition load_fn :: "Rec \<Rightarrow> newEnt list \<times> string \<Rightarrow> (newEnt list \<times> string) \<times> go_error option" where
  "load_fn r st =
     (let (ents, arena) = st;
          e = \<lparr>e_ip = s_IP r, e_sf = ent_flags r, e_nameOff = 0, e_nameLen = 0\<rparr>
      in if s_Status r = CodeHasPTR then
           (let joined = go_join (s_PTR r) [nameSep] in
            if 4294967295 < length arena + length joined
            then (st, Some (ErrMsg ''PTR name arena exceeds 4 GiB''))
            else ((ents @ [e\<lparr>e_nameOff := of_nat (length arena), e_nameLen := of_nat (length joined)\<rparr>],
                   arena @ joined), None))
         else ((ents @ [e], arena), None))"

definition loadNewShard ::
  "env \<Rightarrow> fs \<Rightarrow> string \<Rightarrow> Result \<Rightarrow> go_error + (newEnt list \<times> string \<times> Header \<times> bool \<times> Result)" where
  "loadNewShard E fs path res =
     (case ReadHeader fs path of
        Inl e \<Rightarrow> Inl e
      | Inr hdr \<Rightarrow>
          (case Scan E fs path load_fn ([], []) of
             ((ents, arena), scanErr) \<Rightarrow>
               if scanErr \<noteq> None \<and> scanErr \<noteq> Some ErrTruncatedTail then Inl (the scanErr)
               else let (ents, dups) = dedup_loop e_ip [] (sort_key e_ip ents) (res_NewDups res)
                    in Inr (ents, arena, hdr, scanErr \<noteq> None, res\<lparr>res_NewDups := dups\<rparr>)))"

section \<open>Records\<close>

definition mk_record :: "u32 \<Rightarrow> status_code \<Rightarrow> string list \<Rightarrow> bool option \<Rightarrow> Record" where
  "mk_record ip st names fc =
     \<lparr>r_IP = [], r_IPInt = ip, r_Status = StatusString st, r_PTR = names, r_FCrDNS = fc,
      r_Resolver = [], r_Attempts = 0, r_LatencyMs = 0, r_Rcode = [], r_Error = [], r_TS = []\<rparr>"

definition toRecord :: "Rec \<Rightarrow> Record" where
  "toRecord r = mk_record (s_IP r) (s_Status r) (s_PTR r) (if s_FCChecked r then Some (s_FCMatch r) else None)"

definition entRecord :: "u32 \<Rightarrow> u8 \<Rightarrow> string list \<Rightarrow> Record" where
  "entRecord ip sf names =
     mk_record ip (sf AND entStatusMask) names
       (if sf AND entFCChecked \<noteq> 0 then Some (sf AND entFCMatch \<noteq> 0) else None)"

section \<open>The bitmap of seen addresses\<close>

type_synonym bitmap = "u32 \<Rightarrow> u64"

definition seen_empty :: bitmap where "seen_empty = (\<lambda>_. 0)"

definition seen_bit :: "u32 \<Rightarrow> u64" where
  "seen_bit ip = push_bit (unat (ip AND 63)) 1"

definition seen_test :: "u32 \<Rightarrow> bitmap \<Rightarrow> bool" where
  "seen_test ip seen \<longleftrightarrow> seen (drop_bit 6 ip) AND seen_bit ip \<noteq> 0"

definition seen_set :: "u32 \<Rightarrow> bitmap \<Rightarrow> bitmap" where
  "seen_set ip seen = seen(drop_bit 6 ip := seen (drop_bit 6 ip) OR seen_bit ip)"

section \<open>Merging one shard\<close>

record mstate =
  ms_w :: Writer
  ms_seen :: bitmap
  ms_ents :: "newEnt list"
  ms_res :: Result
  ms_counts :: "u64 list"
  ms_sr :: ShardResult

text \<open>\<open>w.Add(rec); mergedCounts[c]++; sr.Merged++\<close>, where the index can be out of range.\<close>

definition put_merged :: "env \<Rightarrow> Record \<Rightarrow> status_code \<Rightarrow> mstate \<Rightarrow> mstate \<times> go_error option" where
  "put_merged E rec c ms =
     (let ms = ms\<lparr>ms_w := add E rec (ms_w ms)\<rparr> in
      if unat c < NumStatusCodes then
        (ms\<lparr>ms_counts := (ms_counts ms)[unat c := ms_counts ms ! unat c + 1],
            ms_sr := (ms_sr ms)\<lparr>sr_Merged := sr_Merged (ms_sr ms) + 1\<rparr>\<rparr>, None)
      else (ms, Some EPanic))"

definition writeOld :: "env \<Rightarrow> Rec \<Rightarrow> mstate \<Rightarrow> mstate \<times> go_error option" where
  "writeOld E r ms = put_merged E (toRecord r) (s_Status r) ms"

definition ent_names :: "string \<Rightarrow> newEnt \<Rightarrow> string list" where
  "ent_names arena e =
     split_byte nameSep (take (unat (e_nameLen e)) (drop (unat (e_nameOff e)) arena))"

definition bump_res :: "(Result \<Rightarrow> Result) \<Rightarrow> mstate \<Rightarrow> mstate" where
  "bump_res f ms = ms\<lparr>ms_res := f (ms_res ms)\<rparr>"

text \<open>The \<open>switch\<close> on a target that the new pass observed as \<open>e\<close>.\<close>

definition merge_found :: "env \<Rightarrow> string \<Rightarrow> Rec \<Rightarrow> newEnt \<Rightarrow> mstate \<Rightarrow> mstate \<times> go_error option" where
  "merge_found E arena r e ms =
     (let newStatus = e_sf e AND entStatusMask in
      if newStatus = CodeHasPTR then
        (let names = ent_names arena e;
             ms = bump_res (\<lambda>res.
               if s_Status r = CodeHasPTR then
                 (if hashNames E (s_PTR r) = hashNames E names
                  then res\<lparr>res_PTRUnchanged := res_PTRUnchanged res + 1\<rparr>
                  else res\<lparr>res_PTRChanged := res_PTRChanged res + 1\<rparr>)
               else res\<lparr>res_Gained := res_Gained res + 1\<rparr>) ms
         in put_merged E (entRecord (s_IP r) (e_sf e) names) CodeHasPTR ms)
      else if newStatus = CodeNXDomain \<or> newStatus = CodeNoErrorEmpty then
        (let ms = (if s_Status r = CodeHasPTR
                   then bump_res (\<lambda>res. res\<lparr>res_RemovedAuth := res_RemovedAuth res + 1\<rparr>) ms else ms)
         in put_merged E (entRecord (s_IP r) (e_sf e) []) newStatus ms)
      else if s_Status r = CodeHasPTR then
        writeOld E r (bump_res (\<lambda>res. res\<lparr>res_GraceKept := res_GraceKept res + 1\<rparr>) ms)
      else put_merged E (entRecord (s_IP r) (e_sf e) []) newStatus ms)"

definition old_fn :: "env \<Rightarrow> status_mask \<Rightarrow> string \<Rightarrow> Rec \<Rightarrow> mstate \<Rightarrow> mstate \<times> go_error option" where
  "old_fn E msk arena r ms =
     (if seen_test (s_IP r) (ms_seen ms)
      then (bump_res (\<lambda>res. res\<lparr>res_OldDups := res_OldDups res + 1\<rparr>) ms, None)
      else
        let ms = ms\<lparr>ms_seen := seen_set (s_IP r) (ms_seen ms),
                    ms_sr := (ms_sr ms)\<lparr>sr_OldTotal := sr_OldTotal (ms_sr ms) + 1\<rparr>\<rparr> in
        if \<not> mask_Has msk (s_Status r) then writeOld E r ms
        else case lookup_ip e_ip (ms_ents ms) (s_IP r) of
            None \<Rightarrow> writeOld E r (bump_res (\<lambda>res. res\<lparr>res_MissingKept := res_MissingKept res + 1\<rparr>) ms)
          | Some i \<Rightarrow>
              let e = (ms_ents ms ! i)\<lparr>e_sf := e_sf (ms_ents ms ! i) OR entUsed\<rparr> in
              merge_found E arena r e (ms\<lparr>ms_ents := (ms_ents ms)[i := e]\<rparr>))"

definition merge_out_path :: "Options \<Rightarrow> Header \<Rightarrow> string" where
  "merge_out_path opts h = path_join (o_OutDir opts) (''shard-'' @ show_nat (unat (h_ShardID h)) @ ''.rdnsz'')"

text \<open>\<open>time.Unix(sec, 0)\<close> in the internal representation, and \<open>After\<close>.\<close>

definition unix_time :: "u64 \<Rightarrow> u64" where "unix_time sec = sec + 62135596800"

definition zero_header :: Header where
  "zero_header = \<lparr>h_Version = 0, h_Shards = 0, h_ShardID = 0, h_Total = 0,
     h_Counts = replicate NumStatusCodes 0, h_Created = 0\<rparr>"

definition merge_init ::
  "Options \<Rightarrow> Header \<Rightarrow> string \<Rightarrow> newEnt list \<Rightarrow> Header \<Rightarrow> bool \<Rightarrow> Result \<Rightarrow> u64 list \<Rightarrow> Writer \<Rightarrow> mstate" where
  "merge_init opts oldHdr newPath ents newHdr truncated res counts w =
     \<lparr>ms_w = w\<lparr>w_Start := (if newPath \<noteq> [] then h_Created newHdr else h_Created oldHdr)\<rparr>,
      ms_seen = seen_empty, ms_ents = ents,
      ms_res = (if newPath \<noteq> [] \<and> res_Created res <s unix_time (h_Created newHdr)
                then res\<lparr>res_Created := unix_time (h_Created newHdr)\<rparr> else res),
      ms_counts = counts,
      ms_sr = \<lparr>sr_Shard = unat (h_ShardID oldHdr), sr_OutFile = merge_out_path opts oldHdr,
               sr_OldTotal = 0, sr_NewTotal = of_nat (length ents), sr_Merged = 0, sr_Truncated = truncated\<rparr>\<rparr>"

definition count_unused :: "newEnt list \<Rightarrow> u64 \<Rightarrow> u64" where
  "count_unused ents n = fold (\<lambda>e n. if e_sf e AND entUsed = 0 then n + 1 else n) ents n"

definition merge_finish :: "env \<Rightarrow> fs \<Rightarrow> mstate \<Rightarrow> fs \<times> (ShardResult \<times> Result \<times> u64 list)" where
  "merge_finish E fs ms =
     (Close E (ms_w ms) fs,
      (ms_sr ms, (ms_res ms)\<lparr>res_UnexpectedNew := count_unused (ms_ents ms) (res_UnexpectedNew (ms_res ms))\<rparr>,
       ms_counts ms))"

definition mergeShard ::
  "env \<Rightarrow> u64 \<Rightarrow> fs \<Rightarrow> string \<Rightarrow> string \<Rightarrow> Options \<Rightarrow> Result \<Rightarrow> u64 list \<Rightarrow>
   fs \<times> (go_error + (ShardResult \<times> Result \<times> u64 list))" where
  "mergeShard E now fs oldPath newPath opts res counts =
     (case ReadHeader fs oldPath of
        Inl e \<Rightarrow> (fs, Inl e)
      | Inr oldHdr \<Rightarrow>
          (case (if newPath = [] then Inr ([], [], zero_header, False, res)
                 else loadNewShard E fs newPath res) of
             Inl e \<Rightarrow> (fs, Inl e)
           | Inr (ents, arena, newHdr, truncated, res) \<Rightarrow>
               if newPath \<noteq> [] \<and> truncated \<and> \<not> o_AllowPartial opts
               then (fs, Inl (ErrMsg ''is truncated''))
               else if newPath \<noteq> [] \<and> (h_Shards newHdr \<noteq> h_Shards oldHdr \<or> h_ShardID newHdr \<noteq> h_ShardID oldHdr)
               then (fs, Inl (ErrMsg ''shard identity mismatch''))
               else
                 (case NewWriter fs (merge_out_path opts oldHdr) (h_Shards oldHdr) (h_ShardID oldHdr) now of
                    Inl e \<Rightarrow> (fs, Inl e)
                  | Inr (fs1, w) \<Rightarrow>
                      (case Scan E fs1 oldPath (old_fn E (o_Mask opts) arena)
                              (merge_init opts oldHdr newPath ents newHdr truncated res counts w) of
                         (ms, None) \<Rightarrow> (case merge_finish E fs1 ms of (fs2, r) \<Rightarrow> (fs2, Inr r))
                       | (ms, Some EPanic) \<Rightarrow> (crash (ms_w ms) fs1, Inl EPanic)
                       | (ms, Some e) \<Rightarrow>
                           (os_remove (Close E (ms_w ms) fs1) (merge_out_path opts oldHdr), Inl e)))))"

section \<open>The whole merge\<close>

fun run_shards ::
  "env \<Rightarrow> u64 \<Rightarrow> Options \<Rightarrow> (nat \<times> string) list \<Rightarrow> (nat \<times> string) list \<Rightarrow> nat list \<Rightarrow>
   fs \<Rightarrow> Result \<Rightarrow> u64 list \<Rightarrow> fs \<times> (go_error + (Result \<times> u64 list))" where
  "run_shards E now opts olds news [] fs res counts = (fs, Inr (res, counts))"
| "run_shards E now opts olds news (sid # sids) fs res counts =
     (if map_of news sid = None \<and> \<not> o_AllowPartial opts then (fs, Inl (ErrMsg ''no new shard''))
      else
        let newPath = (case map_of news sid of None \<Rightarrow> [] | Some p \<Rightarrow> p) in
        case mergeShard E now fs (the (map_of olds sid)) newPath opts res counts of
          (fs', Inl e) \<Rightarrow> (fs', Inl e)
        | (fs', Inr (sr, res', counts')) \<Rightarrow>
            run_shards E now opts olds news sids fs' (res'\<lparr>res_Shards := res_Shards res' @ [sr]\<rparr>) counts')"

fun sum_counts :: "nat list \<Rightarrow> u64 list \<Rightarrow> Result \<Rightarrow> Result" where
  "sum_counts [] counts res = res"
| "sum_counts (c # cs) counts res =
     (let res = (if 0 < counts ! c
                 then res\<lparr>res_MergedCounts := AList.update (StatusString (of_nat c)) (counts ! c) (res_MergedCounts res)\<rparr>
                 else res)
      in sum_counts cs counts (res\<lparr>res_MergedTotal := res_MergedTotal res + counts ! c\<rparr>))"

definition Run :: "env \<Rightarrow> u64 \<Rightarrow> fs \<Rightarrow> Options \<Rightarrow> fs \<times> (go_error + Result)" where
  "Run E now fs opts =
     (case discover fs (o_OldPath opts) of
        Inl e \<Rightarrow> (fs, Inl e)
      | Inr olds \<Rightarrow>
          (case discover fs (o_NewPath opts) of
             Inl e \<Rightarrow> (fs, Inl e)
           | Inr news \<Rightarrow>
               (case os_mkdir_all fs (o_OutDir opts) of
                  Inl e \<Rightarrow> (fs, Inl e)
                | Inr fs \<Rightarrow>
                    (case run_shards E now opts olds news (sortedKeys olds) fs
                            (zero_result\<lparr>res_OutDir := o_OutDir opts, res_TargetStatuses := mask_String (o_Mask opts)\<rparr>)
                            (replicate NumStatusCodes 0) of
                       (fs', Inl e) \<Rightarrow> (fs', Inl e)
                     | (fs', Inr (res, counts)) \<Rightarrow>
                         (fs', Inr (sum_counts [0..<NumStatusCodes] counts res))))))"

section \<open>The bitmap is a set of addresses\<close>

locale address_set =
  fixes empty :: 's
    and ins :: "u32 \<Rightarrow> 's \<Rightarrow> 's"
    and mem :: "u32 \<Rightarrow> 's \<Rightarrow> bool"
  assumes mem_empty: "\<not> mem ip empty"
    and mem_ins: "mem ip (ins jp s) \<longleftrightarrow> ip = jp \<or> mem ip s"
begin

lemma mem_fold: "mem ip (fold ins ips s) \<longleftrightarrow> ip \<in> set ips \<or> mem ip s"
  by (induction ips arbitrary: s) (auto simp: mem_ins)

end

lemma seen_bit_iff: "bit (seen_bit ip) i \<longleftrightarrow> i = unat (ip AND 63)"
proof -
  have "ip AND 63 = take_bit 6 ip" by (simp add: take_bit_eq_mask mask_eq_exp_minus_1)
  then have "unat (ip AND 63) = unat ip mod 2 ^ 6" by (simp only: unat_simps)
  then have "unat (ip AND 63) < 64" by simp
  then show ?thesis by (auto simp: seen_bit_def bit_simps)
qed

lemma and_seen_bit: "w AND seen_bit ip \<noteq> 0 \<longleftrightarrow> bit w (unat (ip AND 63))"
proof
  assume b: "bit w (unat (ip AND 63))"
  show "w AND seen_bit ip \<noteq> 0"
  proof
    assume "w AND seen_bit ip = 0"
    then have "\<not> bit (w AND seen_bit ip) (unat (ip AND 63))" by simp
    then show False using b by (simp add: bit_and_iff seen_bit_iff)
  qed
next
  assume "w AND seen_bit ip \<noteq> 0"
  then obtain i where "bit (w AND seen_bit ip) i" by (metis bit_word_eqI bit_0_eq bot_apply bot_bool_def)
  then show "bit w (unat (ip AND 63))" by (auto simp: bit_and_iff seen_bit_iff)
qed

lemma split_addr: "drop_bit 6 (a :: u32) = drop_bit 6 b \<Longrightarrow> unat (a AND 63) = unat (b AND 63) \<Longrightarrow> a = b"
proof -
  assume 1: "drop_bit 6 a = drop_bit 6 b" and "unat (a AND 63) = unat (b AND 63)"
  then have "a AND 63 = b AND 63" by (simp add: word_unat_eq_iff)
  moreover have "x AND 63 = take_bit 6 x" for x :: u32 by (simp add: take_bit_eq_mask mask_eq_exp_minus_1)
  ultimately have "take_bit 6 a = take_bit 6 b" by simp
  with 1 show ?thesis by (metis bits_ident)
qed

interpretation seen: address_set seen_empty seen_set seen_test
proof
  show "\<not> seen_test ip seen_empty" for ip
    by (simp add: seen_test_def seen_empty_def)
  show "seen_test ip (seen_set jp s) \<longleftrightarrow> ip = jp \<or> seen_test ip s" for ip jp s
    unfolding seen_test_def and_seen_bit
    by (auto simp: seen_set_def bit_or_iff seen_bit_iff dest: split_addr)
qed

section \<open>The table of the new pass\<close>

text \<open>What an entry stands for, and what it was built from.\<close>

type_synonym view = "u32 \<times> u8 \<times> string list"

definition view :: "string \<Rightarrow> newEnt \<Rightarrow> view" where
  "view arena e = (e_ip e, e_sf e AND 0x3f, if e_sf e AND entStatusMask = CodeHasPTR then ent_names arena e else [])"

definition rec_view :: "Rec \<Rightarrow> view" where
  "rec_view r = (s_IP r, ent_flags r,
     if s_Status r = CodeHasPTR then split_byte nameSep (go_join (s_PTR r) [nameSep]) else [])"

definition names_size :: "Rec \<Rightarrow> nat" where
  "names_size r = (if s_Status r = CodeHasPTR then length (go_join (s_PTR r) [nameSep]) else 0)"

definition arena_ok :: "Rec list \<Rightarrow> bool" where
  "arena_ok rs \<longleftrightarrow> sum_list (map names_size rs) \<le> 4294967295 \<and> list_all (\<lambda>r. unat (s_Status r) < 16) rs"

definition new_table :: "Rec list \<Rightarrow> view list" where
  "new_table rs =
     (case fold_err load_fn rs ([], []) of ((ents, arena), _) \<Rightarrow>
        map (view arena) (fst (dedup_loop e_ip [] (sort_key e_ip ents) 0)))"

lemma status_16: "unat (s :: u8) < 16 \<Longrightarrow> s AND 0x0f = s"
proof -
  assume "unat s < 16"
  then have "s < 2 ^ 4" by (simp add: word_less_nat_alt)
  then have "s AND mask 4 = s" by (rule less_mask_eq)
  then show ?thesis by (simp add: mask_eq_exp_minus_1)
qed

lemma ent_flags_parts:
  assumes "unat (s_Status r) < 16"
  shows "ent_flags r AND entStatusMask = s_Status r" "ent_flags r AND 0x3f = ent_flags r"
    "ent_flags r AND entFCChecked \<noteq> 0 \<longleftrightarrow> s_FCChecked r"
    "ent_flags r AND entFCMatch \<noteq> 0 \<longleftrightarrow> s_FCChecked r \<and> s_FCMatch r"
proof -
  note st = status_16 [OF assms]
  have "(s_Status r AND 15) AND 63 = s_Status r AND 15" "(s_Status r AND 15) AND 16 = 0" "(s_Status r AND 15) AND 32 = 0"
    by (simp_all add: and.assoc)
  then have "s_Status r AND 63 = s_Status r" "s_Status r AND 16 = 0" "s_Status r AND 32 = 0"
    unfolding st .
  then show "ent_flags r AND entStatusMask = s_Status r" "ent_flags r AND 0x3f = ent_flags r"
    "ent_flags r AND entFCChecked \<noteq> 0 \<longleftrightarrow> s_FCChecked r"
    "ent_flags r AND entFCMatch \<noteq> 0 \<longleftrightarrow> s_FCChecked r \<and> s_FCMatch r"
    using st by (simp_all add: ent_flags_def ent_defs Let_def bit.conj_disj_distrib2)
qed

lemma load_fold:
  assumes "length arena + sum_list (map names_size rs) \<le> 4294967295" "list_all (\<lambda>r. unat (s_Status r) < 16) rs"
  shows "\<exists>ents' arena'. fold_err load_fn rs (ents, arena) = ((ents @ ents', arena @ arena'), None) \<and>
     (\<forall>ext. map (view (arena @ arena' @ ext)) ents' = map rec_view rs)"
  using assms
proof (induction rs arbitrary: ents arena)
  case (Cons r rs)
  have st: "unat (s_Status r) < 16" using Cons.prems(2) by simp
  note fl = ent_flags_parts [OF st]
  define j where "j = (if s_Status r = CodeHasPTR then go_join (s_PTR r) [nameSep] else [])"
  obtain e where e: "load_fn r (ents, arena) = ((ents @ [e], arena @ j), None)"
    "\<And>ext. view (arena @ j @ ext) e = rec_view r"
  proof (cases "s_Status r = CodeHasPTR")
    case True
    define e where "e = \<lparr>e_ip = s_IP r, e_sf = ent_flags r, e_nameOff = of_nat (length arena), e_nameLen = of_nat (length j)\<rparr>"
    have le: "length arena + length j \<le> 4294967295"
      using Cons.prems(1) True by (simp add: names_size_def [of r] j_def)
    have "load_fn r (ents, arena) = ((ents @ [e], arena @ j), None)"
      using True le by (simp add: load_fn_def j_def e_def Let_def)
    moreover have "unat (of_nat (length arena) :: u32) = length arena" "unat (of_nat (length j) :: u32) = length j"
      using le by (simp_all add: unat_of_nat)
    then have "view (arena @ j @ ext) e = rec_view r" for ext
      using True fl(1,2) by (simp add: view_def rec_view_def e_def ent_names_def j_def)
    ultimately show ?thesis using that by blast
  next
    case False
    then have "load_fn r (ents, arena) = ((ents @ [\<lparr>e_ip = s_IP r, e_sf = ent_flags r, e_nameOff = 0, e_nameLen = 0\<rparr>], arena @ j), None)"
      by (simp add: load_fn_def j_def Let_def)
    moreover have "view (arena @ j @ ext) \<lparr>e_ip = s_IP r, e_sf = ent_flags r, e_nameOff = 0, e_nameLen = 0\<rparr> = rec_view r" for ext
      using False fl(1,2) by (simp add: view_def rec_view_def)
    ultimately show ?thesis using that by blast
  qed
  have "length (arena @ j) + sum_list (map names_size rs) \<le> 4294967295"
    using Cons.prems(1) by (simp add: names_size_def [of r] j_def split: if_splits)
  then obtain ents' arena' where IH: "fold_err load_fn rs (ents @ [e], arena @ j) = (((ents @ [e]) @ ents', (arena @ j) @ arena'), None)"
     "\<forall>ext. map (view ((arena @ j) @ arena' @ ext)) ents' = map rec_view rs"
    using Cons.IH [of "arena @ j" "ents @ [e]"] Cons.prems(2) by auto
  show ?case
    using e(1) IH e(2) by (intro exI [of _ "e # ents'"] exI [of _ "j @ arena'"]) simp
qed simp

lemma map_sort_key: "map f (sort_key (\<lambda>x. g (f x)) xs) = sort_key g (map f xs)"
proof -
  have "map f (insort_key (\<lambda>x. g (f x)) x xs) = insort_key g (f x) (map f xs)" for x xs
    by (induction xs) auto
  then show ?thesis by (induction xs) auto
qed

lemma map_dedup_loop:
  "map f (fst (dedup_loop (\<lambda>x. g (f x)) kept es d)) = fst (dedup_loop g (map f kept) (map f es) d)"
  by (induction es arbitrary: kept d) (auto simp: last_map)

lemma new_table_eq:
  assumes "arena_ok rs"
  shows "new_table rs = fst (dedup_loop fst [] (sort_key fst (map rec_view rs)) 0)"
proof -
  obtain ents arena where l: "fold_err load_fn rs ([], []) = ((ents, arena), None)" "map (view arena) ents = map rec_view rs"
  proof -
    obtain ents arena where "fold_err load_fn rs ([], []) = ((ents, arena), None)"
      "\<forall>ext. map (view (arena @ ext)) ents = map rec_view rs"
      using load_fold [of "[]" rs "[]"] assms by (auto simp: arena_ok_def)
    then show ?thesis using that [of ents arena] by (metis append_Nil2)
  qed
  have k: "e_ip = (\<lambda>e. fst (view arena e))" by (simp add: view_def fun_eq_iff)
  have "map (view arena) (fst (dedup_loop e_ip [] (sort_key e_ip ents) 0)) =
      fst (dedup_loop fst [] (sort_key fst (map (view arena) ents)) 0)"
    unfolding k map_dedup_loop map_sort_key by simp
  then show ?thesis using l by (simp add: new_table_def)
qed

interpretation new_pass: first_table s_IP rec_view arena_ok fst new_table
proof
  fix rs :: "Rec list"
  assume "arena_ok rs"
  note eq = new_table_eq [OF this]
  let ?S = "sort_key fst (map rec_view rs)"
  obtain r d where r: "dedup_loop fst [] ?S 0 = (r, d)" "sorted_wrt (<) (map fst r)"
    "\<And>ip. find (\<lambda>e. fst e = ip) r = find (\<lambda>e. fst e = ip) ?S"
    using dedup_loop_correct [of fst "[]" ?S 0] by auto
  have T: "new_table rs = r" using eq r(1) by simp
  show "sorted_wrt (<) (map fst (new_table rs))" using T r(2) by simp
  have fm: "find (\<lambda>e. fst e = ip) (map rec_view rs) = map_option rec_view (find (\<lambda>r. s_IP r = ip) rs)" for ip
    by (induction rs) (auto simp: rec_view_def)
  show first: "find (\<lambda>e. fst e = ip) (new_table rs) = map_option rec_view (find (\<lambda>r. s_IP r = ip) rs)" for ip
    using r(3) find_sort_stable [of fst ip "map rec_view rs"] T fm by simp
  have dist: "find (\<lambda>x. fst x = fst e) (new_table rs) = Some e" if "e \<in> set (new_table rs)" for e
    using that r(2) unfolding T by (induction r) auto
  show "\<exists>r\<in>set rs. e = rec_view r \<and> fst e = s_IP r" if mem: "e \<in> set (new_table rs)" for e
  proof -
    obtain r where "find (\<lambda>r. s_IP r = fst e) rs = Some r" "e = rec_view r"
      using first [of "fst e"] dist [OF mem] by (cases "find (\<lambda>r. s_IP r = fst e) rs") auto
    then show ?thesis by (auto simp: find_Some_iff)
  qed
  show "s_IP r \<in> fst ` set (new_table rs)" if "r \<in> set rs" for r
  proof -
    have "find (\<lambda>x. s_IP x = s_IP r) rs \<noteq> None" using that by (auto simp: find_None_iff)
    then have "find (\<lambda>e. fst e = s_IP r) (new_table rs) \<noteq> None" using first [of "s_IP r"] by auto
    then show ?thesis by (auto simp: find_None_iff intro: rev_image_eqI)
  qed
qed

section \<open>What one baseline record becomes\<close>

text \<open>The record written for a baseline record, given the table of the new pass.\<close>

definition viewRecord :: "view \<Rightarrow> Record" where
  "viewRecord v = (case v of (ip, sf, names) \<Rightarrow> entRecord ip sf (if sf AND entStatusMask = CodeHasPTR then names else []))"

definition choice :: "status_mask \<Rightarrow> view list \<Rightarrow> Rec \<Rightarrow> Record" where
  "choice msk T r =
     (if \<not> mask_Has msk (s_Status r) then toRecord r
      else case find (\<lambda>v. fst v = s_IP r) T of
          None \<Rightarrow> toRecord r
        | Some v \<Rightarrow>
            let st = fst (snd v) AND entStatusMask in
            if st = CodeHasPTR \<or> st = CodeNXDomain \<or> st = CodeNoErrorEmpty \<or> s_Status r \<noteq> CodeHasPTR
            then viewRecord v else toRecord r)"

fun first_recs :: "u32 set \<Rightarrow> Rec list \<Rightarrow> Rec list" where
  "first_recs S [] = []"
| "first_recs S (r # rs) =
     (if s_IP r \<in> S then first_recs S rs else r # first_recs (insert (s_IP r) S) rs)"

lemma Code_StatusString_id: "unat c < NumStatusCodes \<Longrightarrow> Code (StatusString c) = c"
  using Code_StatusString by (simp add: NumStatusCodes_def)

lemma lookup_view:
  assumes "sorted_wrt (<) (map e_ip ents)"
  shows "find (\<lambda>v. fst v = ip) (map (view arena) ents) =
     (case lookup_ip e_ip ents ip of None \<Rightarrow> None | Some i \<Rightarrow> Some (view arena (ents ! i)))"
proof (cases "lookup_ip e_ip ents ip")
  case None
  then have "ip \<notin> e_ip ` set ents" using lookup_ip_None [OF assms] by blast
  then show ?thesis using None by (auto simp: find_None_iff view_def)
next
  case (Some i)
  then have i: "i < length ents" "e_ip (ents ! i) = ip" using lookup_ip_Some [OF assms] by auto
  moreover have "e_ip (ents ! j) \<noteq> ip" if "j < i" for j
    using sorted_wrt_nth_less [OF assms, of j i] that i by auto
  ultimately show ?thesis using Some by (auto simp: find_Some_iff view_def)
qed

text \<open>Marking an entry as used does not change what the table stands for.\<close>

lemma used_bits: "(x OR entUsed) AND 0x3f = x AND 0x3f" "(x OR entUsed) AND entStatusMask = x AND entStatusMask"
  "(x AND 0x3f) AND entStatusMask = x AND entStatusMask" "(x AND 0x3f) AND entFCChecked = x AND entFCChecked"
  "(x AND 0x3f) AND entFCMatch = x AND entFCMatch" "(x OR entUsed) AND entFCChecked = x AND entFCChecked"
  "(x OR entUsed) AND entFCMatch = x AND entFCMatch" for x :: u8
  by (simp_all add: ent_defs bit.conj_disj_distrib2 and.assoc)

lemma view_used:
  "view arena (e\<lparr>e_sf := e_sf e OR entUsed\<rparr>) = view arena e"
  by (simp add: view_def used_bits ent_names_def)

lemma put_merged_ok:
  assumes "unat c < NumStatusCodes"
  shows "put_merged E rec c ms =
    (ms\<lparr>ms_w := add E rec (ms_w ms), ms_counts := (ms_counts ms)[unat c := ms_counts ms ! unat c + 1],
        ms_sr := (ms_sr ms)\<lparr>sr_Merged := sr_Merged (ms_sr ms) + 1\<rparr>\<rparr>, None)"
  using assms by (simp add: put_merged_def)

lemma status_record:
  "unat (s_Status r) < NumStatusCodes \<Longrightarrow> Code (r_Status (toRecord r)) = s_Status r"
  "unat (sf AND entStatusMask) < NumStatusCodes \<Longrightarrow> Code (r_Status (entRecord ip sf ns)) = sf AND entStatusMask"
  by (simp_all add: toRecord_def entRecord_def mk_record_def Code_StatusString_id)

definition table_inv :: "string \<Rightarrow> view list \<Rightarrow> mstate \<Rightarrow> bool" where
  "table_inv arena T ms \<longleftrightarrow> map (view arena) (ms_ents ms) = T \<and> sorted_wrt (<) (map fst T) \<and>
     list_all (\<lambda>v. unat (fst (snd v) AND entStatusMask) < NumStatusCodes) T"

text \<open>One step of the baseline scan on a record whose address is new.\<close>

lemma old_fn_step:
  assumes inv: "table_inv arena T ms" and new: "\<not> seen_test (s_IP r) (ms_seen ms)"
    and st: "unat (s_Status r) < NumStatusCodes"
  shows "\<exists>ms'. old_fn E msk arena r ms = (ms', None) \<and> table_inv arena T ms' \<and>
     ms_seen ms' = seen_set (s_IP r) (ms_seen ms) \<and> ms_w ms' = add E (choice msk T r) (ms_w ms) \<and>
     ms_counts ms' = (ms_counts ms)[unat (Code (r_Status (choice msk T r))) := ms_counts ms ! unat (Code (r_Status (choice msk T r))) + 1] \<and>
     sr_Merged (ms_sr ms') = sr_Merged (ms_sr ms) + 1 \<and> sr_OldTotal (ms_sr ms') = sr_OldTotal (ms_sr ms) + 1"
proof -
  have T: "map (view arena) (ms_ents ms) = T" and srtT: "sorted_wrt (<) (map fst T)"
    and stT: "\<And>v. v \<in> set T \<Longrightarrow> unat (fst (snd v) AND entStatusMask) < NumStatusCodes"
    using inv by (auto simp: table_inv_def list_all_iff)
  have "map e_ip (ms_ents ms) = map fst T" by (simp add: T [symmetric] view_def)
  then have srt: "sorted_wrt (<) (map e_ip (ms_ents ms))" using srtT by simp
  show ?thesis
  proof (cases "mask_Has msk (s_Status r) \<and> lookup_ip e_ip (ms_ents ms) (s_IP r) \<noteq> None")
    case False
    then have "choice msk T r = toRecord r"
      using lookup_view [OF srt, of "s_IP r" arena] T by (auto simp: choice_def)
    then show ?thesis
      using False new inv put_merged_ok [OF st] status_record(1) [OF st]
      by (auto simp: old_fn_def Let_def writeOld_def bump_res_def table_inv_def)
  next
    case True
    then obtain i where i: "lookup_ip e_ip (ms_ents ms) (s_IP r) = Some i" and has: "mask_Has msk (s_Status r)" by auto
    define e0 where "e0 = ms_ents ms ! i"
    define e where "e = e0\<lparr>e_sf := e_sf e0 OR entUsed\<rparr>"
    have il: "i < length (ms_ents ms)" "e_ip e0 = s_IP r" using lookup_ip_Some [OF srt] i by (auto simp: e0_def)
    have find: "find (\<lambda>v. fst v = s_IP r) T = Some (view arena e0)"
      using lookup_view [OF srt, of "s_IP r" arena] T i by (simp add: e0_def)
    have "view arena e0 \<in> set T" using il(1) by (simp add: T [symmetric] e0_def)
    then have st_e: "unat (e_sf e0 AND entStatusMask) < NumStatusCodes"
      using stT by (fastforce simp: view_def used_bits)
    have ms_e: "map (view arena) ((ms_ents ms)[i := e]) = T"
      using T il(1) view_used [of arena e0] by (simp add: map_update e_def e0_def [symmetric])
        (metis list_update_id nth_map e0_def length_map)
    let ?st = "e_sf e0 AND entStatusMask"
    have vr: "viewRecord (view arena e0) = entRecord (s_IP r) (e_sf e) (if ?st = CodeHasPTR then ent_names arena e else [])"
      by (simp add: viewRecord_def view_def used_bits entRecord_def il(2) e_def ent_names_def)
    have est: "e_sf e AND entStatusMask = ?st" by (simp add: e_def used_bits)
    have ch: "choice msk T r = (if ?st = CodeHasPTR \<or> ?st = CodeNXDomain \<or> ?st = CodeNoErrorEmpty \<or> s_Status r \<noteq> CodeHasPTR
        then viewRecord (view arena e0) else toRecord r)"
      using has find by (simp add: choice_def view_def used_bits)
    have c0: "unat CodeHasPTR < NumStatusCodes" by (simp add: CodeHasPTR_def NumStatusCodes_def)
    have code: "Code (r_Status (choice msk T r)) = (if ?st = CodeHasPTR \<or> ?st = CodeNXDomain \<or> ?st = CodeNoErrorEmpty \<or> s_Status r \<noteq> CodeHasPTR
        then ?st else s_Status r)"
      using ch vr status_record(1) [OF st] status_record(2) [of "e_sf e"] st_e est by auto
    define ms1 where "ms1 = ms\<lparr>ms_seen := seen_set (s_IP r) (ms_seen ms),
        ms_sr := (ms_sr ms)\<lparr>sr_OldTotal := sr_OldTotal (ms_sr ms) + 1\<rparr>, ms_ents := (ms_ents ms)[i := e]\<rparr>"
    have step: "old_fn E msk arena r ms = merge_found E arena r e ms1"
      using new has i by (simp add: old_fn_def Let_def ms1_def e_def e0_def)
    show ?thesis
      unfolding step using ch code st_e st vr est ms_e srtT inv
      by (auto simp: merge_found_def Let_def writeOld_def bump_res_def put_merged_ok c0 ms1_def table_inv_def)
  qed
qed

section \<open>The baseline scan as a whole\<close>

fun bump_counts :: "Record list \<Rightarrow> u64 list \<Rightarrow> u64 list" where
  "bump_counts [] cs = cs"
| "bump_counts (r # rs) cs =
     bump_counts rs (cs[unat (Code (r_Status r)) := cs ! unat (Code (r_Status r)) + 1])"

lemma bump_counts_eq:
  "length cs = 8 \<Longrightarrow> bump_counts rs cs = map (\<lambda>c. cs ! c + of_nat (status_count c rs)) [0..<8]"
proof (induction rs arbitrary: cs)
  case Nil
  then show ?case by (simp add: list_eq_iff_nth_eq)
next
  case (Cons r rs)
  have "unat (Code (r_Status r)) < 8" by (rule Code_less)
  then show ?case using Cons by (auto simp: nth_list_update intro!: map_cong)
qed

lemma old_fn_fold:
  assumes "table_inv arena T ms" and "list_all (\<lambda>r. unat (s_Status r) < NumStatusCodes) olds"
  shows "\<exists>ms'. fold_err (old_fn E msk arena) olds ms = (ms', None) \<and> table_inv arena T ms' \<and>
     ms_w ms' = Consume E (map (choice msk T) (first_recs {ip. seen_test ip (ms_seen ms)} olds)) (ms_w ms) \<and>
     ms_counts ms' = bump_counts (map (choice msk T) (first_recs {ip. seen_test ip (ms_seen ms)} olds)) (ms_counts ms) \<and>
     sr_Merged (ms_sr ms') = sr_Merged (ms_sr ms) + of_nat (length (first_recs {ip. seen_test ip (ms_seen ms)} olds)) \<and>
     sr_OldTotal (ms_sr ms') = sr_OldTotal (ms_sr ms) + of_nat (length (first_recs {ip. seen_test ip (ms_seen ms)} olds))"
  using assms
proof (induction olds arbitrary: ms)
  case Nil
  then show ?case by (simp add: Consume_def)
next
  case (Cons r olds)
  let ?S = "{ip. seen_test ip (ms_seen ms)}"
  show ?case
  proof (cases "seen_test (s_IP r) (ms_seen ms)")
    case True
    define ms1 where "ms1 = bump_res (\<lambda>res. res\<lparr>res_OldDups := res_OldDups res + 1\<rparr>) ms"
    have "old_fn E msk arena r ms = (ms1, None)" using True by (simp add: old_fn_def ms1_def)
    moreover have "table_inv arena T ms1" "ms_seen ms1 = ms_seen ms" "ms_w ms1 = ms_w ms"
      "ms_counts ms1 = ms_counts ms" "ms_sr ms1 = ms_sr ms"
      using Cons.prems(1) by (simp_all add: ms1_def bump_res_def table_inv_def)
    ultimately show ?thesis using Cons.IH [of ms1] Cons.prems(2) True by simp
  next
    case False
    obtain ms1 where s: "old_fn E msk arena r ms = (ms1, None)" "table_inv arena T ms1"
      "ms_seen ms1 = seen_set (s_IP r) (ms_seen ms)" "ms_w ms1 = add E (choice msk T r) (ms_w ms)"
      "ms_counts ms1 = (ms_counts ms)[unat (Code (r_Status (choice msk T r))) := ms_counts ms ! unat (Code (r_Status (choice msk T r))) + 1]"
      "sr_Merged (ms_sr ms1) = sr_Merged (ms_sr ms) + 1" "sr_OldTotal (ms_sr ms1) = sr_OldTotal (ms_sr ms) + 1"
      using old_fn_step [OF Cons.prems(1) False, of E msk] Cons.prems(2) by auto
    have S: "{ip. seen_test ip (ms_seen ms1)} = insert (s_IP r) ?S"
      by (auto simp: s(3) seen.mem_ins)
    show ?thesis
      using Cons.IH [OF s(2)] Cons.prems(2) s False unfolding S by (simp add: Consume_def add.assoc)
  qed
qed

lemma first_recs_distinct: "distinct (map s_IP (first_recs S rs)) \<and> s_IP ` set (first_recs S rs) = s_IP ` set rs - S"
  by (induction S rs rule: first_recs.induct) auto

lemma first_recs_subset: "set (first_recs S rs) \<subseteq> set rs"
  by (induction S rs rule: first_recs.induct) auto

section \<open>The merge policy\<close>

text \<open>The policy of the package comment, on stored records.\<close>

definition definitive :: "status_code \<Rightarrow> bool" where
  "definitive c \<longleftrightarrow> c = CodeHasPTR \<or> c = CodeNXDomain \<or> c = CodeNoErrorEmpty"

definition merge_rec :: "status_mask \<Rightarrow> Rec list \<Rightarrow> Rec \<Rightarrow> Rec" where
  "merge_rec msk news r =
     (if \<not> mask_Has msk (s_Status r) then r
      else case find (\<lambda>n. s_IP n = s_IP r) news of
          None \<Rightarrow> r
        | Some n \<Rightarrow> if definitive (s_Status n) \<or> s_Status r \<noteq> CodeHasPTR then n else r)"

text \<open>A record as the crawler stores them.\<close>

definition rec_ok :: "Rec \<Rightarrow> bool" where
  "rec_ok r \<longleftrightarrow> unat (s_Status r) < NumStatusCodes \<and> (s_FCMatch r \<longrightarrow> s_FCChecked r) \<and>
     (if s_Status r = CodeHasPTR
      then s_PTR r \<noteq> [] \<and> length (s_PTR r) \<le> maxPTRNames \<and>
           list_all (\<lambda>n. length n \<le> 1004 \<and> set n \<inter> markers = {} \<and> nameSep \<notin> set n) (s_PTR r)
      else s_PTR r = [])"

lemma HasPTR_StatusString: "unat c < NumStatusCodes \<Longrightarrow> HasPTR (StatusString c) \<longleftrightarrow> c = CodeHasPTR"
  by (simp add: HasPTR_iff_Code Code_StatusString_id CodeHasPTR_def)

lemma stored_mk_record:
  "unat c < NumStatusCodes \<Longrightarrow> stored (mk_record ip c names fc) =
     \<lparr>s_IP = ip, s_Status = c, s_PTR = (if c = CodeHasPTR then take maxPTRNames names else []),
      s_FCChecked = (fc \<noteq> None), s_FCMatch = (fc = Some True)\<rparr>"
  by (simp add: stored_def mk_record_def HasPTR_StatusString Code_StatusString_id)

lemma clean_short_mk_record:
  "list_all (\<lambda>n. length n \<le> 1004 \<and> set n \<inter> markers = {}) names \<Longrightarrow>
     clean_rec (mk_record ip c names fc) \<and> short_rec (mk_record ip c names fc)"
  by (auto simp: clean_rec_def short_rec_def mk_record_def list_all_iff dest: in_set_takeD)

lemma toRecord_ok:
  assumes "rec_ok r"
  shows "stored (toRecord r) = r" "clean_rec (toRecord r) \<and> short_rec (toRecord r)"
proof -
  show "stored (toRecord r) = r"
    using assms by (cases r) (auto simp: toRecord_def rec_ok_def stored_mk_record)
  show "clean_rec (toRecord r) \<and> short_rec (toRecord r)"
    unfolding toRecord_def using assms
    by (intro clean_short_mk_record) (auto simp: rec_ok_def list_all_iff split: if_splits)
qed

lemma status_lt_16: "unat c < NumStatusCodes \<Longrightarrow> unat c < 16"
  by (simp add: NumStatusCodes_def)

lemma viewRecord_ok:
  assumes "rec_ok n"
  shows "stored (viewRecord (rec_view n)) = n" "clean_rec (viewRecord (rec_view n)) \<and> short_rec (viewRecord (rec_view n))"
proof -
  have st: "unat (s_Status n) < NumStatusCodes" using assms by (simp add: rec_ok_def)
  note fl = ent_flags_parts [OF status_lt_16 [OF st]]
  have names: "split_byte nameSep (go_join (s_PTR n) [nameSep]) = s_PTR n" if "s_Status n = CodeHasPTR"
    using assms that by (intro split_byte_join) (auto simp: rec_ok_def list_all_iff)
  have v: "viewRecord (rec_view n) = mk_record (s_IP n) (s_Status n) (s_PTR n) (if s_FCChecked n then Some (s_FCMatch n) else None)"
    using assms fl names by (auto simp: viewRecord_def rec_view_def entRecord_def rec_ok_def)
  then have eq: "viewRecord (rec_view n) = toRecord n" by (simp add: toRecord_def)
  show "stored (viewRecord (rec_view n)) = n" "clean_rec (viewRecord (rec_view n)) \<and> short_rec (viewRecord (rec_view n))"
    unfolding eq using toRecord_ok [OF assms] by auto
qed

lemma choice_ok:
  assumes "arena_ok news" and "list_all rec_ok news" and "rec_ok r"
  shows "stored (choice msk (new_table news) r) = merge_rec msk news r"
    "clean_rec (choice msk (new_table news) r) \<and> short_rec (choice msk (new_table news) r)"
proof -
  have f: "find (\<lambda>v. fst v = s_IP r) (new_table news) = map_option rec_view (find (\<lambda>n. s_IP n = s_IP r) news)"
    by (rule new_pass.build_first [OF assms(1)])
  have n: "rec_ok n" if "find (\<lambda>n. s_IP n = s_IP r) news = Some n" for n
    using that assms(2) by (auto simp: find_Some_iff list_all_iff)
  have fl: "ent_flags n AND entStatusMask = s_Status n" if "rec_ok n" for n
    using that by (intro ent_flags_parts status_lt_16) (simp add: rec_ok_def)
  show "stored (choice msk (new_table news) r) = merge_rec msk news r"
    using toRecord_ok(1) [OF assms(3)] viewRecord_ok(1) n fl
    by (auto simp: choice_def merge_rec_def f definitive_def Let_def rec_view_def [of "_ :: Rec"] split: option.splits)
  show "clean_rec (choice msk (new_table news) r) \<and> short_rec (choice msk (new_table news) r)"
    using toRecord_ok(2) [OF assms(3)] viewRecord_ok(2) n
    by (auto simp: choice_def f Let_def split: option.splits)
qed

section \<open>Merging one shard\<close>

lemma dedup_loop_fst: "fst (dedup_loop key kept es d) = fst (dedup_loop key kept es d')"
  by (induction es arbitrary: kept d d') auto

lemma Scan_fs_cong: "fs_read fs path = fs_read fs' path \<Longrightarrow> Scan E fs path fn s = Scan E fs' path fn s"
  by (simp add: Scan_def)

lemma loadNewShard_ok:
  assumes "ReadHeader fs path = Inr h" and "Scan E fs path collect [] = (news, err)"
    and "err = None \<or> err = Some ErrTruncatedTail" and "arena_ok news"
  shows "\<exists>ents arena dups. loadNewShard E fs path res = Inr (ents, arena, h, err \<noteq> None, res\<lparr>res_NewDups := dups\<rparr>) \<and>
     map (view arena) ents = new_table news"
proof -
  obtain ents arena where l: "fold_err load_fn news ([], []) = ((ents, arena), None)"
    using load_fold [of "[]" news "[]"] assms(4) by (auto simp: arena_ok_def)
  have "Scan E fs path load_fn ([], []) = ((ents, arena), err)"
    using assms(2) l by (simp add: Scan_fold [of E fs path load_fn] Scan_collect)
  moreover obtain es d where d: "dedup_loop e_ip [] (sort_key e_ip ents) (res_NewDups res) = (es, d)" by fastforce
  ultimately have "loadNewShard E fs path res = Inr (es, arena, h, err \<noteq> None, res\<lparr>res_NewDups := d\<rparr>)"
    using assms(1,3) by (auto simp: loadNewShard_def)
  moreover have "map (view arena) es = new_table news"
    using l d dedup_loop_fst [of e_ip "[]" "sort_key e_ip ents" "res_NewDups res" 0] by (simp add: new_table_def)
  ultimately show ?thesis by blast
qed

lemma new_table_inv:
  assumes "arena_ok news" and "list_all rec_ok news" and "map (view arena) (ms_ents ms) = new_table news"
  shows "table_inv arena (new_table news) ms"
proof -
  have "unat (fst (snd v) AND entStatusMask) < NumStatusCodes" if v: "v \<in> set (new_table news)" for v
  proof -
    obtain n where n: "n \<in> set news" "v = rec_view n" using new_pass.build_sound [OF assms(1) v] by auto
    then have "unat (s_Status n) < NumStatusCodes" using assms(2) by (auto simp: list_all_iff rec_ok_def)
    then show ?thesis using n(2) ent_flags_parts(1) [OF status_lt_16] by (simp add: rec_view_def)
  qed
  then show ?thesis
    using assms(3) new_pass.sorted_build [OF assms(1)] by (simp add: table_inv_def list_all_iff)
qed

lemma newWriter_start:
  fixes path shards shardID now t
  defines "w \<equiv> newWriter (replicate headerSize 0) path shards shardID now\<lparr>w_Start := t\<rparr>"
  shows "file_wf w" "w_buf w = []" "w_Path w = path" "blocks_list E (drop headerSize (w_out w)) = ([], None)"
    "header_of w = \<lparr>h_Version = 2, h_Shards = shards, h_ShardID = shardID, h_Total = 0,
      h_Counts = replicate 8 0, h_Created = t\<rparr>"
    "w_Total w = 0" "w_counts w = replicate 8 0"
  by (simp_all add: w_def newWriter_def w_out_def header_of_def formatVer_def NumStatusCodes_def file_wf_def blockRecs_def)

text \<open>A successful run of \<open>mergeShard\<close>: the records added to the output, in baseline order.\<close>

lemma mergeShard_run:
  fixes now :: u64
  assumes hdrs: "ReadHeader fs oldPath = Inr oh" "ReadHeader fs newPath = Inr nh"
    and ids: "h_Shards nh = h_Shards oh" "h_ShardID nh = h_ShardID oh"
    and scans: "Scan E fs oldPath collect [] = (olds, None)" "Scan E fs newPath collect [] = (news, None)"
    and oks: "list_all rec_ok olds" "list_all rec_ok news" and aok: "arena_ok news"
    and paths: "newPath \<noteq> []" "merge_out_path opts oh \<noteq> oldPath"
      "is_dir fs (path_dir (merge_out_path opts oh))" "\<not> is_dir fs (merge_out_path opts oh)"
  defines "out \<equiv> merge_out_path opts oh"
  defines "R \<equiv> map (choice (o_Mask opts) (new_table news)) (first_recs {} olds)"
  defines "w \<equiv> newWriter (replicate headerSize 0) out (h_Shards oh) (h_ShardID oh) now\<lparr>w_Start := h_Created nh\<rparr>"
  defines "fs1 \<equiv> fs_write (fs_write fs out []) out (replicate headerSize 0)"
  shows "\<exists>sr res'. mergeShard E now fs oldPath newPath opts res counts =
     (Close E (Consume E R w) fs1, Inr (sr, res', bump_counts R counts))"
proof -
  define msk where "msk = o_Mask opts"
  obtain ents arena dups where ld: "loadNewShard E fs newPath res = Inr (ents, arena, nh, False, res\<lparr>res_NewDups := dups\<rparr>)"
    and tbl: "map (view arena) ents = new_table news"
    using loadNewShard_ok [OF hdrs(2) scans(2) _ aok, of res] by auto
  define w0 where "w0 = newWriter (replicate headerSize 0) out (h_Shards oh) (h_ShardID oh) now"
  define ms0 where "ms0 = merge_init opts oh newPath ents nh False (res\<lparr>res_NewDups := dups\<rparr>) counts w0"
  have nw: "NewWriter fs out (h_Shards oh) (h_ShardID oh) now = Inr (fs1, w0)"
    using NewWriter_ok paths(3,4) by (simp add: out_def fs1_def w0_def)
  have old1: "Scan E fs1 oldPath fn s = Scan E fs oldPath fn s" for fn :: "Rec \<Rightarrow> mstate \<Rightarrow> mstate \<times> go_error option" and s
    using paths(2) by (intro Scan_fs_cong) (simp add: fs1_def fs_read_write out_def)
  have seen0: "{ip. seen_test ip (ms_seen ms0)} = {}"
    by (simp add: ms0_def merge_init_def seen.mem_empty)
  have "table_inv arena (new_table news) ms0"
    using tbl by (intro new_table_inv aok oks(2)) (simp add: ms0_def merge_init_def)
  moreover have "list_all (\<lambda>r. unat (s_Status r) < NumStatusCodes) olds"
    using oks(1) by (auto simp: list_all_iff rec_ok_def)
  ultimately obtain ms where ms: "fold_err (old_fn E msk arena) olds ms0 = (ms, None)"
    "ms_w ms = Consume E R (ms_w ms0)" "ms_counts ms = bump_counts R (ms_counts ms0)"
    using old_fn_fold [of arena "new_table news" ms0 olds E msk] unfolding seen0 R_def msk_def by blast
  have scan: "Scan E fs1 oldPath (old_fn E msk arena) ms0 = (ms, None)"
    using scans(1) ms(1) by (simp add: old1 Scan_fold [of E fs oldPath "old_fn E msk arena"] Scan_collect)
  have "ms_w ms0 = w" "ms_counts ms0 = counts"
    using paths(1) by (simp_all add: ms0_def merge_init_def w_def w0_def)
  then show ?thesis
    using hdrs(1) ids paths(1) ld nw scan
    by (simp add: mergeShard_def out_def [symmetric] msk_def [symmetric] ms0_def [symmetric] merge_finish_def ms(2,3))
qed

text \<open>What the output file of such a run holds.\<close>

lemma merged_file:
  fixes msk :: status_mask and out :: string and shards shardID :: u16 and now t :: u64
  assumes "zstd_ok E" and "sorts_keys (env_sort_slice E)"
    and aok: "arena_ok news" and oks: "list_all rec_ok olds" "list_all rec_ok news"
  defines "R \<equiv> map (choice msk (new_table news)) (first_recs {} olds)"
  defines "w \<equiv> newWriter (replicate headerSize 0) out shards shardID now\<lparr>w_Start := t\<rparr>"
  shows "\<exists>rs. Scan E (Close E (Consume E R w) fs1) out collect [] = (rs, None) \<and>
     mset rs = mset (map (merge_rec msk news) (first_recs {} olds)) \<and>
     (\<forall>c. status_count c R = length (filter (\<lambda>r. unat (s_Status r) = c) rs)) \<and>
     ReadHeader (Close E (Consume E R w) fs1) out =
       Inr \<lparr>h_Version = 2, h_Shards = shards, h_ShardID = shardID, h_Total = of_nat (length rs),
            h_Counts = map (\<lambda>c. of_nat (length (filter (\<lambda>r. unat (s_Status r) = c) rs))) [0..<8], h_Created = t\<rparr>"
proof -
  have ok: "stored (choice msk (new_table news) r) = merge_rec msk news r"
    "clean_rec (choice msk (new_table news) r)" "short_rec (choice msk (new_table news) r)" if "r \<in> set (first_recs {} olds)" for r
    using choice_ok [OF aok oks(2)] that first_recs_subset oks(1) by (fastforce simp: list_all_iff)+
  note ws = newWriter_start [where path = out and shards = shards and shardID = shardID and now = now and t = t, folded w_def]
  obtain rs where rs: "Scan E (Close E (Consume E R w) fs1) out collect [] = (rs, None)" "mset rs = mset (map stored R)"
    using scan_list_Close [OF assms(1,2) ws(1,2,4), of R fs1] ok ws(3)
    by (auto simp: Scan_collect list_all_iff R_def)
  have cnt: "status_count c R = length (filter (\<lambda>r. unat (s_Status r) = c) rs)" for c
  proof -
    have "status_count c R = length (filter (\<lambda>r. unat (s_Status r) = c) (map stored R))"
      by (simp add: status_count_def filter_map comp_def stored_def)
    also have "\<dots> = size (filter_mset (\<lambda>r. unat (s_Status r) = c) (mset (map stored R)))"
      by (simp only: mset_filter [symmetric] size_mset)
    also have "\<dots> = length (filter (\<lambda>r. unat (s_Status r) = c) rs)"
      by (simp only: rs(2) [symmetric] mset_filter [symmetric] size_mset)
    finally show ?thesis .
  qed
  have len: "length R = length rs" using rs(2) by (metis length_map size_mset)
  have "map stored R = map (merge_rec msk news) (first_recs {} olds)" using ok(1) by (simp add: R_def)
  moreover have "ReadHeader (Close E (Consume E R w) fs1) out =
       Inr \<lparr>h_Version = 2, h_Shards = shards, h_ShardID = shardID, h_Total = of_nat (length rs),
            h_Counts = map (\<lambda>c. of_nat (length (filter (\<lambda>r. unat (s_Status r) = c) rs))) [0..<8], h_Created = t\<rparr>"
    using ReadHeader_Close [OF ws(1), of E R fs1] ws(3,5,6,7) len
    by (simp add: header_Consume cnt cong: map_cong)
  ultimately show ?thesis using rs cnt by metis
qed

lemma merge_rec_IP: "s_IP (merge_rec msk news r) = s_IP r"
  by (auto simp: merge_rec_def find_Some_iff split: option.splits)

lemma merged_ips:
  assumes "mset rs = mset (map (merge_rec msk news) (first_recs {} olds))"
  shows "distinct (map s_IP rs)" "s_IP ` set rs = s_IP ` set olds"
proof -
  have "mset (map s_IP rs) = mset (map s_IP (first_recs {} olds))"
    using assms by (metis (no_types, lifting) comp_apply map_eq_conv map_map merge_rec_IP mset_map)
  then show "distinct (map s_IP rs)" "s_IP ` set rs = s_IP ` set olds"
    using first_recs_distinct [of "{}" olds] by (metis mset_eq_imp_distinct_iff, metis Diff_empty list.set_map mset_eq_setD)
qed

lemma merge_shard_spec:
  assumes "zstd_ok E" and "sorts_keys (env_sort_slice E)"
    and "ReadHeader fs oldPath = Inr oh" and "ReadHeader fs newPath = Inr nh"
    and "h_Shards nh = h_Shards oh" and "h_ShardID nh = h_ShardID oh"
    and "Scan E fs oldPath collect [] = (olds, None)" and "Scan E fs newPath collect [] = (news, None)"
    and "list_all rec_ok olds" and "list_all rec_ok news" and "sum_list (map names_size news) \<le> 4294967295"
    and "newPath \<noteq> []" and "merge_out_path opts oh \<noteq> oldPath"
    and "is_dir fs (path_dir (merge_out_path opts oh))" and "\<not> is_dir fs (merge_out_path opts oh)"
    and "length counts = 8"
  shows "\<exists>fs' sr res' rs. mergeShard E now fs oldPath newPath opts res counts =
       (fs', Inr (sr, res', map (\<lambda>c. counts ! c + of_nat (length (filter (\<lambda>r. unat (s_Status r) = c) rs))) [0..<8])) \<and>
     Scan E fs' (merge_out_path opts oh) collect [] = (rs, None) \<and>
     mset rs = mset (map (merge_rec (o_Mask opts) news) (first_recs {} olds)) \<and>
     distinct (map s_IP rs) \<and> s_IP ` set rs = s_IP ` set olds \<and>
     ReadHeader fs' (merge_out_path opts oh) =
       Inr \<lparr>h_Version = 2, h_Shards = h_Shards oh, h_ShardID = h_ShardID oh, h_Total = of_nat (length rs),
            h_Counts = map (\<lambda>c. of_nat (length (filter (\<lambda>r. unat (s_Status r) = c) rs))) [0..<8],
            h_Created = h_Created nh\<rparr>"
proof -
  have aok: "arena_ok news"
    using assms(10,11) by (auto simp: arena_ok_def list_all_iff rec_ok_def NumStatusCodes_def)
  obtain sr res' fs' R where run: "mergeShard E now fs oldPath newPath opts res counts = (fs', Inr (sr, res', bump_counts R counts))"
    and content: "\<exists>rs. Scan E fs' (merge_out_path opts oh) collect [] = (rs, None) \<and>
      mset rs = mset (map (merge_rec (o_Mask opts) news) (first_recs {} olds)) \<and>
      (\<forall>c. status_count c R = length (filter (\<lambda>r. unat (s_Status r) = c) rs)) \<and>
      ReadHeader fs' (merge_out_path opts oh) =
       Inr \<lparr>h_Version = 2, h_Shards = h_Shards oh, h_ShardID = h_ShardID oh, h_Total = of_nat (length rs),
            h_Counts = map (\<lambda>c. of_nat (length (filter (\<lambda>r. unat (s_Status r) = c) rs))) [0..<8], h_Created = h_Created nh\<rparr>"
    using mergeShard_run [OF assms(3-10) aok assms(12-15), of now res counts]
      merged_file [OF assms(1,2) aok assms(9,10)] by metis
  then show ?thesis unfolding run bump_counts_eq [OF assms(16)] using merged_ips by force
qed

text \<open>
  C5. The merge policy. For a complete baseline shard and a complete re-crawl shard of the same
  identity, \<open>mergeShard\<close> succeeds, and the merged file, read back, holds exactly one record per
  baseline address: its first baseline record, transformed by the documented policy (not
  targeted: unchanged; definitive new answer: replaced; transient new answer: a known PTR is
  kept, otherwise replaced; never observed: unchanged). The header carries the identity of the
  shard, the re-crawl's timestamp and the exact counts, and the running totals grow by exactly
  those counts.\<close>
theorem merge_shard_policy:
  assumes "zstd_ok E" and "sorts_keys (env_sort_slice E)"
    and "ReadHeader fs oldPath = Inr oh" and "ReadHeader fs newPath = Inr nh"
    and "h_Shards nh = h_Shards oh" and "h_ShardID nh = h_ShardID oh"
    and "Scan E fs oldPath collect [] = (olds, None)" and "Scan E fs newPath collect [] = (news, None)"
    and "list_all rec_ok olds" and "list_all rec_ok news" and "sum_list (map names_size news) \<le> 4294967295"
    and "newPath \<noteq> []" and "merge_out_path opts oh \<noteq> oldPath"
    and "is_dir fs (path_dir (merge_out_path opts oh))" and "\<not> is_dir fs (merge_out_path opts oh)"
    and "length counts = 8"
  shows "\<exists>fs' sr res' rs. mergeShard E now fs oldPath newPath opts res counts =
       (fs', Inr (sr, res', map (\<lambda>c. counts ! c + of_nat (length (filter (\<lambda>r. unat (s_Status r) = c) rs))) [0..<8])) \<and>
     Scan E fs' (merge_out_path opts oh) collect [] = (rs, None) \<and>
     mset rs = mset (map (merge_rec (o_Mask opts) news) (first_recs {} olds)) \<and>
     distinct (map s_IP rs) \<and> s_IP ` set rs = s_IP ` set olds \<and>
     ReadHeader fs' (merge_out_path opts oh) =
       Inr \<lparr>h_Version = 2, h_Shards = h_Shards oh, h_ShardID = h_ShardID oh, h_Total = of_nat (length rs),
            h_Counts = map (\<lambda>c. of_nat (length (filter (\<lambda>r. unat (s_Status r) = c) rs))) [0..<8],
            h_Created = h_Created nh\<rparr>"
  by (rule merge_shard_spec [OF assms])

section \<open>Refusals and failures\<close>

lemma run_shards_missing:
  "sid \<in> set sids \<Longrightarrow> map_of news sid = None \<Longrightarrow> \<not> o_AllowPartial opts \<Longrightarrow>
     \<exists>e. snd (run_shards E now opts olds news sids fs res counts) = Inl e"
proof (induction E now opts olds news sids fs res counts rule: run_shards.induct)
  case (2 E now opts olds news sid' sids fs res counts)
  show ?case
  proof (cases "map_of news sid' = None")
    case False
    then have "sid \<in> set sids" using "2.prems"(1,2) by auto
    then show ?thesis
      using 2 False by (auto simp: Let_def split: prod.splits sum.splits option.splits)
  qed (use "2.prems"(3) in simp)
qed simp

text \<open>
  C38. A partially collected re-crawl never passes for a full update: if some baseline shard has
  no counterpart in the new pass and partial input was not allowed, \<open>Run\<close> returns an error.\<close>
theorem merge_missing_shard:
  assumes "discover fs (o_OldPath opts) = Inr olds" and "discover fs (o_NewPath opts) = Inr news"
    and "sid \<in> fst ` set olds" and "map_of news sid = None" and "\<not> o_AllowPartial opts"
  shows "\<exists>e. snd (Run E now fs opts) = Inl e"
proof -
  have sid: "sid \<in> set (sortedKeys olds)" using assms(3) by (simp add: sortedKeys_def)
  show ?thesis
  proof (cases "os_mkdir_all fs (o_OutDir opts)")
    case (Inl e)
    then show ?thesis using assms(1,2) by (simp add: Run_def)
  next
    case (Inr fs1)
    obtain fs2 e where "run_shards E now opts olds news (sortedKeys olds) fs1
        (zero_result\<lparr>res_OutDir := o_OutDir opts, res_TargetStatuses := mask_String (o_Mask opts)\<rparr>)
        (replicate NumStatusCodes 0) = (fs2, Inl e)"
      using run_shards_missing [OF sid assms(4,5)] by (metis prod.collapse)
    then show ?thesis using assms(1,2) Inr by (simp add: Run_def)
  qed
qed

text \<open>
  A truncated re-crawl shard is refused, before anything is written, unless partial input was
  allowed.\<close>
lemma merge_truncated_refused:
  assumes "ReadHeader fs oldPath = Inr oh" and "ReadHeader fs newPath = Inr nh"
    and "Scan E fs newPath collect [] = (news, Some ErrTruncatedTail)" and "arena_ok news"
    and "newPath \<noteq> []" and "\<not> o_AllowPartial opts"
  shows "mergeShard E now fs oldPath newPath opts res counts = (fs, Inl (ErrMsg ''is truncated''))"
proof -
  obtain ents arena dups where "loadNewShard E fs newPath res = Inr (ents, arena, nh, True, res\<lparr>res_NewDups := dups\<rparr>)"
    using loadNewShard_ok [OF assms(2,3) _ assms(4), of res] by auto
  then show ?thesis using assms(1,5,6) by (simp add: mergeShard_def)
qed

text \<open>
  An unreadable baseline leaves no output: when the scan of the old shard fails, \<open>mergeShard\<close>
  returns that error and the output file does not exist afterwards.\<close>
lemma merge_bad_baseline:
  assumes "ReadHeader fs oldPath = Inr oh" and "Scan E fs oldPath collect [] = (olds, Some e)" and "e \<noteq> EPanic"
    and "list_all rec_ok olds" and "merge_out_path opts oh \<noteq> oldPath"
    and "is_dir fs (path_dir (merge_out_path opts oh))" and "\<not> is_dir fs (merge_out_path opts oh)"
  shows "\<exists>fs'. mergeShard E now fs oldPath [] opts res counts = (fs', Inl e) \<and>
     fs_read fs' (merge_out_path opts oh) = None"
proof -
  define out where "out = merge_out_path opts oh"
  define w0 where "w0 = newWriter (replicate headerSize 0) out (h_Shards oh) (h_ShardID oh) now"
  define fs1 where "fs1 = fs_write (fs_write fs out []) out (replicate headerSize 0)"
  define ms0 where "ms0 = merge_init opts oh [] [] zero_header False res counts w0"
  have nw: "NewWriter fs out (h_Shards oh) (h_ShardID oh) now = Inr (fs1, w0)"
    using NewWriter_ok assms(6,7) by (simp add: out_def fs1_def w0_def)
  have old1: "Scan E fs1 oldPath fn s = Scan E fs oldPath fn s" for fn :: "Rec \<Rightarrow> mstate \<Rightarrow> mstate \<times> go_error option" and s
    using assms(5) by (intro Scan_fs_cong) (simp add: fs1_def fs_read_write out_def)
  have "table_inv [] [] ms0" by (simp add: table_inv_def ms0_def merge_init_def)
  moreover have "list_all (\<lambda>r. unat (s_Status r) < NumStatusCodes) olds"
    using assms(4) by (auto simp: list_all_iff rec_ok_def)
  ultimately obtain ms where ms: "fold_err (old_fn E (o_Mask opts) []) olds ms0 = (ms, None)"
    using old_fn_fold by blast
  have scan: "Scan E fs1 oldPath (old_fn E (o_Mask opts) []) ms0 = (ms, Some e)"
    using assms(2) ms by (simp add: old1 Scan_fold [of E fs oldPath "old_fn E (o_Mask opts) []"] Scan_collect)
  have "mergeShard E now fs oldPath [] opts res counts = (os_remove (Close E (ms_w ms) fs1) out, Inl e)"
    using assms(1,3) nw scan by (cases e) (simp_all add: mergeShard_def out_def [symmetric] ms0_def [symmetric])
  then show ?thesis by (simp add: out_def fs_read_remove)
qed

text \<open>A shard of the new pass that \<open>mergeShard\<close> accepts for a baseline shard: none at all, or one that loads, is
  complete (or may be partial) and has the identity of the baseline.\<close>

definition accepted :: "env \<Rightarrow> fs \<Rightarrow> Options \<Rightarrow> Header \<Rightarrow> string \<Rightarrow> Result \<Rightarrow> bool" where
  "accepted E fs opts oh newPath res \<longleftrightarrow> newPath = [] \<or>
     (case loadNewShard E fs newPath res of Inl _ \<Rightarrow> False
      | Inr (ents, arena, nh, truncated, res) \<Rightarrow> (truncated \<longrightarrow> o_AllowPartial opts) \<and>
          h_Shards nh = h_Shards oh \<and> h_ShardID nh = h_ShardID oh)"

text \<open>
  C39. Merging in place destroys the baseline. When the output path of a shard is the path of its own
  baseline file, then with every new shard that the merge accepts (and without one) the merge of the shard
  succeeds, but the file has been truncated before it is scanned: it is left without any record, whatever
  it and the new shard held, and the report says that nothing was in the baseline and nothing was merged.\<close>
theorem merge_in_place_empties:
  assumes "ReadHeader fs oldPath = Inr oh" and "merge_out_path opts oh = oldPath"
    and "is_dir fs (path_dir oldPath)" and "\<not> is_dir fs oldPath" and acc: "accepted E fs opts oh newPath res"
  shows "\<exists>fs' sr res' counts'. mergeShard E now fs oldPath newPath opts res counts = (fs', Inr (sr, res', counts')) \<and>
     sr_OldTotal sr = 0 \<and> sr_Merged sr = 0 \<and> Scan E fs' oldPath collect [] = ([], None)"
proof -
  obtain ents arena nh tr res1 where ld: "(if newPath = [] then Inr ([], [], zero_header, False, res)
      else loadNewShard E fs newPath res) = Inr (ents, arena, nh, tr, res1)"
    and ids: "newPath \<noteq> [] \<longrightarrow> (tr \<longrightarrow> o_AllowPartial opts) \<and> h_Shards nh = h_Shards oh \<and> h_ShardID nh = h_ShardID oh"
    using acc by (cases "newPath = []"; cases "loadNewShard E fs newPath res") (auto simp: accepted_def)
  define w0 where "w0 = newWriter (replicate headerSize 0) oldPath (h_Shards oh) (h_ShardID oh) now"
  define fs1 where "fs1 = fs_write (fs_write fs oldPath []) oldPath (replicate headerSize 0)"
  define ms0 where "ms0 = merge_init opts oh newPath ents nh tr res1 counts w0"
  define t where "t = (if newPath \<noteq> [] then h_Created nh else h_Created oh)"
  have nw: "NewWriter fs oldPath (h_Shards oh) (h_ShardID oh) now = Inr (fs1, w0)"
    using NewWriter_ok assms(3,4) by (simp add: fs1_def w0_def)
  have "scan_list E fs1 oldPath = ([], None)" by (simp add: scan_list_def fs1_def fs_read_write)
  then have scan: "Scan E fs1 oldPath (old_fn E (o_Mask opts) arena) ms0 = (ms0, None)" by (simp add: Scan_fold)
  have run: "mergeShard E now fs oldPath newPath opts res counts =
      (Close E (ms_w ms0) fs1, Inr (snd (merge_finish E fs1 ms0)))"
    using assms(1) nw scan ids ld by (simp add: mergeShard_def assms(2) ms0_def [symmetric] merge_finish_def) blast
  have w: "ms_w ms0 = Consume E [] (w0\<lparr>w_Start := t\<rparr>)" by (simp add: ms0_def merge_init_def Consume_def t_def)
  note ws = newWriter_start [where path = oldPath and shards = "h_Shards oh" and shardID = "h_ShardID oh" and now = now
      and t = t, folded w0_def]
  have "Scan E (Close E (ms_w ms0) fs1) oldPath collect [] = ([], None)"
    using Close_file [OF ws(1), of E "[]" fs1] ws(2,3,4) length_header_bytes [of "Consume E [] (w0\<lparr>w_Start := t\<rparr>)"] ws(1)
    unfolding w by (auto simp: Scan_collect scan_list_def Consume_def file_wf_def)
  moreover have "sr_OldTotal (ms_sr ms0) = 0" "sr_Merged (ms_sr ms0) = 0" by (simp_all add: ms0_def merge_init_def)
  ultimately show ?thesis unfolding run by (simp add: merge_finish_def)
qed

text \<open>
  Status nibbles above the known range are not handled: a baseline record whose stored status
  is 8 or more makes the merge panic on the index of the status histogram.\<close>
lemma merge_status_panic:
  assumes "NumStatusCodes \<le> unat (s_Status r)" and "\<not> mask_Has msk (s_Status r)"
    and "\<not> seen_test (s_IP r) (ms_seen ms)"
  shows "snd (old_fn E msk arena r ms) = Some EPanic"
  using assms by (simp add: old_fn_def writeOld_def put_merged_def Let_def)

text \<open>
  The name arena does not distinguish no name from one empty name: a re-crawl record with
  status \<open>has_ptr\<close> and no PTR name comes back from the arena with one empty name.\<close>
lemma merge_empty_names:
  assumes "s_Status r = CodeHasPTR" and "s_PTR r = []"
  shows "\<exists>ents arena. load_fn r ([], []) = ((ents, arena), None) \<and> map (ent_names arena) ents = [[[]]]"
  using assms by (simp add: load_fn_def ent_names_def)

section \<open>Shard discovery\<close>

lemma discover_files_sound:
  "discover_files fs files shards = Inr m \<Longrightarrow> distinct (map fst shards) \<Longrightarrow>
     (\<And>k f. (k, f) \<in> set shards \<Longrightarrow> \<exists>h. ReadHeader fs f = Inr h \<and> unat (h_ShardID h) = k) \<Longrightarrow>
     distinct (map fst m) \<and> snd ` set m = snd ` set shards \<union> set files \<and>
     (\<forall>(k, f) \<in> set m. \<exists>h. ReadHeader fs f = Inr h \<and> unat (h_ShardID h) = k)"
proof (induction files arbitrary: shards)
  case (Cons f files)
  obtain h where h1: "ReadHeader fs f = Inr h"
    using Cons.prems(1) by (cases "ReadHeader fs f") auto
  have h: "ReadHeader fs f = Inr h" "map_of shards (unat (h_ShardID h)) = None"
    "discover_files fs files (AList.update (unat (h_ShardID h)) f shards) = Inr m"
    using Cons.prems(1) h1 by (simp_all split: if_splits)
  have up: "AList.update k f xs = xs @ [(k, f)]" if "map_of xs k = None" for k f and xs :: "(nat \<times> string) list"
    using that by (induction xs) (auto split: if_splits)
  define sh where "sh = shards @ [(unat (h_ShardID h), f)]"
  have "distinct (map fst sh)" using Cons.prems(2) h(2) by (auto simp: sh_def map_of_eq_None_iff)
  moreover have "\<exists>h. ReadHeader fs g = Inr h \<and> unat (h_ShardID h) = k" if "(k, g) \<in> set sh" for k g
    using that Cons.prems(3) h(1) by (auto simp: sh_def)
  moreover have "discover_files fs files sh = Inr m" using h(3) up [OF h(2)] by (simp add: sh_def)
  ultimately have "distinct (map fst m) \<and> snd ` set m = snd ` set sh \<union> set files \<and>
      (\<forall>(k, f) \<in> set m. \<exists>h. ReadHeader fs f = Inr h \<and> unat (h_ShardID h) = k)"
    using Cons.IH by blast
  then show ?case by (auto simp: sh_def)
qed auto

text \<open>
  Discovery pairs by identity: on success every shard number occurs once, every file of the
  pass is listed, and each listed file's header names the shard it is listed under.\<close>
lemma discover_sound:
  assumes "discover fs path = Inr m"
  shows "distinct (map fst m) \<and>
     snd ` set m = (case os_stat fs path of StatDir \<Rightarrow> set (glob_rdnsz fs path) | _ \<Rightarrow> {path}) \<and> m \<noteq> [] \<and>
     list_all (\<lambda>(k, f). \<exists>h. ReadHeader fs f = Inr h \<and> unat (h_ShardID h) = k) m"
proof -
  obtain files where files: "discover_files fs files [] = Inr m" "files \<noteq> []"
    "set files = (case os_stat fs path of StatDir \<Rightarrow> set (glob_rdnsz fs path) | _ \<Rightarrow> {path})"
  proof (cases "os_stat fs path")
    case StatDir
    then show ?thesis using assms that [of "glob_rdnsz fs path"] by (simp add: discover_def split: if_splits)
  next
    case (StatFile n)
    then show ?thesis using assms that [of "[path]"] by (simp add: discover_def del: discover_files.simps)
  qed (use assms in \<open>simp add: discover_def\<close>)
  have "distinct (map fst m) \<and> snd ` set m = set files \<and>
     (\<forall>(k, f) \<in> set m. \<exists>h. ReadHeader fs f = Inr h \<and> unat (h_ShardID h) = k)"
    using discover_files_sound [OF files(1)] by auto
  then show ?thesis using files(2,3) by (auto simp: list_all_iff)
qed

section \<open>Change detection and number rendering\<close>

text \<open>
  The change detector ignores order and case: name lists that agree as multisets after
  lower-casing and removal of a trailing dot have the same hash.\<close>
lemma hash_names_order_case:
  assumes "mset (map (norm_name E) a) = mset (map (norm_name E) b)"
  shows "hashNames E a = hashNames E b"
  using assms by (rule hashNames_mset)

text \<open>\<open>group\<close> of the text report.\<close>

function group_loop :: "string \<Rightarrow> string \<Rightarrow> string" where
  "group_loop b s =
     (if s = [] then b
      else group_loop ((if b \<noteq> [] then b @ '','' else b) @ take 3 s) (drop 3 s))"
  by pat_completeness auto
termination
  by (relation "measure (\<lambda>(b, s). length s)") auto

declare group_loop.simps [simp del]

definition group :: "u64 \<Rightarrow> string" where
  "group n =
     (let s = show_nat (unat n) in
      if length s \<le> 3 then s
      else let pre = length s mod 3 in group_loop (take pre s) (drop pre s))"

lemma group_loop_digits: "filter (\<lambda>c. c \<noteq> CHR '','') (group_loop b s) = filter (\<lambda>c. c \<noteq> CHR '','') (b @ s)"
proof (induction b s rule: group_loop.induct)
  case (1 b s)
  show ?case
  proof (cases "s = []")
    case False
    have "filter (\<lambda>c. c \<noteq> CHR '','') (take 3 s) @ filter (\<lambda>c. c \<noteq> CHR '','') (drop 3 s) = filter (\<lambda>c. c \<noteq> CHR '','') s"
      by (metis append_take_drop_id filter_append)
    then show ?thesis using 1 [OF False] False by (subst group_loop.simps) (simp split: if_splits)
  qed (simp add: group_loop.simps)
qed

text \<open>
  Rendered counts keep their digits: removing the separators of a grouped number leaves its
  decimal representation.\<close>
lemma group_digits: "filter (\<lambda>c. c \<noteq> CHR '','') (group n) = show_nat (unat n)"
proof -
  have "filter (\<lambda>c. c \<noteq> CHR '','') (show_nat (unat n)) = show_nat (unat n)"
    using show_nat_digits [of _ "unat n"] by (fastforce simp: filter_id_conv)
  then show ?thesis by (simp add: group_def Let_def group_loop_digits)
qed

section \<open>Concrete instances\<close>

definition shard_file :: "fs \<Rightarrow> string \<Rightarrow> u16 \<Rightarrow> Record list \<Rightarrow> fs" where
  "shard_file fs path sid recs =
     Close test_env (Consume test_env recs (newWriter (replicate headerSize 0) path 4 sid 99)) fs"

lemma shard_file_scan: "clean_rec r \<Longrightarrow> short_rec r \<Longrightarrow>
    Scan test_env (shard_file fs path sid [r]) path collect [] = ([stored r], None)"
  using scan_list_Close [OF zstd_ok_test_env test_env_sorts(1) newWriter_fresh(1,2,4), of "[r]" path 4 sid 99 fs]
  by (auto simp: Scan_collect shard_file_def newWriter_fresh(3) dest: mset_singleton)

lemma shard_file_header: "ReadHeader (shard_file fs path sid [r]) path =
    Inr \<lparr>h_Version = 2, h_Shards = 4, h_ShardID = sid, h_Total = 1,
         h_Counts = map (\<lambda>c. of_nat (status_count c [r])) [0..<8], h_Created = 99\<rparr>"
  using ReadHeader_Close [OF newWriter_fresh(1), of test_env "[r]" path 4 sid 99 fs]
    newWriter_fresh(3,5,6,7) [of path 4 sid 99]
  by (simp add: shard_file_def header_Consume cong: map_cong)

lemma shard_file_other: "q \<noteq> path \<Longrightarrow> fs_read (shard_file fs path sid recs) q = fs_read fs q"
  "is_dir (shard_file fs path sid recs) = is_dir fs"
  by (simp_all add: shard_file_def Close_def Let_def fs_read_write flushBlock_simps Consume_frame newWriter_fresh(3))

lemma read_cong: "fs_read fs p = fs_read fs' p \<Longrightarrow> ReadHeader fs p = ReadHeader fs' p"
  by (simp add: ReadHeader_def)

definition dirs_example :: fs where
  "dirs_example = \<lparr>fs_files = [], fs_dirs = [''o'', ''n'', ''m'']\<rparr>"

definition timeout_example :: Record where
  "timeout_example = rec_example\<lparr>r_Status := StatusTimeout, r_PTR := [], r_FCrDNS := None\<rparr>"

lemma timeout_example_ok [simp]: "clean_rec timeout_example" "short_rec timeout_example"
  by (simp_all add: timeout_example_def clean_rec_def short_rec_def)

definition fs_pair :: fs where
  "fs_pair = shard_file (shard_file dirs_example ''o/s.rdnsz'' 1 [rec_example]) ''n/s.rdnsz'' 1 [timeout_example]"

definition opts_example :: Options where
  "opts_example = \<lparr>o_OldPath = ''o/s.rdnsz'', o_NewPath = ''n/s.rdnsz'', o_OutDir = ''m'', o_Mask = 1, o_AllowPartial = False\<rparr>"

lemma Code_examples: "Code StatusHasPTR = 0" "Code StatusTimeout = 5"
  by (simp_all add: Code_def statusToCode_def status_defs code_defs)

lemma stored_examples:
  "stored rec_example = \<lparr>s_IP = 0x01020304, s_Status = 0, s_PTR = [''h-1-2-3-4.x.net''], s_FCChecked = True, s_FCMatch = True\<rparr>"
  "stored timeout_example = \<lparr>s_IP = 0x01020304, s_Status = 5, s_PTR = [], s_FCChecked = False, s_FCMatch = False\<rparr>"
  by (simp_all add: stored_def rec_example_def timeout_example_def HasPTR_iff_Code Code_examples maxPTRNames_def)

lemma rec_ok_examples [simp]: "rec_ok (stored rec_example)" "rec_ok (stored timeout_example)"
  by (simp_all add: rec_ok_def stored_examples NumStatusCodes_def CodeHasPTR_def maxPTRNames_def markers_def marker_defs nameSep_def)

lemma fs_pair_scans:
  "Scan test_env fs_pair ''o/s.rdnsz'' collect [] = ([stored rec_example], None)"
  "Scan test_env fs_pair ''n/s.rdnsz'' collect [] = ([stored timeout_example], None)"
proof -
  show "Scan test_env fs_pair ''o/s.rdnsz'' collect [] = ([stored rec_example], None)"
    using shard_file_scan [of rec_example dirs_example "''o/s.rdnsz''" 1]
      Scan_fs_cong [OF shard_file_other(1), of "''o/s.rdnsz''" "''n/s.rdnsz''" test_env _ 1 _ collect "[]"]
    by (simp add: fs_pair_def)
  show "Scan test_env fs_pair ''n/s.rdnsz'' collect [] = ([stored timeout_example], None)"
    unfolding fs_pair_def by (rule shard_file_scan) simp_all
qed

lemma fs_pair_headers:
  "\<exists>oh nh. ReadHeader fs_pair ''o/s.rdnsz'' = Inr oh \<and> ReadHeader fs_pair ''n/s.rdnsz'' = Inr nh \<and>
     h_Shards oh = 4 \<and> h_Shards nh = 4 \<and> h_ShardID oh = 1 \<and> h_ShardID nh = 1"
proof -
  have "ReadHeader fs_pair ''o/s.rdnsz'' = ReadHeader (shard_file dirs_example ''o/s.rdnsz'' 1 [rec_example]) ''o/s.rdnsz''"
    unfolding fs_pair_def by (rule read_cong) (simp add: shard_file_other)
  then show ?thesis
    by (simp add: shard_file_header fs_pair_def)
qed

lemma out_example: "h_ShardID h = 1 \<Longrightarrow> merge_out_path opts_example h = ''m/shard-'' @ show_nat 1 @ ''.rdnsz''"
  by (simp add: merge_out_path_def opts_example_def path_join_def)

lemma show_nat_1: "show_nat 1 = ''1''"
  by (simp add: show_nat.simps digit_char_def char_of_eq_iff)

theorem merge_shard_policy_witness:
  "\<exists>fs' x. mergeShard test_env 7 fs_pair ''o/s.rdnsz'' ''n/s.rdnsz'' opts_example zero_result (replicate 8 0) = (fs', Inr x) \<and>
     Scan test_env fs' ''m/shard-1.rdnsz'' collect [] = ([stored rec_example], None)"
proof -
  obtain oh nh where h: "ReadHeader fs_pair ''o/s.rdnsz'' = Inr oh" "ReadHeader fs_pair ''n/s.rdnsz'' = Inr nh"
    "h_Shards oh = 4" "h_Shards nh = 4" "h_ShardID oh = 1" "h_ShardID nh = 1"
    using fs_pair_headers by blast
  have out: "merge_out_path opts_example oh = ''m/shard-1.rdnsz''"
    using out_example [OF h(5)] by (simp only: show_nat_1) simp
  have "merge_rec 1 [stored timeout_example] (stored rec_example) = stored rec_example"
    by (simp add: merge_rec_def stored_examples definitive_def code_defs)
  moreover have "o_Mask opts_example = 1" by (simp add: opts_example_def)
  moreover have "sum_list (map names_size [stored timeout_example]) \<le> 4294967295"
    by (simp add: names_size_def stored_examples CodeHasPTR_def)
  moreover have "is_dir fs_pair (path_dir ''m/shard-1.rdnsz'')" "\<not> is_dir fs_pair ''m/shard-1.rdnsz''"
    by (simp_all add: fs_pair_def shard_file_other is_dir_def dirs_example_def path_dir_def)
  ultimately obtain fs' sr res' cs rs where
    "mergeShard test_env 7 fs_pair ''o/s.rdnsz'' ''n/s.rdnsz'' opts_example zero_result (replicate 8 0) = (fs', Inr (sr, res', cs))"
    "Scan test_env fs' ''m/shard-1.rdnsz'' collect [] = (rs, None)" "mset rs = {#stored rec_example#}"
    using merge_shard_policy [OF zstd_ok_test_env test_env_sorts(1) h(1,2) _ _ fs_pair_scans, of opts_example "replicate 8 0" 7 zero_result]
      h(3-6) out by auto
  then show ?thesis by (auto dest: mset_singleton)
qed

definition fs_missing :: fs where
  "fs_missing = shard_file (shard_file dirs_example ''o/s.rdnsz'' 1 [rec_example]) ''n/s.rdnsz'' 2 [timeout_example]"

lemma fs_missing_read:
  "ReadHeader fs_missing ''o/s.rdnsz'' = ReadHeader (shard_file dirs_example ''o/s.rdnsz'' 1 [rec_example]) ''o/s.rdnsz''"
  unfolding fs_missing_def by (rule read_cong) (simp add: shard_file_other)

lemma os_stat_header: "ReadHeader fs p = Inr h \<Longrightarrow> \<exists>n. os_stat fs p = StatFile n"
  by (auto simp: ReadHeader_def os_stat_def split: option.splits)

lemma discover_one: "ReadHeader fs p = Inr h \<Longrightarrow> discover fs p = Inr [(unat (h_ShardID h), p)]"
  using os_stat_header [of fs p h] by (auto simp: discover_def)

theorem merge_missing_shard_witness: "\<exists>e. snd (Run test_env 7 fs_missing opts_example) = Inl e"
proof (rule merge_missing_shard)
  show "discover fs_missing (o_OldPath opts_example) = Inr [(1, ''o/s.rdnsz'')]"
    using discover_one [OF trans [OF fs_missing_read shard_file_header]] by (simp add: opts_example_def)
  show "discover fs_missing (o_NewPath opts_example) = Inr [(2, ''n/s.rdnsz'')]"
    using discover_one [OF shard_file_header] by (simp add: opts_example_def fs_missing_def)
  show "(1 :: nat) \<in> fst ` set [(1, ''o/s.rdnsz'')]" by simp
  show "map_of [(2 :: nat, ''n/s.rdnsz'')] 1 = None" by simp
  show "\<not> o_AllowPartial opts_example" by (simp add: opts_example_def)
qed

text \<open>A file whose last block is cut off.\<close>

definition fs_cut :: fs where
  "fs_cut = fs_write dirs_example ''o/s.rdnsz'' (header_bytes (newWriter [] ''o/s.rdnsz'' 4 1 99) @ [0])"

lemma header_newWriter:
  fixes w path defines "w \<equiv> newWriter [] path 4 1 99"
  shows "length (header_bytes w) = headerSize" "parse_header (header_bytes w @ rest) = Inr (header_of w)"
    "h_ShardID (header_of w) = 1"
  unfolding w_def
  by (rule length_header_bytes, simp add: newWriter_def NumStatusCodes_def)
    (rule parse_header_bytes, simp add: newWriter_def NumStatusCodes_def, simp add: header_of_def newWriter_def)

lemma fs_cut_facts:
  "ReadHeader fs_cut ''o/s.rdnsz'' = Inr (header_of (newWriter [] ''o/s.rdnsz'' 4 1 99))"
  "Scan E fs_cut ''o/s.rdnsz'' collect [] = ([], Some ErrTruncatedTail)"
  by (simp_all add: fs_cut_def ReadHeader_def fs_read_write header_newWriter Scan_collect scan_list_def blocks_list.simps)

lemma merge_truncated_refused_instance:
  "mergeShard test_env 7 fs_cut ''o/s.rdnsz'' ''o/s.rdnsz'' opts_example zero_result (replicate 8 0) =
     (fs_cut, Inl (ErrMsg ''is truncated''))"
  by (rule merge_truncated_refused [OF fs_cut_facts(1,1,2)]) (simp_all add: arena_ok_def opts_example_def)

lemma merge_bad_baseline_instance:
  "\<exists>fs'. mergeShard test_env 7 fs_cut ''o/s.rdnsz'' [] opts_example zero_result (replicate 8 0) = (fs', Inl ErrTruncatedTail) \<and>
     fs_read fs' ''m/shard-1.rdnsz'' = None"
proof -
  have out: "merge_out_path opts_example (header_of (newWriter [] ''o/s.rdnsz'' 4 1 99)) = ''m/shard-1.rdnsz''"
    using out_example [OF header_newWriter(3)] by (simp only: show_nat_1) simp
  show ?thesis
    using merge_bad_baseline [OF fs_cut_facts, where opts = opts_example and now = 7 and res = zero_result and counts = "replicate 8 0"]
    by (simp add: out fs_cut_def dirs_example_def is_dir_def path_dir_def)
qed

text \<open>A baseline in the output directory, and a re-crawl of it that has a record.\<close>

definition fs_in_place :: fs where
  "fs_in_place = shard_file (shard_file dirs_example ''m/shard-1.rdnsz'' 1 [rec_example]) ''n/s.rdnsz'' 1 [timeout_example]"

theorem merge_in_place_empties_witness:
  "\<exists>fs' sr res' counts'. mergeShard test_env 7 fs_in_place ''m/shard-1.rdnsz'' ''n/s.rdnsz'' opts_example zero_result (replicate 8 0) =
       (fs', Inr (sr, res', counts')) \<and>
     sr_OldTotal sr = 0 \<and> sr_Merged sr = 0 \<and> Scan test_env fs' ''m/shard-1.rdnsz'' collect [] = ([], None)"
proof -
  let ?oh = "\<lparr>h_Version = 2, h_Shards = 4, h_ShardID = 1, h_Total = 1,
      h_Counts = map (\<lambda>c. of_nat (status_count c [rec_example])) [0..<8], h_Created = 99\<rparr>"
  have oh: "ReadHeader fs_in_place ''m/shard-1.rdnsz'' = Inr ?oh"
    unfolding fs_in_place_def by (rule trans [OF read_cong [OF shard_file_other(1)] shard_file_header]) simp
  obtain nh where nh: "ReadHeader fs_in_place ''n/s.rdnsz'' = Inr nh" "h_Shards nh = 4" "h_ShardID nh = 1"
    using shard_file_header by (simp add: fs_in_place_def)
  have news: "Scan test_env fs_in_place ''n/s.rdnsz'' collect [] = ([stored timeout_example], None)"
    unfolding fs_in_place_def by (rule shard_file_scan) simp_all
  have "arena_ok [stored timeout_example]"
    by (simp add: arena_ok_def names_size_def stored_examples CodeHasPTR_def)
  then obtain ents arena dups where "loadNewShard test_env fs_in_place ''n/s.rdnsz'' zero_result =
      Inr (ents, arena, nh, False, zero_result\<lparr>res_NewDups := dups\<rparr>)"
    using loadNewShard_ok [OF nh(1) news, of zero_result] by auto
  then have "accepted test_env fs_in_place opts_example ?oh ''n/s.rdnsz'' zero_result" using nh(2,3) by (simp add: accepted_def)
  moreover have "merge_out_path opts_example ?oh = ''m/shard-1.rdnsz''"
    by (subst out_example) (simp, simp only: show_nat_1, simp)
  moreover have "is_dir fs_in_place (path_dir ''m/shard-1.rdnsz'')" "\<not> is_dir fs_in_place ''m/shard-1.rdnsz''"
    by (simp_all add: fs_in_place_def shard_file_other dirs_example_def is_dir_def path_dir_def)
  ultimately show ?thesis using merge_in_place_empties [OF oh] by blast
qed

lemma merge_status_panic_instance:
  "snd (old_fn test_env 1 [] \<lparr>s_IP = 1, s_Status = 9, s_PTR = [], s_FCChecked = False, s_FCMatch = False\<rparr>
     (merge_init opts_example zero_header [] [] zero_header False zero_result (replicate 8 0) (newWriter [] [] 1 0 0))) = Some EPanic"
  by (rule merge_status_panic)
    (simp_all add: NumStatusCodes_def mask_Has_def merge_init_def seen.mem_empty)

lemma merge_empty_names_instance:
  "\<exists>ents arena. load_fn \<lparr>s_IP = 1, s_Status = 0, s_PTR = [], s_FCChecked = False, s_FCMatch = False\<rparr> ([], []) =
     ((ents, arena), None) \<and> map (ent_names arena) ents = [[[]]]"
  by (rule merge_empty_names) (simp_all add: CodeHasPTR_def)

lemma discover_sound_instance:
  "distinct (map fst [(1 :: nat, ''o/s.rdnsz'')]) \<and> discover fs_missing ''o/s.rdnsz'' = Inr [(1, ''o/s.rdnsz'')] \<and>
     (\<exists>h. ReadHeader fs_missing ''o/s.rdnsz'' = Inr h \<and> unat (h_ShardID h) = 1)"
proof -
  have d: "discover fs_missing ''o/s.rdnsz'' = Inr [(1, ''o/s.rdnsz'')]"
    using discover_one [OF trans [OF fs_missing_read shard_file_header]] by simp
  show ?thesis using discover_sound [OF d] d by simp
qed

lemma norm_name_examples:
  "norm_name test_env ''A.'' = ''a''" "norm_name test_env ''a'' = ''a''"
  "norm_name test_env ''B'' = ''b''" "norm_name test_env ''b'' = ''b''"
  by code_simp+

lemma hash_names_order_case_instance: "hashNames test_env [''A.'', ''b''] = hashNames test_env [''B'', ''a'']"
  by (rule hash_names_order_case) (simp add: norm_name_examples add_mset_commute)

end
