(* ===== verification/Compare.thy ===== *)
theory Compare
  imports Store_File Sorted_Table Name_Hash Complex_Main "HOL-Library.Signed_Division"
begin

unbundle bit_operations_syntax

text \<open>
  The pass comparison (\<^verbatim>\<open>src/internal/compare/compare.go\<close>): the targets of the previous pass are
  loaded into a sorted table, the new pass is streamed against it, and every target is counted
  in one cell of the transition matrix, under its old status and its first new status or under
  the column \<open>missing\<close>. Floating-point results take the rounding function as a parameter.
\<close>

section \<open>Data\<close>

record compare_Options =
  co_OldPath :: string
  co_NewPath :: string
  co_Mask :: status_mask
  co_TopTLDs :: int

text \<open>\<open>pi_Created\<close> is in Unix seconds.\<close>

record PassInfo =
  pi_Path :: string
  pi_Files :: nat
  pi_Shards :: u16
  pi_Created :: int
  pi_TotalQueried :: u64

record FCStats =
  fc_BothChecked :: u64
  fc_MatchBoth :: u64
  fc_MatchOldOnly :: u64
  fc_MatchNewOnly :: u64
  fc_MatchNeither :: u64

type_synonym ucounter = "(string \<times> u64) list"

record GainedStats =
  g_Total :: u64
  g_FCChecked :: u64
  g_FCMatch :: u64
  g_TopTLDs :: ucounter

record Headline =
  hl_TimeoutTargets :: u64
  hl_TimeoutCrawled :: u64
  hl_TimeoutNowPTRPct :: real
  hl_TimeoutNowDefinitive :: real
  hl_TimeoutStillTimeout :: real
  hl_HasPTRTargets :: u64
  hl_HasPTRCrawled :: u64
  hl_PTRUnchangedPct :: real
  hl_PTRChangedPct :: real
  hl_PTRRemovedPct :: real
  hl_PTRTransientPct :: real
  hl_ChangedPerDayPct :: real

record compare_Result =
  cr_Old :: PassInfo
  cr_New :: PassInfo
  cr_DaysBetween :: real
  cr_ComparedShards :: "nat list"
  cr_MissingNewShards :: "nat list"
  cr_TruncatedNewShards :: "nat list"
  cr_TargetStatuses :: string
  cr_Targets :: ucounter
  cr_Transitions :: "(string \<times> ucounter) list"
  cr_PTRUnchanged :: u64
  cr_PTRChanged :: u64
  cr_FC :: FCStats
  cr_Gained :: GainedStats
  cr_Headline :: Headline
  cr_OldDupTargets :: u64
  cr_NewDupRecords :: u64
  cr_UnexpectedNew :: u64

definition missingCol :: nat where "missingCol = NumStatusCodes"

record oldEnt =
  oe_ip :: u32
  oe_status :: status_code
  oe_flags :: u8
  oe_hash :: u64

definition fFCChecked :: u8 where "fFCChecked = 1"
definition fFCMatch :: u8 where "fFCMatch = 2"
definition fSeen :: u8 where "fSeen = 4"

lemmas old_flag_defs = fFCChecked_def fFCMatch_def fSeen_def

type_synonym matrix = "u64 list list"

definition cell :: "matrix \<Rightarrow> nat \<Rightarrow> nat \<Rightarrow> u64" where
  "cell mt c d = mt ! c ! d"

definition bump_cell :: "nat \<Rightarrow> nat \<Rightarrow> matrix \<Rightarrow> matrix" where
  "bump_cell c d mt = mt[c := (mt ! c)[d := mt ! c ! d + 1]]"

definition zero_matrix :: matrix where
  "zero_matrix = replicate NumStatusCodes (replicate (NumStatusCodes + 1) 0)"

text \<open>\<open>m[k]++\<close> and \<open>m[k]\<close> on a Go map of counters.\<close>

definition ucount :: "ucounter \<Rightarrow> string \<Rightarrow> u64" where
  "ucount m k = (case map_of m k of None \<Rightarrow> 0 | Some v \<Rightarrow> v)"

definition ubump :: "string \<Rightarrow> ucounter \<Rightarrow> ucounter" where
  "ubump k m = AList.update k (ucount m k + 1) m"

section \<open>Names\<close>

definition compare_hashNames :: "env \<Rightarrow> string list \<Rightarrow> u64" where
  "compare_hashNames E names =
     (if names = [] then 0
      else fold fnv_name (sort (map (norm_name E) names)) offset64)"

definition compare_tldOf :: "env \<Rightarrow> string \<Rightarrow> string" where
  "compare_tldOf E host =
     (let host = trim_suffix (to_lower E host) ''.'' in
      case last_index host (CHR ''.'') of
        None \<Rightarrow> ''(none)''
      | Some i \<Rightarrow> if i = length host - 1 then ''(none)'' else drop (i + 1) host)"

section \<open>Discovery\<close>

fun compare_discover_files ::
  "fs \<Rightarrow> string list \<Rightarrow> (nat \<times> string) list \<Rightarrow> PassInfo \<Rightarrow> u64 \<Rightarrow>
   go_error + ((nat \<times> string) list \<times> PassInfo \<times> u64)" where
  "compare_discover_files fs [] shards info createdSum = Inr (shards, info, createdSum)"
| "compare_discover_files fs (f # files) shards info createdSum =
     (case ReadHeader fs f of
        Inl e \<Rightarrow> Inl e
      | Inr h \<Rightarrow>
          if map_of shards (unat (h_ShardID h)) \<noteq> None then Inl (ErrMsg ''both claim shard'')
          else if pi_Shards info \<noteq> 0 \<and> pi_Shards info \<noteq> h_Shards h then Inl (ErrMsg ''shards differs'')
          else compare_discover_files fs files (AList.update (unat (h_ShardID h)) f shards)
                 (info\<lparr>pi_Shards := (if pi_Shards info = 0 then h_Shards h else pi_Shards info),
                       pi_TotalQueried := pi_TotalQueried info + h_Total h\<rparr>)
                 (createdSum + h_Created h))"

definition compare_discover :: "fs \<Rightarrow> string \<Rightarrow> go_error + ((nat \<times> string) list \<times> PassInfo)" where
  "compare_discover fs path =
     (case (case os_stat fs path of
              StatErr \<Rightarrow> Inl ErrNotExist
            | StatDir \<Rightarrow> Inr (glob_rdnsz fs path)
            | StatFile n \<Rightarrow> Inr [path]) of
        Inl e \<Rightarrow> Inl e
      | Inr files \<Rightarrow>
          if files = [] then Inl (ErrMsg ''no .rdnsz files'')
          else case compare_discover_files fs files []
                      \<lparr>pi_Path = path, pi_Files = length files, pi_Shards = 0, pi_Created = 0, pi_TotalQueried = 0\<rparr> 0 of
              Inl e \<Rightarrow> Inl e
            | Inr (shards, info, createdSum) \<Rightarrow>
                Inr (shards, info\<lparr>pi_Created := sint createdSum sdiv int (length files)\<rparr>))"

definition compare_sortedKeys :: "(nat \<times> string) list \<Rightarrow> nat list" where
  "compare_sortedKeys m = sort (map fst m)"

section \<open>The table of the previous pass\<close>

definition old_ent :: "env \<Rightarrow> Rec \<Rightarrow> oldEnt" where
  "old_ent E r =
     (let flags = (if s_FCChecked r then
                     (if s_FCMatch r then 0 OR fFCChecked OR fFCMatch else 0 OR fFCChecked)
                   else 0)
      in \<lparr>oe_ip = s_IP r, oe_status = s_Status r, oe_flags = flags,
          oe_hash = (if s_Status r = CodeHasPTR then compare_hashNames E (s_PTR r) else 0)\<rparr>)"

definition load_old_fn :: "env \<Rightarrow> status_mask \<Rightarrow> Rec \<Rightarrow> oldEnt list \<Rightarrow> oldEnt list \<times> go_error option" where
  "load_old_fn E msk r ents =
     (if \<not> mask_Has msk (s_Status r) then (ents, None) else (ents @ [old_ent E r], None))"

definition loadOldTargets ::
  "env \<Rightarrow> fs \<Rightarrow> string \<Rightarrow> status_mask \<Rightarrow> oldEnt list \<Rightarrow> oldEnt list \<times> go_error option" where
  "loadOldTargets E fs path msk ents = Scan E fs path (load_old_fn E msk) ents"

definition dedupSorted :: "oldEnt list \<Rightarrow> oldEnt list \<times> u64" where
  "dedupSorted s = (if length s < 2 then (s, 0) else dedup_loop oe_ip [hd s] (tl s) 0)"

section \<open>Joining the new pass\<close>

record jstate =
  j_ents :: "oldEnt list"
  j_matrix :: matrix
  j_res :: compare_Result
  j_tlds :: ucounter

definition join_fc :: "oldEnt \<Rightarrow> Rec \<Rightarrow> FCStats \<Rightarrow> FCStats" where
  "join_fc e r fc =
     (if oe_flags e AND fFCChecked \<noteq> 0 \<and> s_FCChecked r then
        (let fc = fc\<lparr>fc_BothChecked := fc_BothChecked fc + 1\<rparr> in
         if oe_flags e AND fFCMatch \<noteq> 0 \<and> s_FCMatch r then fc\<lparr>fc_MatchBoth := fc_MatchBoth fc + 1\<rparr>
         else if oe_flags e AND fFCMatch \<noteq> 0 then fc\<lparr>fc_MatchOldOnly := fc_MatchOldOnly fc + 1\<rparr>
         else if s_FCMatch r then fc\<lparr>fc_MatchNewOnly := fc_MatchNewOnly fc + 1\<rparr>
         else fc\<lparr>fc_MatchNeither := fc_MatchNeither fc + 1\<rparr>)
      else fc)"

definition join_gained :: "Rec \<Rightarrow> GainedStats \<Rightarrow> GainedStats" where
  "join_gained r g =
     (let g = g\<lparr>g_Total := g_Total g + 1\<rparr> in
      if s_FCChecked r then
        (let g = g\<lparr>g_FCChecked := g_FCChecked g + 1\<rparr> in
         if s_FCMatch r then g\<lparr>g_FCMatch := g_FCMatch g + 1\<rparr> else g)
      else g)"

text \<open>What is recorded for a target that the new pass observed as \<open>r\<close>, apart from the matrix.\<close>

definition join_stats :: "env \<Rightarrow> oldEnt \<Rightarrow> Rec \<Rightarrow> jstate \<Rightarrow> jstate" where
  "join_stats E e r js =
     (let js = (if oe_status e = CodeHasPTR \<and> s_Status r = CodeHasPTR then
                  js\<lparr>j_res := (let res = j_res js;
                                   res = (if oe_hash e = compare_hashNames E (s_PTR r)
                                          then res\<lparr>cr_PTRUnchanged := cr_PTRUnchanged res + 1\<rparr>
                                          else res\<lparr>cr_PTRChanged := cr_PTRChanged res + 1\<rparr>)
                               in res\<lparr>cr_FC := join_fc e r (cr_FC res)\<rparr>)\<rparr>
                else js)
      in if oe_status e \<noteq> CodeHasPTR \<and> s_Status r = CodeHasPTR then
           js\<lparr>j_res := (j_res js)\<lparr>cr_Gained := join_gained r (cr_Gained (j_res js))\<rparr>,
              j_tlds := fold (\<lambda>n. ubump (compare_tldOf E n)) (s_PTR r) (j_tlds js)\<rparr>
         else js)"

definition join_fn :: "env \<Rightarrow> Rec \<Rightarrow> jstate \<Rightarrow> jstate \<times> go_error option" where
  "join_fn E r js =
     (case lookup_ip oe_ip (j_ents js) (s_IP r) of
        None \<Rightarrow> (js\<lparr>j_res := (j_res js)\<lparr>cr_UnexpectedNew := cr_UnexpectedNew (j_res js) + 1\<rparr>\<rparr>, None)
      | Some i \<Rightarrow>
          let e = j_ents js ! i in
          if oe_flags e AND fSeen \<noteq> 0
          then (js\<lparr>j_res := (j_res js)\<lparr>cr_NewDupRecords := cr_NewDupRecords (j_res js) + 1\<rparr>\<rparr>, None)
          else
            let e = e\<lparr>oe_flags := oe_flags e OR fSeen\<rparr>;
                js = js\<lparr>j_ents := (j_ents js)[i := e]\<rparr> in
            if NumStatusCodes \<le> unat (oe_status e) \<or> NumStatusCodes + 1 \<le> unat (s_Status r)
            then (js, Some EPanic)
            else (join_stats E e r
                    (js\<lparr>j_matrix := bump_cell (unat (oe_status e)) (unat (s_Status r)) (j_matrix js)\<rparr>), None))"

definition joinNewPass :: "env \<Rightarrow> fs \<Rightarrow> string \<Rightarrow> jstate \<Rightarrow> jstate \<times> bool \<times> go_error option" where
  "joinNewPass E fs path js =
     (case Scan E fs path (join_fn E) js of
        (js, err) \<Rightarrow> if err = Some ErrTruncatedTail then (js, True, None) else (js, False, err))"

text \<open>Targets never observed in the new pass.\<close>

definition missing_fn :: "oldEnt \<Rightarrow> matrix \<Rightarrow> matrix \<times> go_error option" where
  "missing_fn e mt =
     (if oe_flags e AND fSeen = 0 then
        (if NumStatusCodes \<le> unat (oe_status e) then (mt, Some EPanic)
         else (bump_cell (unat (oe_status e)) missingCol mt, None))
      else (mt, None))"

definition count_missing :: "oldEnt list \<Rightarrow> matrix \<Rightarrow> matrix \<times> go_error option" where
  "count_missing ents mt = fold_err missing_fn ents mt"

section \<open>One shard pair and the whole run\<close>

definition compare_shard ::
  "env \<Rightarrow> fs \<Rightarrow> status_mask \<Rightarrow> nat \<Rightarrow> string \<Rightarrow> string \<Rightarrow> matrix \<Rightarrow> compare_Result \<Rightarrow> ucounter \<Rightarrow>
   go_error + (matrix \<times> compare_Result \<times> ucounter)" where
  "compare_shard E fs msk sid oldPath newPath mt res tlds =
     (let res = res\<lparr>cr_ComparedShards := cr_ComparedShards res @ [sid]\<rparr> in
      case loadOldTargets E fs oldPath msk [] of
        (ents, Some e) \<Rightarrow> Inl e
      | (ents, None) \<Rightarrow>
          (let (ents, dups) = dedupSorted (sort_with (env_sort_func E) oe_ip ents);
               res = res\<lparr>cr_OldDupTargets := cr_OldDupTargets res + dups,
                         cr_Targets := fold (\<lambda>e. ubump (StatusString (oe_status e))) ents (cr_Targets res)\<rparr>
           in case joinNewPass E fs newPath \<lparr>j_ents = ents, j_matrix = mt, j_res = res, j_tlds = tlds\<rparr> of
                (js, truncated, Some e) \<Rightarrow> Inl e
              | (js, truncated, None) \<Rightarrow>
                  (case count_missing (j_ents js) (j_matrix js) of
                     (mt, Some e) \<Rightarrow> Inl e
                   | (mt, None) \<Rightarrow>
                       Inr (mt,
                            (if truncated
                             then (j_res js)\<lparr>cr_TruncatedNewShards := cr_TruncatedNewShards (j_res js) @ [sid]\<rparr>
                             else j_res js),
                            j_tlds js))))"

fun compare_shards ::
  "env \<Rightarrow> fs \<Rightarrow> status_mask \<Rightarrow> (nat \<times> string) list \<Rightarrow> (nat \<times> string) list \<Rightarrow> nat list \<Rightarrow>
   matrix \<Rightarrow> compare_Result \<Rightarrow> ucounter \<Rightarrow> go_error + (matrix \<times> compare_Result \<times> ucounter)" where
  "compare_shards E fs msk olds news [] mt res tlds = Inr (mt, res, tlds)"
| "compare_shards E fs msk olds news (sid # sids) mt res tlds =
     (case map_of news sid of
        None \<Rightarrow> compare_shards E fs msk olds news sids mt
                  (res\<lparr>cr_MissingNewShards := cr_MissingNewShards res @ [sid]\<rparr>) tlds
      | Some newPath \<Rightarrow>
          (case compare_shard E fs msk sid (the (map_of olds sid)) newPath mt res tlds of
             Inl e \<Rightarrow> Inl e
           | Inr (mt, res, tlds) \<Rightarrow> compare_shards E fs msk olds news sids mt res tlds))"

section \<open>The report\<close>

definition rowSum :: "u64 list \<Rightarrow> u64" where
  "rowSum row = fold (\<lambda>v s. s + v) row 0"

definition transition_row :: "u64 list \<Rightarrow> ucounter" where
  "transition_row row =
     fold (\<lambda>nw m. if row ! nw = 0 then m
                  else AList.update (if nw = missingCol then ''missing'' else StatusString (of_nat nw)) (row ! nw) m)
       [0..<NumStatusCodes + 1] []"

definition transitions :: "status_mask \<Rightarrow> matrix \<Rightarrow> (string \<times> ucounter) list" where
  "transitions msk mt =
     fold (\<lambda>old m. if mask_Has msk (of_nat old)
                   then AList.update (StatusString (of_nat old)) (transition_row (mt ! old)) m else m)
       [0..<NumStatusCodes] []"

definition topTLDs :: "ucounter \<Rightarrow> nat \<Rightarrow> ucounter" where
  "topTLDs m n = take n (sort_key (\<lambda>kv. (- int (unat (snd kv)), fst kv)) m)"

text \<open>\<open>100 * float64(n) / float64(c)\<close> with rounding \<open>fl\<close>.\<close>

definition pct :: "(real \<Rightarrow> real) \<Rightarrow> u64 \<Rightarrow> u64 \<Rightarrow> real" where
  "pct fl n c = fl (fl (100 * fl (real (unat n))) / fl (real (unat c)))"

definition zero_headline :: Headline where
  "zero_headline = \<lparr>hl_TimeoutTargets = 0, hl_TimeoutCrawled = 0, hl_TimeoutNowPTRPct = 0,
     hl_TimeoutNowDefinitive = 0, hl_TimeoutStillTimeout = 0, hl_HasPTRTargets = 0, hl_HasPTRCrawled = 0,
     hl_PTRUnchangedPct = 0, hl_PTRChangedPct = 0, hl_PTRRemovedPct = 0, hl_PTRTransientPct = 0,
     hl_ChangedPerDayPct = 0\<rparr>"

definition headline :: "(real \<Rightarrow> real) \<Rightarrow> matrix \<Rightarrow> compare_Result \<Rightarrow> Headline" where
  "headline fl mt res =
     (let h = zero_headline;
          to = mt ! unat CodeTimeout;
          col = (\<lambda>row c. row ! unat (c :: status_code));
          h = h\<lparr>hl_TimeoutTargets := ucount (cr_Targets res) StatusTimeout,
                hl_TimeoutCrawled := rowSum to - to ! missingCol\<rparr>;
          h = (if 0 < hl_TimeoutCrawled h then
                 h\<lparr>hl_TimeoutNowPTRPct := pct fl (col to CodeHasPTR) (hl_TimeoutCrawled h),
                   hl_TimeoutNowDefinitive :=
                     pct fl (col to CodeHasPTR + col to CodeNXDomain + col to CodeNoErrorEmpty) (hl_TimeoutCrawled h),
                   hl_TimeoutStillTimeout := pct fl (col to CodeTimeout) (hl_TimeoutCrawled h)\<rparr>
               else h);
          hp = mt ! unat CodeHasPTR;
          h = h\<lparr>hl_HasPTRTargets := ucount (cr_Targets res) StatusHasPTR,
                hl_HasPTRCrawled := rowSum hp - hp ! missingCol\<rparr>
      in if 0 < hl_HasPTRCrawled h then
           h\<lparr>hl_PTRUnchangedPct := pct fl (cr_PTRUnchanged res) (hl_HasPTRCrawled h),
             hl_PTRChangedPct := pct fl (cr_PTRChanged res) (hl_HasPTRCrawled h),
             hl_PTRRemovedPct := pct fl (col hp CodeNXDomain + col hp CodeNoErrorEmpty) (hl_HasPTRCrawled h),
             hl_PTRTransientPct := pct fl (col hp CodeTimeout + col hp CodeServFail + col hp CodeRefused +
               col hp CodeNetError + col hp CodeLameDelegation) (hl_HasPTRCrawled h),
             hl_ChangedPerDayPct :=
               (if 0 < cr_DaysBetween res
                then fl (pct fl (cr_PTRChanged res) (hl_HasPTRCrawled h) / cr_DaysBetween res) else 0)\<rparr>
         else h)"

definition finalize :: "(real \<Rightarrow> real) \<Rightarrow> status_mask \<Rightarrow> int \<Rightarrow> matrix \<Rightarrow> ucounter \<Rightarrow> compare_Result \<Rightarrow> compare_Result" where
  "finalize fl msk topN_TLDs mt tlds res =
     (let res = res\<lparr>cr_Transitions := transitions msk mt,
                    cr_Gained := (cr_Gained res)\<lparr>g_TopTLDs := topTLDs tlds (nat topN_TLDs)\<rparr>\<rparr>
      in res\<lparr>cr_Headline := headline fl mt res\<rparr>)"

text \<open>\<open>Time.Sub\<close> saturates at the range of \<open>time.Duration\<close>; \<open>Hours\<close> splits off whole hours.\<close>

definition duration_between :: "int \<Rightarrow> int \<Rightarrow> int" where
  "duration_between new old = max (- (2 ^ 63)) (min (2 ^ 63 - 1) ((new - old) * 1000000000))"

definition duration_hours :: "(real \<Rightarrow> real) \<Rightarrow> int \<Rightarrow> real" where
  "duration_hours fl d =
     fl (fl (real_of_int (d sdiv 3600000000000)) + fl (fl (real_of_int (d smod 3600000000000)) / 3600000000000))"

definition zero_compare_Result :: "PassInfo \<Rightarrow> PassInfo \<Rightarrow> string \<Rightarrow> real \<Rightarrow> compare_Result" where
  "zero_compare_Result old new statuses days =
     \<lparr>cr_Old = old, cr_New = new, cr_DaysBetween = days, cr_ComparedShards = [], cr_MissingNewShards = [],
      cr_TruncatedNewShards = [], cr_TargetStatuses = statuses, cr_Targets = [], cr_Transitions = [], cr_PTRUnchanged = 0, cr_PTRChanged = 0,
      cr_FC = \<lparr>fc_BothChecked = 0, fc_MatchBoth = 0, fc_MatchOldOnly = 0, fc_MatchNewOnly = 0, fc_MatchNeither = 0\<rparr>,
      cr_Gained = \<lparr>g_Total = 0, g_FCChecked = 0, g_FCMatch = 0, g_TopTLDs = []\<rparr>,
      cr_Headline = zero_headline, cr_OldDupTargets = 0, cr_NewDupRecords = 0, cr_UnexpectedNew = 0\<rparr>"

definition compare_Run :: "env \<Rightarrow> (real \<Rightarrow> real) \<Rightarrow> fs \<Rightarrow> compare_Options \<Rightarrow> go_error + compare_Result" where
  "compare_Run E fl fs opts =
     (let topN_TLDs = (if co_TopTLDs opts \<le> 0 then 20 else co_TopTLDs opts) in
      case compare_discover fs (co_OldPath opts) of
        Inl e \<Rightarrow> Inl e
      | Inr (olds, oldInfo) \<Rightarrow>
          (case compare_discover fs (co_NewPath opts) of
             Inl e \<Rightarrow> Inl e
           | Inr (news, newInfo) \<Rightarrow>
               if pi_Shards oldInfo \<noteq> pi_Shards newInfo then Inl (ErrMsg ''shard layout mismatch'')
               else
                 (case compare_shards E fs (co_Mask opts) olds news (compare_sortedKeys olds) zero_matrix
                         (zero_compare_Result oldInfo newInfo (mask_String (co_Mask opts))
                            (fl (duration_hours fl (duration_between (pi_Created newInfo) (pi_Created oldInfo)) / 24))) [] of
                    Inl e \<Rightarrow> Inl e
                  | Inr (mt, res, tlds) \<Rightarrow> Inr (finalize fl (co_Mask opts) topN_TLDs mt tlds res))))"

section \<open>The table keeps one observation per target\<close>

definition old_table :: "env \<Rightarrow> Rec list \<Rightarrow> oldEnt list" where
  "old_table E rs = fst (dedupSorted (sort_with (env_sort_func E) oe_ip (map (old_ent E) rs)))"

lemma dedupSorted_loop: "dedupSorted s = dedup_loop oe_ip [] s 0"
proof (cases s)
  case (Cons e es)
  then show ?thesis by (cases es) (simp_all add: dedupSorted_def)
qed (simp add: dedupSorted_def)

lemma find_key_mem: "find (\<lambda>e. key e = k) xs \<noteq> None \<longleftrightarrow> k \<in> key ` set xs"
  by (auto simp: find_None_iff image_iff)

lemma find_strict_sorted:
  "sorted_wrt (<) (map key r) \<Longrightarrow> e \<in> set r \<Longrightarrow> find (\<lambda>x. key x = (key e :: u32)) r = Some e"
  by (induction r) auto

interpretation old_pass: obs_table s_IP "old_ent E" "\<lambda>rs. sorts_keys (env_sort_func E)" oe_ip "old_table E" for E
proof
  fix rs :: "Rec list"
  assume srt: "sorts_keys (env_sort_func E)"
  let ?S = "sort_with (env_sort_func E) oe_ip (map (old_ent E) rs)"
  have setS: "set ?S = old_ent E ` set rs" using set_sort_with [OF srt, of oe_ip "map (old_ent E) rs"] by simp
  obtain r d where r: "dedup_loop oe_ip [] ?S 0 = (r, d)" "sorted_wrt (<) (map oe_ip r)"
    "\<And>ip. find (\<lambda>e. oe_ip e = ip) r = find (\<lambda>e. oe_ip e = ip) ?S"
    using dedup_loop_correct [of oe_ip "[]" ?S 0] sorted_sort_with [OF srt] by auto
  have T: "old_table E rs = r" using r(1) by (simp add: old_table_def dedupSorted_loop)
  have ip: "oe_ip (old_ent E x) = s_IP x" for x by (simp add: old_ent_def Let_def)
  show "sorted_wrt (<) (map oe_ip (old_table E rs))" using T r(2) by simp
  show "\<exists>x\<in>set rs. e = old_ent E x \<and> oe_ip e = s_IP x" if e: "e \<in> set (old_table E rs)" for e
  proof -
    have "find (\<lambda>x. oe_ip x = oe_ip e) ?S = Some e"
      using r(3) find_strict_sorted [OF r(2)] e T by metis
    then have "e \<in> set ?S" by (auto simp: find_Some_iff)
    then show ?thesis using setS ip by auto
  qed
  show "s_IP x \<in> oe_ip ` set (old_table E rs)" if "x \<in> set rs" for x
  proof -
    have "s_IP x \<in> oe_ip ` set ?S" using that setS ip by (auto simp: image_iff)
    then show ?thesis using r(3) find_key_mem [of oe_ip "s_IP x"] T by metis
  qed
qed

section \<open>The transition matrix\<close>

definition matrix_wf :: "matrix \<Rightarrow> bool" where
  "matrix_wf mt \<longleftrightarrow> length mt = 8 \<and> list_all (\<lambda>row. length row = 9) mt"

lemma bump_cell_wf: "matrix_wf mt \<Longrightarrow> c < 8 \<Longrightarrow> matrix_wf (bump_cell c d mt)"
  by (auto simp: matrix_wf_def bump_cell_def list_all_length nth_list_update)

lemma cell_bump:
  "matrix_wf mt \<Longrightarrow> c < 8 \<Longrightarrow> d < 9 \<Longrightarrow>
     cell (bump_cell c d mt) c' d' = cell mt c' d' + (if c' = c \<and> d' = d then 1 else 0)"
  by (auto simp: matrix_wf_def cell_def bump_cell_def list_all_length nth_list_update)

text \<open>The column under which a target is counted, given the new records still to come.\<close>

definition column :: "Rec list \<Rightarrow> oldEnt \<Rightarrow> nat option" where
  "column news e = map_option (\<lambda>r. unat (s_Status r)) (find (\<lambda>r. s_IP r = oe_ip e) news)"

abbreviation unseen :: "oldEnt \<Rightarrow> bool" where
  "unseen e \<equiv> oe_flags e AND fSeen = 0"

definition hits :: "Rec list \<Rightarrow> nat \<Rightarrow> nat \<Rightarrow> oldEnt \<Rightarrow> u64" where
  "hits news c d e = (if unseen e \<and> unat (oe_status e) = c \<and> column news e = Some d then 1 else 0)"

lemma sum_list_update_map:
  fixes f g :: "'e \<Rightarrow> u64"
  assumes "i < length xs" and "\<And>j. j < length xs \<Longrightarrow> j \<noteq> i \<Longrightarrow> f (xs ! j) = g (xs ! j)"
  shows "sum_list (map f xs) = f (xs ! i) - g y + sum_list (map g (xs[i := y]))"
  using assms
proof (induction xs arbitrary: i)
  case (Cons x xs)
  show ?case
  proof (cases i)
    case 0
    have "map f xs = map g xs"
      using Cons.prems(2) [of "Suc _"] 0 by (auto simp: in_set_conv_nth)
    then have "sum_list (map f xs) = sum_list (map g xs)" by (rule arg_cong)
    then show ?thesis using 0 by simp
  next
    case (Suc k)
    have "sum_list (map f xs) = f (xs ! k) - g y + sum_list (map g (xs[k := y]))"
      using Cons.prems(1) Suc Cons.prems(2) [of "Suc _"] by (intro Cons.IH) auto
    moreover have "f x = g x" using Cons.prems(2) [of 0] Suc by simp
    ultimately show ?thesis using Suc by simp
  qed
qed simp

definition join_inv :: "jstate \<Rightarrow> bool" where
  "join_inv js \<longleftrightarrow> sorted_wrt (<) (map oe_ip (j_ents js)) \<and> matrix_wf (j_matrix js) \<and>
     list_all (\<lambda>e. unat (oe_status e) < 8) (j_ents js)"

lemma join_stats_frame [simp]: "j_ents (join_stats E e r js) = j_ents js" "j_matrix (join_stats E e r js) = j_matrix js"
  by (simp_all add: join_stats_def Let_def)

lemma fSeen_nonzero [simp]: "fSeen \<noteq> 0"
  by (simp add: fSeen_def)

lemma find_Cons_other: "s_IP r \<noteq> oe_ip e \<Longrightarrow> column (r # news) e = column news e"
  by (simp add: column_def)

text \<open>
  One new record: the entry it matches is no longer unseen, and the cells move by exactly what the
  record decides.
\<close>

definition join_effect :: "Rec \<Rightarrow> jstate \<Rightarrow> jstate \<Rightarrow> bool" where
  "join_effect r js js' \<longleftrightarrow> join_inv js' \<and> map oe_ip (j_ents js') = map oe_ip (j_ents js) \<and>
     map oe_status (j_ents js') = map oe_status (j_ents js) \<and>
     (\<forall>i<length (j_ents js). unseen (j_ents js' ! i) \<longleftrightarrow> unseen (j_ents js ! i) \<and> oe_ip (j_ents js ! i) \<noteq> s_IP r) \<and>
     (\<forall>c d news. cell (j_matrix js) c d + sum_list (map (hits (r # news) c d) (j_ents js)) =
        cell (j_matrix js') c d + sum_list (map (hits news c d) (j_ents js')))"

lemma hits_other: "unseen e \<longrightarrow> oe_ip e \<noteq> s_IP r \<Longrightarrow> hits (r # news) c d e = hits news c d e"
  using find_Cons_other [of r e news] by (auto simp: hits_def)

lemma join_effect_same:
  assumes "join_inv js" and same: "j_ents js' = j_ents js" "j_matrix js' = j_matrix js"
    and no: "\<And>e. e \<in> set (j_ents js) \<Longrightarrow> unseen e \<Longrightarrow> oe_ip e \<noteq> s_IP r"
  shows "join_effect r js js'"
proof -
  have "sum_list (map (hits (r # news) c d) (j_ents js)) = sum_list (map (hits news c d) (j_ents js))" for news c d
    by (intro arg_cong [of _ _ sum_list] map_cong refl hits_other) (use no in blast)
  then show ?thesis using assms(1) same no by (auto simp: join_effect_def join_inv_def)
qed

lemma join_effect_mark:
  assumes inv: "join_inv js" and i: "i < length (j_ents js)" "oe_ip (j_ents js ! i) = s_IP r" "unseen (j_ents js ! i)"
    and st: "unat (s_Status r) < 9"
    and e': "e' = (j_ents js ! i)\<lparr>oe_flags := oe_flags (j_ents js ! i) OR fSeen\<rparr>"
    and ents': "j_ents js' = (j_ents js)[i := e']"
    and mt': "j_matrix js' = bump_cell (unat (oe_status (j_ents js ! i))) (unat (s_Status r)) (j_matrix js)"
  shows "join_effect r js js'"
proof -
  let ?e = "j_ents js ! i"
  have srt: "sorted_wrt (<) (map oe_ip (j_ents js))" and wf: "matrix_wf (j_matrix js)"
    and st_e: "\<And>e. e \<in> set (j_ents js) \<Longrightarrow> unat (oe_status e) < 8"
    using inv by (auto simp: join_inv_def list_all_iff)
  have other: "oe_ip (j_ents js ! j) \<noteq> s_IP r" if "j < length (j_ents js)" "j \<noteq> i" for j
    using sorted_wrt_nth_less [OF srt, of j i] sorted_wrt_nth_less [OF srt, of i j] that i by (cases "j < i") auto
  have ste: "unat (oe_status ?e) < 8" using st_e i(1) by simp
  have seen': "\<not> unseen e'" by (simp add: e')
  have maps: "map oe_ip (j_ents js') = map oe_ip (j_ents js)" "map oe_status (j_ents js') = map oe_status (j_ents js)"
    unfolding ents' using i(1) by (simp_all add: map_update e' list_update_same_conv)
  have "join_inv js'"
    using inv maps(1) bump_cell_wf [OF wf ste] ste st_e
    by (auto simp: join_inv_def mt' list_all_iff ents' e' dest!: set_update_subset_insert [THEN subsetD])
  moreover have "unseen (j_ents js' ! j) \<longleftrightarrow> unseen (j_ents js ! j) \<and> oe_ip (j_ents js ! j) \<noteq> s_IP r" if "j < length (j_ents js)" for j
    using seen' other [OF that] i by (cases "j = i") (auto simp: ents')
  moreover have "cell (j_matrix js) c d + sum_list (map (hits (r # news) c d) (j_ents js)) =
      cell (j_matrix js') c d + sum_list (map (hits news c d) (j_ents js'))" for c d news
  proof -
    have "sum_list (map (hits (r # news) c d) (j_ents js)) =
        hits (r # news) c d ?e - hits news c d e' + sum_list (map (hits news c d) (j_ents js'))"
      unfolding ents' by (intro sum_list_update_map i(1) hits_other) (use other in blast)
    moreover have "hits news c d e' = 0" using seen' by (simp add: hits_def)
    moreover have "hits (r # news) c d ?e = (if unat (oe_status ?e) = c \<and> unat (s_Status r) = d then 1 else 0)"
      using i(2,3) by (simp add: hits_def column_def)
    ultimately show ?thesis using cell_bump [OF wf ste st, of c d] by (auto simp: mt')
  qed
  ultimately show ?thesis using maps unfolding join_effect_def by blast
qed

lemma join_step:
  assumes inv: "join_inv js" and st: "unat (s_Status r) < 9"
  shows "\<exists>js'. join_fn E r js = (js', None) \<and> join_effect r js js'"
proof -
  have srt: "sorted_wrt (<) (map oe_ip (j_ents js))" using inv by (simp add: join_inv_def)
  show ?thesis
  proof (cases "lookup_ip oe_ip (j_ents js) (s_IP r)")
    case None
    then have "s_IP r \<notin> oe_ip ` set (j_ents js)" using lookup_ip_None [OF srt] by blast
    then have "oe_ip e \<noteq> s_IP r" if "e \<in> set (j_ents js)" for e using that by (metis imageI)
    then show ?thesis using None by (auto simp: join_fn_def intro!: join_effect_same [OF inv])
  next
    case (Some i)
    then have i: "i < length (j_ents js)" "oe_ip (j_ents js ! i) = s_IP r" using lookup_ip_Some [OF srt] by auto
    show ?thesis
    proof (cases "unseen (j_ents js ! i)")
      case False
      have "oe_ip e \<noteq> s_IP r" if "e \<in> set (j_ents js)" "unseen e" for e
        using find_strict_sorted [OF srt] i that False by (metis nth_mem option.inject)
      then show ?thesis using Some False by (auto simp: join_fn_def Let_def intro!: join_effect_same [OF inv])
    next
      case True
      have "unat (oe_status (j_ents js ! i)) < 8" using inv i(1) by (simp add: join_inv_def list_all_length)
      then show ?thesis
        using Some True st
        by (auto simp: join_fn_def Let_def NumStatusCodes_def intro!: join_effect_mark [OF inv i True st refl])
    qed
  qed
qed

text \<open>The whole new pass: the final cells add, for every target, its hit.\<close>

lemma join_all:
  assumes "join_inv js" and "\<And>r. r \<in> set news \<Longrightarrow> unat (s_Status r) < 9"
  shows "\<exists>js'. fold_err (join_fn E) news js = (js', None) \<and> join_inv js' \<and>
     map oe_ip (j_ents js') = map oe_ip (j_ents js) \<and> map oe_status (j_ents js') = map oe_status (j_ents js) \<and>
     (\<forall>i<length (j_ents js). unseen (j_ents js' ! i) \<longleftrightarrow> unseen (j_ents js ! i) \<and> column news (j_ents js ! i) = None) \<and>
     (\<forall>c d. cell (j_matrix js') c d = cell (j_matrix js) c d + sum_list (map (hits news c d) (j_ents js)))"
  using assms
proof (induction news arbitrary: js)
  case Nil
  have "hits [] c d = (\<lambda>e. 0)" for c d by (simp add: hits_def column_def fun_eq_iff)
  then show ?case using Nil by (simp add: column_def)
next
  case (Cons r news)
  obtain js1 where s: "join_fn E r js = (js1, None)" "join_inv js1" "map oe_ip (j_ents js1) = map oe_ip (j_ents js)"
    "map oe_status (j_ents js1) = map oe_status (j_ents js)"
    "\<And>i. i < length (j_ents js) \<Longrightarrow> unseen (j_ents js1 ! i) \<longleftrightarrow> unseen (j_ents js ! i) \<and> oe_ip (j_ents js ! i) \<noteq> s_IP r"
    "\<And>c d. cell (j_matrix js) c d + sum_list (map (hits (r # news) c d) (j_ents js)) =
        cell (j_matrix js1) c d + sum_list (map (hits news c d) (j_ents js1))"
    using join_step [OF Cons.prems(1), of r E] Cons.prems(2) unfolding join_effect_def by fastforce
  obtain js' where t: "fold_err (join_fn E) news js1 = (js', None)" "join_inv js'"
    "map oe_ip (j_ents js') = map oe_ip (j_ents js1)" "map oe_status (j_ents js') = map oe_status (j_ents js1)"
    "\<And>i. i < length (j_ents js1) \<Longrightarrow> unseen (j_ents js' ! i) \<longleftrightarrow> unseen (j_ents js1 ! i) \<and> column news (j_ents js1 ! i) = None"
    "\<And>c d. cell (j_matrix js') c d = cell (j_matrix js1) c d + sum_list (map (hits news c d) (j_ents js1))"
    using Cons.IH [OF s(2)] Cons.prems(2) by auto
  have len: "length (j_ents js1) = length (j_ents js)" using s(3) map_eq_imp_length_eq by blast
  have ip: "oe_ip (j_ents js1 ! i) = oe_ip (j_ents js ! i)" if "i < length (j_ents js)" for i
    using arg_cong [OF s(3), of "\<lambda>l. l ! i"] that len by simp
  have "unseen (j_ents js' ! i) \<longleftrightarrow> unseen (j_ents js ! i) \<and> column (r # news) (j_ents js ! i) = None"
    if "i < length (j_ents js)" for i
    using t(5) s(5) ip len that by (auto simp: column_def)
  moreover have "cell (j_matrix js') c d = cell (j_matrix js) c d + sum_list (map (hits (r # news) c d) (j_ents js))" for c d
    using t(6) s(6) by simp
  ultimately show ?case using s t by simp
qed

lemma count_missing_exact:
  assumes "matrix_wf mt" and "list_all (\<lambda>e. unat (oe_status e) < 8) ents"
  shows "\<exists>mt'. count_missing ents mt = (mt', None) \<and> matrix_wf mt' \<and>
     (\<forall>c d. cell mt' c d = cell mt c d +
        sum_list (map (\<lambda>e. if unseen e \<and> unat (oe_status e) = c \<and> d = missingCol then 1 else 0) ents))"
  using assms
proof (induction ents arbitrary: mt)
  case (Cons e ents)
  show ?case
  proof (cases "unseen e")
    case True
    let ?m = "bump_cell (unat (oe_status e)) missingCol mt"
    have st: "unat (oe_status e) < 8" using Cons.prems by simp
    have m: "matrix_wf ?m" using bump_cell_wf [OF Cons.prems(1) st] .
    have "missing_fn e mt = (?m, None)" using True st by (simp add: missing_fn_def NumStatusCodes_def)
    moreover have "cell ?m c d = cell mt c d + (if c = unat (oe_status e) \<and> d = missingCol then 1 else 0)" for c d
      using cell_bump [OF Cons.prems(1) st, of missingCol] by (simp add: missingCol_def NumStatusCodes_def)
    ultimately show ?thesis using Cons.IH [OF m] Cons.prems(2) True by (auto simp: count_missing_def add_ac)
  next
    case False
    then show ?thesis using Cons.IH [OF Cons.prems(1)] Cons.prems(2) by (auto simp: count_missing_def missing_fn_def)
  qed
qed (simp add: count_missing_def)

text \<open>The column that a target ends up in.\<close>

definition dest :: "Rec list \<Rightarrow> oldEnt \<Rightarrow> nat" where
  "dest news e = (case find (\<lambda>r. s_IP r = oe_ip e) news of None \<Rightarrow> missingCol | Some r \<Rightarrow> unat (s_Status r))"

lemma sum_list_indicator: "sum_list (map (\<lambda>x. if P x then 1 else (0 :: u64)) xs) = of_nat (length (filter P xs))"
  by (induction xs) auto

lemma mask_Has_small: "msk < 256 \<Longrightarrow> mask_Has msk c \<Longrightarrow> unat c < 8"
  using bit_less_exp [of msk 8 "unat c"] by (simp add: mask_Has_bit)

lemma load_old_fold:
  "fold_err (load_old_fn E msk) olds ents = (ents @ map (old_ent E) (filter (\<lambda>r. mask_Has msk (s_Status r)) olds), None)"
  by (induction olds arbitrary: ents) (simp_all add: load_old_fn_def)

lemma unseen_old_ent: "unseen (old_ent E r)"
  by (simp add: old_ent_def Let_def old_flag_defs)

lemma join_fn_shards: "join_fn E r js = (js', e) \<Longrightarrow> cr_TruncatedNewShards (j_res js') = cr_TruncatedNewShards (j_res js)"
  by (auto simp: join_fn_def join_stats_def Let_def split: option.splits if_splits)

lemma join_no_trunc: "fold_err (join_fn E) news js \<noteq> (js', Some ErrTruncatedTail)"
proof (induction news arbitrary: js)
  case (Cons r news)
  have "join_fn E r js \<noteq> (j, Some ErrTruncatedTail)" for j
    by (auto simp: join_fn_def Let_def split: option.splits)
  then show ?case using Cons by (auto split: prod.splits option.splits)
qed simp

lemma join_fold_shards:
  "fold_err (join_fn E) news js = (js', e) \<Longrightarrow> cr_TruncatedNewShards (j_res js') = cr_TruncatedNewShards (j_res js)"
  by (induction news arbitrary: js) (auto dest!: join_fn_shards split: prod.splits option.splits)

lemma cells_total:
  assumes "c < 8" "d < 9" "list_all unseen T" and u: "\<And>i. i < length T \<Longrightarrow> unseen (T' ! i) \<longleftrightarrow> unseen (T ! i) \<and> column news (T ! i) = None"
    and st: "map oe_status T' = map oe_status T"
  shows "sum_list (map (hits news c d) T) +
     sum_list (map (\<lambda>e. if unseen e \<and> unat (oe_status e) = c \<and> d = missingCol then 1 else 0) T') =
     of_nat (length (filter (\<lambda>e. unat (oe_status e) = c \<and> dest news e = d) T))"
proof -
  have len: "length T' = length T" using st map_eq_imp_length_eq by blast
  have "sum_list (map (\<lambda>e. if unseen e \<and> unat (oe_status e) = c \<and> d = missingCol then 1 else (0 :: u64)) T') =
      sum_list (map (\<lambda>e. if column news e = None \<and> unat (oe_status e) = c \<and> d = missingCol then 1 else 0) T)"
  proof (intro arg_cong [of _ _ sum_list] nth_equalityI)
    fix i assume "i < length (map (\<lambda>e. if unseen e \<and> unat (oe_status e) = c \<and> d = missingCol then 1 else (0 :: u64)) T')"
    then have i: "i < length T" using len by simp
    then have "oe_status (T' ! i) = oe_status (T ! i)" using arg_cong [OF st, of "\<lambda>l. l ! i"] len by simp
    then show "map (\<lambda>e. if unseen e \<and> unat (oe_status e) = c \<and> d = missingCol then 1 else (0 :: u64)) T' ! i =
        map (\<lambda>e. if column news e = None \<and> unat (oe_status e) = c \<and> d = missingCol then 1 else 0) T ! i"
      using i u [OF i] assms(3) len by (simp add: list_all_length)
  qed (simp add: len)
  then have "sum_list (map (hits news c d) T) +
     sum_list (map (\<lambda>e. if unseen e \<and> unat (oe_status e) = c \<and> d = missingCol then 1 else 0) T') =
     sum_list (map (\<lambda>e. hits news c d e + (if column news e = None \<and> unat (oe_status e) = c \<and> d = missingCol then 1 else 0)) T)"
    by (simp add: sum_list_addf)
  also have "\<dots> = sum_list (map (\<lambda>e. if unat (oe_status e) = c \<and> dest news e = d then 1 else 0) T)"
    using assms(3) by (intro arg_cong [of _ _ sum_list] map_cong refl)
      (auto simp: hits_def column_def dest_def list_all_iff split: option.splits)
  finally show ?thesis by (simp add: sum_list_indicator)
qed

lemma compare_shard_exact:
  assumes srt: "sorts_keys (env_sort_func E)" and msk: "msk < 256" and wf: "matrix_wf mt"
    and old: "Scan E fs oldPath collect [] = (olds, None)" and new: "Scan E fs newPath collect [] = (news, err)"
    and err: "err = None \<or> err = Some ErrTruncatedTail"
    and st: "\<forall>r\<in>set news. unat (s_Status r) \<le> 8"
  shows "\<exists>mt' res' tlds' T. compare_shard E fs msk sid oldPath newPath mt res tlds = Inr (mt', res', tlds') \<and>
     distinct (map oe_ip T) \<and> oe_ip ` set T = s_IP ` {r \<in> set olds. mask_Has msk (s_Status r)} \<and>
     (\<forall>e\<in>set T. \<exists>r\<in>set olds. e = old_ent E r) \<and>
     (\<forall>c<8. \<forall>d<9. cell mt' c d = cell mt c d +
        of_nat (length (filter (\<lambda>e. unat (oe_status e) = c \<and> dest news e = d) T))) \<and>
     cr_TruncatedNewShards res' = cr_TruncatedNewShards res @ (if err = None then [] else [sid])"
proof -
  define ts where "ts = filter (\<lambda>r. mask_Has msk (s_Status r)) olds"
  define T where "T = old_table E ts"
  have ents: "loadOldTargets E fs oldPath msk [] = (map (old_ent E) ts, None)"
    using old [unfolded Scan_collect] by (simp add: loadOldTargets_def Scan_fold load_old_fold ts_def)
  obtain dups where dd: "dedupSorted (sort_with (env_sort_func E) oe_ip (map (old_ent E) ts)) = (T, dups)"
    by (metis T_def old_table_def prod.collapse)
  have T_rec: "\<exists>r\<in>set ts. e = old_ent E r" if "e \<in> set T" for e
    using old_pass.build_sound [OF srt, of e ts] that by (auto simp: T_def)
  define res1 where "res1 = res\<lparr>cr_ComparedShards := cr_ComparedShards res @ [sid], cr_OldDupTargets := cr_OldDupTargets res + dups,
      cr_Targets := fold (\<lambda>e. ubump (StatusString (oe_status e))) T (cr_Targets res)\<rparr>"
  define js where "js = \<lparr>j_ents = T, j_matrix = mt, j_res = res1, j_tlds = tlds\<rparr>"
  have "join_inv js"
    using old_pass.sorted_build [OF srt, of ts] wf T_rec mask_Has_small [OF msk]
    by (force simp: join_inv_def js_def T_def ts_def list_all_iff old_ent_def Let_def)
  then obtain js' where j: "fold_err (join_fn E) news js = (js', None)" "join_inv js'"
    "map oe_status (j_ents js') = map oe_status T"
    "\<And>i. i < length T \<Longrightarrow> unseen (j_ents js' ! i) \<longleftrightarrow> unseen (T ! i) \<and> column news (T ! i) = None"
    "\<And>c d. cell (j_matrix js') c d = cell mt c d + sum_list (map (hits news c d) T)"
    using join_all [of js news E] st by (fastforce simp: js_def)
  obtain mt' where m: "count_missing (j_ents js') (j_matrix js') = (mt', None)"
    "\<And>c d. cell mt' c d = cell (j_matrix js') c d +
        sum_list (map (\<lambda>e. if unseen e \<and> unat (oe_status e) = c \<and> d = missingCol then 1 else 0) (j_ents js'))"
    using count_missing_exact [of "j_matrix js'" "j_ents js'"] j(2) by (auto simp: join_inv_def)
  have un: "list_all unseen T" using T_rec unseen_old_ent by (auto simp: list_all_iff)
  have "joinNewPass E fs newPath js = (js', err \<noteq> None, None)"
    using new [unfolded Scan_collect] err j(1) by (auto simp: joinNewPass_def Scan_fold)
  moreover define res' where "res' = (if err \<noteq> None then (j_res js')\<lparr>cr_TruncatedNewShards := cr_TruncatedNewShards (j_res js') @ [sid]\<rparr> else j_res js')"
  ultimately have "compare_shard E fs msk sid oldPath newPath mt res tlds = Inr (mt', res', j_tlds js')"
    using ents dd m(1) by (simp add: compare_shard_def res1_def [symmetric] js_def Let_def)
  moreover have "cr_TruncatedNewShards res' = cr_TruncatedNewShards res @ (if err = None then [] else [sid])"
    using join_fold_shards [OF j(1)] by (simp add: res'_def js_def res1_def)
  moreover have "cell mt' c d = cell mt c d + of_nat (length (filter (\<lambda>e. unat (oe_status e) = c \<and> dest news e = d) T))"
    if "c < 8" "d < 9" for c d
    using m(2) j(5) cells_total [OF that un j(4) j(3)] by (simp add: add.assoc)
  moreover have "distinct (map oe_ip T)" "oe_ip ` set T = s_IP ` set ts"
    using old_pass.distinct_keys [OF srt] old_pass.keys_build [OF srt] by (simp_all add: T_def)
  moreover have "\<forall>e\<in>set T. \<exists>r\<in>set olds. e = old_ent E r" using T_rec by (auto simp: ts_def)
  ultimately show ?thesis by (intro exI [of _ mt'] exI [of _ res'] exI [of _ T] exI) (simp add: ts_def)
qed

section \<open>The figures of a report agree\<close>

definition pend :: "nat \<Rightarrow> oldEnt list \<Rightarrow> u64" where
  "pend c ents = of_nat (length (filter (\<lambda>e. unseen e \<and> unat (oe_status e) = c) ents))"

text \<open>The relation between the matrix and the counters kept beside it, with \<open>ents\<close> still to be counted.\<close>

definition balance :: "matrix \<Rightarrow> compare_Result \<Rightarrow> oldEnt list \<Rightarrow> bool" where
  "balance mt res ents \<longleftrightarrow> matrix_wf mt \<and>
     (\<forall>c<8. ucount (cr_Targets res) (StatusString (of_nat c)) = sum_list (mt ! c) + pend c ents) \<and>
     cr_PTRUnchanged res + cr_PTRChanged res = cell mt 0 0 \<and>
     fc_BothChecked (cr_FC res) = fc_MatchBoth (cr_FC res) + fc_MatchOldOnly (cr_FC res) +
       fc_MatchNewOnly (cr_FC res) + fc_MatchNeither (cr_FC res) \<and>
     g_Total (cr_Gained res) = (\<Sum>c = 1..<8. cell mt c 0)"

lemma rowSum_eq: "rowSum row = sum_list row"
proof -
  have "fold (\<lambda>v s. s + v) row a = a + sum_list row" for a :: u64
    by (induction row arbitrary: a) (simp_all add: add_ac)
  then show ?thesis by (simp add: rowSum_def)
qed

lemma row_bump:
  assumes "matrix_wf mt" "c < 8" "d < 9" "c' < 8"
  shows "sum_list (bump_cell c d mt ! c') = sum_list (mt ! c') + (if c' = c then 1 else 0)"
  using assms sum_list_bump [of d "mt ! c" 1]
  by (auto simp: bump_cell_def matrix_wf_def list_all_length nth_list_update)

lemma gained_bump:
  assumes "matrix_wf mt" "c < 8" "d < 9"
  shows "(\<Sum>k = 1..<8. cell (bump_cell c d mt) k 0) = (\<Sum>k = 1..<8. cell mt k 0) + (if c \<noteq> 0 \<and> d = 0 then 1 else 0)"
proof -
  have "(\<Sum>k = 1..<8. cell (bump_cell c d mt) k 0) = (\<Sum>k = 1..<8. cell mt k 0 + (if k = c \<and> d = 0 then 1 else 0))"
    using cell_bump [OF assms] by (intro sum.cong) auto
  also have "\<dots> = (\<Sum>k = 1..<8. cell mt k 0) + (\<Sum>k = 1..<8. if k = c \<and> d = 0 then 1 else 0)"
    by (rule sum.distrib)
  also have "(\<Sum>k = 1..<8. if k = c \<and> d = 0 then 1 else (0 :: u64)) = (if c \<noteq> 0 \<and> d = 0 then 1 else 0)"
    using assms(2) by (cases "d = 0") (simp_all add: sum.delta)
  finally show ?thesis .
qed

lemma pend_mark:
  assumes "i < length ents" "unseen (ents ! i)" "\<not> unseen e'"
  shows "pend c ents = pend c (ents[i := e']) + (if unat (oe_status (ents ! i)) = c then 1 else 0)"
  using assms
proof (induction ents arbitrary: i)
  case (Cons x xs)
  then show ?case by (cases i) (auto simp: pend_def)
qed simp

lemma join_fn_balance:
  assumes "join_fn E r js = (js', None)" and "balance (j_matrix js) (j_res js) (j_ents js)"
  shows "balance (j_matrix js') (j_res js') (j_ents js')"
proof (cases "lookup_ip oe_ip (j_ents js) (s_IP r)")
  case None
  then show ?thesis using assms by (auto simp: join_fn_def balance_def)
next
  case (Some i)
  define e where "e = j_ents js ! i"
  have i: "i < length (j_ents js)" using Some by (auto simp: lookup_ip_def Let_def split: if_splits)
  show ?thesis
  proof (cases "unseen e")
    case False
    then show ?thesis using assms Some by (auto simp: join_fn_def balance_def Let_def e_def)
  next
    case True
    define e' where "e' = e\<lparr>oe_flags := oe_flags e OR fSeen\<rparr>"
    define c where "c = unat (oe_status e)"
    define d where "d = unat (s_Status r)"
    define mt where "mt = bump_cell c d (j_matrix js)"
    have cd: "c < 8" "d < 9" and js': "js' = join_stats E e' r (js\<lparr>j_ents := (j_ents js)[i := e'], j_matrix := mt\<rparr>)"
      using assms(1) Some True
      by (auto simp: join_fn_def Let_def e_def e'_def c_def d_def mt_def NumStatusCodes_def split: if_splits)
    have wf: "matrix_wf (j_matrix js)" using assms(2) by (simp add: balance_def)
    have z: "oe_status e = CodeHasPTR \<longleftrightarrow> c = 0" "s_Status r = CodeHasPTR \<longleftrightarrow> d = 0"
      by (simp_all add: c_def d_def CodeHasPTR_def unat_eq_0)
    have "\<not> unseen e'" by (simp add: e'_def)
    then have p: "pend k (j_ents js) = pend k ((j_ents js)[i := e']) + (if c = k then 1 else 0)" for k
      using pend_mark [OF i, of e' k] True by (simp add: e_def c_def)
    have tg: "cr_Targets (j_res js') = cr_Targets (j_res js)"
      by (simp add: js' join_stats_def Let_def)
    have rows: "ucount (cr_Targets (j_res js')) (StatusString (of_nat k)) = sum_list (mt ! k) + pend k ((j_ents js)[i := e'])"
      if "k < 8" for k
      using assms(2) that row_bump [OF wf cd that] p [of k] tg by (auto simp: balance_def mt_def)
    have ptr: "cr_PTRUnchanged (j_res js') + cr_PTRChanged (j_res js') = cell mt 0 0"
      using assms(2) cell_bump [OF wf cd, of 0 0] z
      by (auto simp: balance_def js' join_stats_def Let_def mt_def e'_def)
    have fc: "fc_BothChecked (cr_FC (j_res js')) = fc_MatchBoth (cr_FC (j_res js')) + fc_MatchOldOnly (cr_FC (j_res js')) +
       fc_MatchNewOnly (cr_FC (j_res js')) + fc_MatchNeither (cr_FC (j_res js'))"
      using assms(2) by (auto simp: balance_def js' join_stats_def Let_def join_fc_def)
    have g: "g_Total (cr_Gained (j_res js')) = (\<Sum>c = 1..<8. cell mt c 0)"
      using assms(2) gained_bump [OF wf cd] z
      by (auto simp: balance_def js' join_stats_def Let_def join_gained_def mt_def e'_def)
    show ?thesis
      unfolding balance_def using rows ptr fc g bump_cell_wf [OF wf cd(1), of d] by (simp add: js' mt_def)
  qed
qed

lemma join_fold_balance:
  "fold_err (join_fn E) news js = (js', None) \<Longrightarrow> balance (j_matrix js) (j_res js) (j_ents js) \<Longrightarrow>
     balance (j_matrix js') (j_res js') (j_ents js')"
  by (induction news arbitrary: js) (auto dest: join_fn_balance split: prod.splits option.splits)

lemma count_missing_balance:
  "count_missing ents mt = (mt', None) \<Longrightarrow> balance mt res ents \<Longrightarrow> balance mt' res []"
proof (induction ents arbitrary: mt)
  case (Cons e ents)
  show ?case
  proof (cases "unseen e")
    case True
    let ?c = "unat (oe_status e)" and ?m = "bump_cell (unat (oe_status e)) missingCol mt"
    have c: "?c < 8" and rest: "count_missing ents ?m = (mt', None)"
      using Cons.prems(1) True by (auto simp: count_missing_def missing_fn_def NumStatusCodes_def split: if_splits)
    have wf: "matrix_wf mt" using Cons.prems(2) by (simp add: balance_def)
    have m: "missingCol < 9" "missingCol \<noteq> 0" by (simp_all add: missingCol_def NumStatusCodes_def)
    have "balance ?m res ents"
      using Cons.prems(2) True row_bump [OF wf c m(1)] gained_bump [OF wf c m(1)] cell_bump [OF wf c m(1), of 0 0] m
        bump_cell_wf [OF wf c]
      by (auto simp: balance_def pend_def)
    then show ?thesis using Cons.IH rest by blast
  next
    case False
    then have "count_missing ents mt = (mt', None)" "balance mt res ents"
      using Cons.prems by (auto simp: count_missing_def missing_fn_def balance_def pend_def)
    then show ?thesis using Cons.IH by blast
  qed
qed (simp add: count_missing_def)

lemma ucount_ubump: "ucount (ubump k m) k' = ucount m k' + (if k' = k then 1 else 0)"
  by (simp add: ucount_def ubump_def update_conv')

lemma ucount_fold_ubump:
  "ucount (fold (\<lambda>e. ubump (f e)) es m) k = ucount m k + of_nat (length (filter (\<lambda>e. f e = k) es))"
  by (induction es arbitrary: m) (simp_all add: ucount_ubump)

lemma StatusString_code_iff:
  assumes "unat s < 8" "c < 8"
  shows "StatusString s = StatusString (of_nat c) \<longleftrightarrow> unat s = c"
proof
  have c: "unat (of_nat c :: u8) = c" using assms(2) by (simp add: unat_of_nat)
  assume "StatusString s = StatusString (of_nat c)"
  then have "Code (StatusString s) = Code (StatusString (of_nat c))" by (rule arg_cong)
  also have "\<dots> = of_nat c" by (rule Code_StatusString) (simp only: c assms(2))
  also have "Code (StatusString s) = s" by (rule Code_StatusString [OF assms(1)])
  finally show "unat s = c" using c by (simp only:)
next
  assume "unat s = c"
  then have "of_nat c = s" by auto
  then show "StatusString s = StatusString (of_nat c)" by (simp only:)
qed

lemma compare_shard_balance:
  assumes srt: "sorts_keys (env_sort_func E)" and msk: "msk < 256"
    and run: "compare_shard E fs msk sid oldPath newPath mt res tlds = Inr (mt', res', tlds')" and bal: "balance mt res []"
  shows "balance mt' res' []"
proof -
  obtain olds e0 where o: "scan_list E fs oldPath = (olds, e0)" by fastforce
  define ts where "ts = filter (\<lambda>r. mask_Has msk (s_Status r)) olds"
  have ents: "loadOldTargets E fs oldPath msk [] = (map (old_ent E) ts, e0)"
    using o by (simp add: loadOldTargets_def Scan_fold load_old_fold ts_def)
  define T where "T = old_table E ts"
  obtain dups where dd: "dedupSorted (sort_with (env_sort_func E) oe_ip (map (old_ent E) ts)) = (T, dups)"
    by (metis T_def old_table_def prod.collapse)
  define res1 where "res1 = res\<lparr>cr_ComparedShards := cr_ComparedShards res @ [sid], cr_OldDupTargets := cr_OldDupTargets res + dups,
      cr_Targets := fold (\<lambda>e. ubump (StatusString (oe_status e))) T (cr_Targets res)\<rparr>"
  have T_ent: "unseen e \<and> unat (oe_status e) < 8" if e: "e \<in> set T" for e
  proof -
    obtain r where "r \<in> set ts" "e = old_ent E r"
      using old_pass.build_sound [OF srt, of e ts] e by (auto simp: T_def)
    then show ?thesis using mask_Has_small [OF msk] unseen_old_ent by (auto simp: ts_def old_ent_def Let_def)
  qed
  have "filter (\<lambda>e. StatusString (oe_status e) = StatusString (of_nat c)) T = filter (\<lambda>e. unseen e \<and> unat (oe_status e) = c) T"
    if "c < 8" for c
    using T_ent StatusString_code_iff [OF _ that] by (intro filter_cong) auto
  then have b1: "balance mt res1 T"
    using bal by (simp add: balance_def res1_def ucount_fold_ubump pend_def)
  obtain js tr where j: "joinNewPass E fs newPath \<lparr>j_ents = T, j_matrix = mt, j_res = res1, j_tlds = tlds\<rparr> = (js, tr, None)"
    and m: "count_missing (j_ents js) (j_matrix js) = (mt', None)"
    and r: "res' = (if tr then (j_res js)\<lparr>cr_TruncatedNewShards := cr_TruncatedNewShards (j_res js) @ [sid]\<rparr> else j_res js)"
    using run ents dd by (auto simp: compare_shard_def Let_def res1_def split: option.splits prod.splits)
  obtain news e1 where n: "scan_list E fs newPath = (news, e1)" by fastforce
  have "fold_err (join_fn E) news \<lparr>j_ents = T, j_matrix = mt, j_res = res1, j_tlds = tlds\<rparr> = (js, None)"
    using j n join_no_trunc by (auto simp: joinNewPass_def Scan_fold split: prod.splits option.splits if_splits)
  then have "balance (j_matrix js) (j_res js) (j_ents js)" using join_fold_balance b1 by fastforce
  then have "balance mt' (j_res js) []" using count_missing_balance [OF m] by blast
  then show ?thesis by (simp add: r balance_def)
qed

lemma compare_shards_balance:
  assumes "sorts_keys (env_sort_func E)" and "msk < 256"
  shows "compare_shards E fs msk olds news sids mt res tlds = Inr (mt', res', tlds') \<Longrightarrow> balance mt res [] \<Longrightarrow> balance mt' res' []"
proof (induction sids arbitrary: mt res tlds)
  case (Cons sid sids)
  show ?case
  proof (cases "map_of news sid")
    case None
    then have "compare_shards E fs msk olds news sids mt (res\<lparr>cr_MissingNewShards := cr_MissingNewShards res @ [sid]\<rparr>) tlds = Inr (mt', res', tlds')"
      using Cons.prems(1) by simp
    then show ?thesis by (rule Cons.IH) (use Cons.prems(2) in \<open>simp add: balance_def\<close>)
  next
    case (Some newPath)
    then obtain m r t where st: "compare_shard E fs msk sid (the (map_of olds sid)) newPath mt res tlds = Inr (m, r, t)"
      "compare_shards E fs msk olds news sids m r t = Inr (mt', res', tlds')"
      using Cons.prems(1) by (auto split: sum.splits)
    show ?thesis using st(2) by (rule Cons.IH) (rule compare_shard_balance [OF assms st(1) Cons.prems(2)])
  qed
qed simp

lemma balance_zero: "balance zero_matrix (zero_compare_Result old new statuses days) []"
proof -
  have z: "zero_matrix = replicate 8 (replicate 9 0)" by (simp add: zero_matrix_def NumStatusCodes_def)
  have "sum_list (replicate n 0 :: u64 list) = 0" for n by (induction n) auto
  moreover have "(\<Sum>c = 1..<8. cell zero_matrix c 0) = 0" by (rule sum.neutral) (simp add: z cell_def)
  ultimately show ?thesis
    by (simp add: balance_def z matrix_wf_def zero_compare_Result_def ucount_def pend_def cell_def list_all_length)
qed

lemma Run_balance:
  assumes "compare_Run E fl fs opts = Inr res" and "sorts_keys (env_sort_func E)" and "co_Mask opts < 256"
  shows "\<exists>mt. cr_Transitions res = transitions (co_Mask opts) mt \<and> balance mt res []"
proof -
  obtain olds oldInfo news newInfo mt res0 tlds n where
    "compare_shards E fs (co_Mask opts) olds news (compare_sortedKeys olds) zero_matrix
       (zero_compare_Result oldInfo newInfo (mask_String (co_Mask opts))
          (fl (duration_hours fl (duration_between (pi_Created newInfo) (pi_Created oldInfo)) / 24))) [] = Inr (mt, res0, tlds)"
    "res = finalize fl (co_Mask opts) n mt tlds res0"
    using assms(1) by (auto simp: compare_Run_def Let_def split: sum.splits if_splits)
  then have "balance mt res []" "cr_Transitions res = transitions (co_Mask opts) mt"
    using compare_shards_balance [OF assms(2,3)] balance_zero by (auto simp: balance_def finalize_def Let_def)
  then show ?thesis by blast
qed

definition rev_perm :: "u32 list \<Rightarrow> nat list" where
  "rev_perm ks = sort_key ((!) ks) (rev [0..<length ks])"

lemma sorts_keys_rev_perm: "sorts_keys rev_perm"
  by (simp add: sorts_keys_def rev_perm_def)

section \<open>Properties\<close>

text \<open>
  C10. One shard pair of a comparison: there is a table of the previous pass's targets, one entry
  per distinct target address, each made from a record of that pass, and every entry of it is
  counted exactly once in the transition matrix, under its old status and the status of the first
  record of the new pass for its address, or in the column \<open>missing\<close> if there is none. A new
  shard that ends in a truncated block is compared as far as it goes and listed as truncated.
\<close>
theorem compare_matrix_exact:
  assumes srt: "sorts_keys (env_sort_func E)" and msk: "msk < 256" and wf: "matrix_wf mt"
    and old: "Scan E fs oldPath collect [] = (olds, None)" and new: "Scan E fs newPath collect [] = (news, err)"
    and err: "err = None \<or> err = Some ErrTruncatedTail"
    and st: "\<forall>r\<in>set news. unat (s_Status r) \<le> 8"
  shows "\<exists>mt' res' tlds' T. compare_shard E fs msk sid oldPath newPath mt res tlds = Inr (mt', res', tlds') \<and>
     distinct (map oe_ip T) \<and> oe_ip ` set T = s_IP ` {r \<in> set olds. mask_Has msk (s_Status r)} \<and>
     (\<forall>e\<in>set T. \<exists>r\<in>set olds. e = old_ent E r) \<and>
     (\<forall>c<8. \<forall>d<9. cell mt' c d = cell mt c d +
        of_nat (length (filter (\<lambda>e. unat (oe_status e) = c \<and> dest news e = d) T))) \<and>
     cr_TruncatedNewShards res' = cr_TruncatedNewShards res @ (if err = None then [] else [sid])"
  using assms by (rule compare_shard_exact)

text \<open>
  C29. The figures of a comparison report agree with each other, whatever the two passes hold:
  the number of targets with a status is the sum of that status's row of the transition matrix,
  the unchanged and changed PTR names together are the targets that had a name in both passes,
  the four forward-confirmation outcomes add up to the pairs that were checked, and the gained
  names are the column \<open>has_ptr\<close> of the other rows (all modulo \<open>2 ^ 64\<close>, the width of the counters).
\<close>
theorem compare_report_balanced:
  assumes "compare_Run E fl fs opts = Inr res" and "sorts_keys (env_sort_func E)" and "co_Mask opts < 256"
  shows "\<exists>mt. cr_Transitions res = transitions (co_Mask opts) mt \<and>
     (\<forall>c<8. ucount (cr_Targets res) (StatusString (of_nat c)) = rowSum (mt ! c)) \<and>
     cr_PTRUnchanged res + cr_PTRChanged res = cell mt (unat CodeHasPTR) (unat CodeHasPTR) \<and>
     fc_BothChecked (cr_FC res) = fc_MatchBoth (cr_FC res) + fc_MatchOldOnly (cr_FC res) +
       fc_MatchNewOnly (cr_FC res) + fc_MatchNeither (cr_FC res) \<and>
     g_Total (cr_Gained res) = (\<Sum>c = 1..<8. cell mt c (unat CodeHasPTR))"
  using Run_balance [OF assms] by (auto simp: balance_def rowSum_eq pend_def CodeHasPTR_def)

text \<open>
  Which of two observations of one address the comparison keeps is not determined by the
  sources: \<open>slices.SortFunc\<close> promises no order among equal keys, and for every such pair there
  are sorts that satisfy its contract and keep the one or the other.
\<close>
lemma compare_duplicate_choice:
  assumes "s_IP r1 = s_IP r2"
  shows "\<exists>f g. sorts_keys f \<and> sorts_keys g \<and>
     fst (dedupSorted (sort_with f oe_ip (map (old_ent E) [r1, r2]))) = [old_ent E r1] \<and>
     fst (dedupSorted (sort_with g oe_ip (map (old_ent E) [r1, r2]))) = [old_ent E r2]"
proof -
  have ip: "oe_ip (old_ent E r) = s_IP r" for r by (simp add: old_ent_def Let_def)
  have p: "stable_perm [k, k] = [0, 1]" "rev_perm [k, k] = [1, 0]" for k
    by (simp_all add: stable_perm_def rev_perm_def upt_rec)
  show ?thesis
    by (rule exI [of _ stable_perm], rule exI [of _ rev_perm])
      (use assms sorts_keys_stable_perm sorts_keys_rev_perm in \<open>simp add: sort_with_def p ip dedupSorted_def\<close>)
qed

section \<open>Witnesses\<close>

lemma stored_example: "s_Status (stored rec_example) = 0" "s_IP (stored rec_example) = 16909060"
  by (simp_all add: stored_def rec_example_def Code_def statusToCode_def code_defs)

lemma zero_matrix_wf: "matrix_wf zero_matrix" and zero_matrix_cell: "c < 8 \<Longrightarrow> d < 9 \<Longrightarrow> cell zero_matrix c d = 0"
  by (simp_all add: zero_matrix_def NumStatusCodes_def matrix_wf_def list_all_length cell_def)

definition info_example :: PassInfo where
  "info_example = \<lparr>pi_Path = path_example, pi_Files = 1, pi_Shards = 4, pi_Created = 0, pi_TotalQueried = 1\<rparr>"

lemma one_entry: "distinct (map oe_ip T) \<Longrightarrow> \<forall>e\<in>set T. e = x \<Longrightarrow> T \<noteq> [] \<Longrightarrow> T = [x]"
proof (induction T)
  case (Cons a T)
  then show ?case by (cases T) auto
qed simp

theorem compare_matrix_exact_witness:
  "\<exists>mt' res' tlds'. compare_shard test_env fs_closed 1 1 path_example path_example zero_matrix
       (zero_compare_Result info_example info_example (mask_String 1) 0) [] = Inr (mt', res', tlds') \<and>
     cell mt' 0 0 = 1 \<and> cell mt' 0 missingCol = 0 \<and> cr_TruncatedNewShards res' = []"
proof -
  let ?e = "old_ent test_env (stored rec_example)" and ?r0 = "zero_compare_Result info_example info_example (mask_String 1) 0"
  have tg: "{r. r = stored rec_example \<and> mask_Has 1 (s_Status r)} = {stored rec_example}"
    by (auto simp: stored_example mask_Has_bit)
  have z: "cr_TruncatedNewShards ?r0 = []" by (simp add: zero_compare_Result_def)
  obtain mt' res' tlds' T where r: "compare_shard test_env fs_closed 1 1 path_example path_example zero_matrix ?r0 [] = Inr (mt', res', tlds')"
    "distinct (map oe_ip T)" "oe_ip ` set T = {16909060}" "\<forall>e\<in>set T. e = ?e"
    "\<And>c d. c < 8 \<Longrightarrow> d < 9 \<Longrightarrow> cell mt' c d = cell zero_matrix c d +
        of_nat (length (filter (\<lambda>e. unat (oe_status e) = c \<and> dest [stored rec_example] e = d) T))"
    "cr_TruncatedNewShards res' = []"
    using compare_matrix_exact [OF test_env_sorts(2) _ zero_matrix_wf fs_closed_scan fs_closed_scan, of 1 1 ?r0 "[]"]
    by (auto simp: stored_example tg z)
  have T: "T = [?e]" using one_entry [OF r(2,4)] r(3) by (cases "T = []") auto
  have e: "unat (oe_status ?e) = 0" "dest [stored rec_example] ?e = 0"
    by (simp_all add: old_ent_def Let_def dest_def stored_example)
  have "cell mt' 0 0 = 1" "cell mt' 0 missingCol = 0"
    using r(5) [of 0 0] r(5) [of 0 missingCol] zero_matrix_cell [of 0 0] zero_matrix_cell [of 0 missingCol] e
    by (simp_all add: T missingCol_def NumStatusCodes_def)
  then show ?thesis using r(1,6) by blast
qed

definition compare_opts_example :: compare_Options where
  "compare_opts_example = \<lparr>co_OldPath = path_example, co_NewPath = path_example, co_Mask = 1, co_TopTLDs = 0\<rparr>"

lemma fs_closed_compare: "\<exists>res. compare_Run test_env id fs_closed compare_opts_example = Inr res"
proof -
  obtain h where h: "ReadHeader fs_closed path_example = Inr h" "h_Shards h = 4" "h_ShardID h = 1"
    using fs_closed_header by blast
  then obtain f where f: "fs_read fs_closed path_example = Some f" by (auto simp: ReadHeader_def split: option.splits)
  have "\<exists>info. compare_discover fs_closed path_example = Inr ([(1, path_example)], info)"
    using h f by (simp add: compare_discover_def os_stat_def)
  then obtain info where d: "compare_discover fs_closed path_example = Inr ([(1, path_example)], info)" by blast
  have "\<exists>x. compare_shard test_env fs_closed 1 1 path_example path_example zero_matrix res [] = Inr x" for res
    using compare_shard_exact [OF test_env_sorts(2) _ zero_matrix_wf fs_closed_scan fs_closed_scan, of 1 1 res "[]"]
    by (auto simp: stored_example)
  then obtain mt res tlds where "compare_shard test_env fs_closed 1 1 path_example path_example zero_matrix
      (zero_compare_Result info info (mask_String 1) (id (duration_hours id (duration_between (pi_Created info) (pi_Created info)) / 24))) [] = Inr (mt, res, tlds)"
    by (metis prod_cases3)
  then show ?thesis using d by (simp add: compare_Run_def compare_opts_example_def compare_sortedKeys_def)
qed

theorem compare_report_balanced_witness:
  "\<exists>res mt. compare_Run test_env id fs_closed compare_opts_example = Inr res \<and> cr_Transitions res = transitions 1 mt \<and>
     cr_PTRUnchanged res + cr_PTRChanged res = cell mt 0 0"
proof -
  obtain res where r: "compare_Run test_env id fs_closed compare_opts_example = Inr res" using fs_closed_compare by blast
  show ?thesis
    using compare_report_balanced [OF r test_env_sorts(2)] r by (auto simp: compare_opts_example_def CodeHasPTR_def)
qed

lemma compare_duplicate_choice_instance:
  "\<exists>g. sorts_keys g \<and>
     fst (dedupSorted (sort_with g oe_ip (map (old_ent test_env) [stored rec_example, (stored rec_example)\<lparr>s_Status := 5\<rparr>]))) =
       [old_ent test_env ((stored rec_example)\<lparr>s_Status := 5\<rparr>)]"
  using compare_duplicate_choice [of "stored rec_example" "(stored rec_example)\<lparr>s_Status := 5\<rparr>" test_env] by auto

end
