(* ===== verification/Cli.thy ===== *)
theory Cli
  imports Ipgen Store_Targets Output_Writer Crawler Merge Compare
begin

unbundle bit_operations_syntax

text \<open>
  The command line program (\<^verbatim>\<open>src/cmd/rdns-crawler/main.go\<close>): the flags shared by the crawling
  modes, the choice of the output backend, the cursor files, the pipeline that joins producer,
  worker pool and backend, and the modes \<open>crawl\<close>, \<open>recrawl\<close>, \<open>sweep\<close> and \<open>dump\<close> composed of them.
  \<open>fatal\<close> is the left value of a sum. A mode that crawls is a relation, since the pool is.
\<close>

section \<open>Common flags\<close>

definition outputDir :: string where "outputDir = ''OUTPUT''"

record commonFlags =
  k_concurrency :: int
  k_timeout :: int
  k_retries :: int
  k_fcrdns :: bool
  k_qps :: int
  k_resolvers :: string
  k_resolversFile :: string
  k_out :: string
  k_format :: string

definition resolverList :: "commonFlags \<Rightarrow> fs \<Rightarrow> go_error + string list" where
  "resolverList c fs =
     (if k_resolversFile c \<noteq> [] then
        (case fs_read fs (k_resolversFile c) of
           None \<Rightarrow> Inl ErrNotExist
         | Some data \<Rightarrow>
             let lst = filter (\<lambda>ln. \<not> (ln = [] \<or> prefix ''#'' ln)) (map trim_space (split_byte newline (string_of data))) in
             if lst = [] then Inl (ErrMsg ''resolvers file is empty'') else Inr lst)
      else if trim_space (k_resolvers c) \<noteq> [] then Inr (split_byte (CHR '','') (k_resolvers c))
      else Inr DefaultResolvers)"

definition ext :: "commonFlags \<Rightarrow> string" where
  "ext c = (if k_format c = ''jsonl'' then ''jsonl'' else ''rdnsz'')"

text \<open>\<open>ts\<close> is the formatted current time.\<close>

definition outPath :: "commonFlags \<Rightarrow> string \<Rightarrow> string \<Rightarrow> fs \<Rightarrow> go_error + (fs \<times> string)" where
  "outPath c mode ts fs =
     (case os_mkdir_all fs outputDir of
        Inl e \<Rightarrow> Inl e
      | Inr fs \<Rightarrow>
          if k_out c \<noteq> [] then
            (let dir = path_dir (k_out c) in
             if dir \<noteq> [] \<and> dir \<noteq> ''.'' then
               (case os_mkdir_all fs dir of Inl e \<Rightarrow> Inl e | Inr fs \<Rightarrow> Inr (fs, k_out c))
             else Inr (fs, k_out c))
          else Inr (fs, path_join outputDir (''rdns-'' @ mode @ ''-'' @ ts @ ''.'' @ ext c)))"

section \<open>The output backend\<close>

datatype backend = Rdnsz Writer | Jsonl out_Writer

fun sink_Consume :: "env \<Rightarrow> Record list \<Rightarrow> backend \<Rightarrow> backend" where
  "sink_Consume E recs (Rdnsz w) = Rdnsz (Consume E recs w)"
| "sink_Consume E recs (Jsonl w) = Jsonl (output_Consume E recs w)"

fun sink_Close :: "env \<Rightarrow> backend \<Rightarrow> fs \<Rightarrow> fs" where
  "sink_Close E (Rdnsz w) fs = Close E w fs"
| "sink_Close E (Jsonl w) fs = output_Close w fs"

definition newSink ::
  "commonFlags \<Rightarrow> string \<Rightarrow> u16 \<Rightarrow> u16 \<Rightarrow> bool \<Rightarrow> u64 \<Rightarrow> fs \<Rightarrow> go_error + (fs \<times> backend)" where
  "newSink c path shards shardID resume now fs =
     (if k_format c = ''jsonl'' then map_sum id (map_prod id Jsonl) (output_New fs path now)
      else if resume then map_sum id (map_prod id Rdnsz) (NewWriterResume fs path shards shardID now)
      else map_sum id (map_prod id Rdnsz) (NewWriter fs path shards shardID now))"

definition crawl_config :: "commonFlags \<Rightarrow> Config" where
  "crawl_config c = \<lparr>cf_Concurrency = k_concurrency c, cf_FCrDNS = k_fcrdns c, cf_QPS = k_qps c,
     cf_ProgressInt = 1000000000\<rparr>"

definition setup_mode ::
  "commonFlags \<Rightarrow> string \<Rightarrow> u16 \<Rightarrow> u16 \<Rightarrow> bool \<Rightarrow> string \<Rightarrow> u64 \<Rightarrow> fs \<Rightarrow>
   go_error + (fs \<times> Resolver \<times> backend \<times> Crawler)" where
  "setup_mode c mode shards shardID resume ts now fs =
     (case resolverList c fs of
        Inl e \<Rightarrow> Inl e
      | Inr servers \<Rightarrow>
          (case resolver_New servers (k_timeout c) (k_retries c) of
             Inl e \<Rightarrow> Inl e
           | Inr res \<Rightarrow>
               (case outPath c mode ts fs of
                  Inl e \<Rightarrow> Inl e
                | Inr (fs, path) \<Rightarrow>
                    (case newSink c path shards shardID resume now fs of
                       Inl e \<Rightarrow> Inl e
                     | Inr (fs, wr) \<Rightarrow> Inr (fs, res, wr, crawler_New (crawl_config c) res)))))"

section \<open>Cursor files\<close>

definition write_atomic :: "fs \<Rightarrow> string \<Rightarrow> string \<Rightarrow> fs" where
  "write_atomic fs path txt =
     (let tmp = path @ ''.tmp'' in
      case os_write_file fs tmp (bytes_of txt) of Inl e \<Rightarrow> fs | Inr fs \<Rightarrow> os_rename fs tmp path)"

definition writeCursor :: "string \<Rightarrow> u32 \<Rightarrow> fs \<Rightarrow> fs" where
  "writeCursor path v fs = write_atomic fs path (IntToIP v @ [newline])"

definition readCursor :: "fs \<Rightarrow> string \<Rightarrow> u32 option" where
  "readCursor fs path =
     (case fs_read fs path of
        None \<Rightarrow> None
      | Some data \<Rightarrow>
          let v = IPToInt (trim_space (string_of data)) in if v = 0 then None else Some v)"

definition writeCountCursor :: "string \<Rightarrow> u64 \<Rightarrow> u64 \<Rightarrow> fs \<Rightarrow> fs" where
  "writeCountCursor path done_cnt expected fs =
     write_atomic fs path (show_nat (unat done_cnt) @ ''/'' @ show_nat (unat expected) @ [newline])"

text \<open>\<open>fmt.Sscanf\<close> with \<open>%d\<close> into a \<open>uint64\<close>: the leading digits, which have to fit.\<close>

definition sscanf_u64 :: "string \<Rightarrow> u64 option" where
  "sscanf_u64 s =
     (let ds = takeWhile is_digit s in
      if ds = [] \<or> 2 ^ 64 \<le> nat_of_digits ds then None else Some (of_nat (nat_of_digits ds)))"

definition readCountCursor :: "fs \<Rightarrow> string \<Rightarrow> u64 option" where
  "readCountCursor fs path =
     (case fs_read fs path of
        None \<Rightarrow> None
      | Some data \<Rightarrow>
          let s = trim_space (string_of data);
              s = (case index_byte s (CHR ''/'') of None \<Rightarrow> s | Some i \<Rightarrow> take i s)
          in sscanf_u64 s)"

section \<open>The pipeline\<close>

text \<open>
  The pool runs until it closes the results channel, the backend drains the channel and is
  closed. The goroutine that writes the cursor file is not waited for: \<open>cursors\<close> are the
  values it got round to.
\<close>

inductive pipeline ::
  "env \<Rightarrow> dns_lib \<Rightarrow> Crawler \<Rightarrow> string list \<Rightarrow> backend \<Rightarrow> u32 list \<Rightarrow> string \<Rightarrow> fs \<Rightarrow> pool \<Rightarrow> fs \<Rightarrow> bool"
  for E D where
  run: "pool_start crw ips = Inr s0 \<Longrightarrow> (pool_step D)\<^sup>*\<^sup>* s0 s \<Longrightarrow> pl_closed s \<Longrightarrow>
     pipeline E D crw ips wr cursors cursorPath fs s
       (sink_Close E (sink_Consume E (pl_out s) wr) (fold (writeCursor cursorPath) cursors fs))"

inductive_cases pipelineE: "pipeline E D crw ips wr cursors cursorPath fs s fs'"

section \<open>The modes\<close>

text \<open>
  In a run of a mode the producer's schedule decides which addresses reach the input channel
  (\<open>deliver\<close>, \<open>sch\<close>), so the pool has nothing left to keep back; without a cancellation every
  send goes through.
\<close>

record crawlFlags =
  fl_common :: commonFlags
  fl_shards :: u64
  fl_shardID :: u64
  fl_start :: string
  fl_limit :: u64
  fl_samplePct :: real
  fl_resume :: bool

text \<open>Everything \<open>runCrawl\<close> decides before it starts: the shard walk, the backend and the crawler.\<close>

definition crawl_plan ::
  "(real \<Rightarrow> real) \<Rightarrow> crawlFlags \<Rightarrow> string \<Rightarrow> string \<Rightarrow> u64 \<Rightarrow> fs \<Rightarrow>
   go_error + (fs \<times> Crawler \<times> backend \<times> ShardConfig \<times> string)" where
  "crawl_plan div100 fl ts ts' now fs =
     (if fl_shards fl \<le> fl_shardID fl then Inl (ErrMsg ''--shard-id must be < --shards'')
      else
        let sampleThreshold = SampleThresholdForPercent div100 (fl_samplePct fl);
            start = IPToInt (fl_start fl) in
        case outPath (fl_common fl) ''crawl'' ts fs of
          Inl e \<Rightarrow> Inl e
        | Inr (fs, path) \<Rightarrow>
            let cursorPath = path @ ''.cursor'';
                start = (if fl_resume fl then
                           (case readCursor fs cursorPath of None \<Rightarrow> start | Some v \<Rightarrow> v + 1)
                         else start) in
            (case setup_mode (fl_common fl) ''crawl'' (ucast (fl_shards fl)) (ucast (fl_shardID fl)) (fl_resume fl) ts' now fs of
               Inl e \<Rightarrow> Inl e
             | Inr (fs, res, wr, crw) \<Rightarrow>
                 Inr (fs, crw, wr,
                      \<lparr>c_Shards = ucast (fl_shards fl), c_ShardID = ucast (fl_shardID fl), c_StartIP = start,
                       c_Limit = fl_limit fl, c_SampleThreshold = sampleThreshold\<rparr>, cursorPath)))"

inductive runCrawl ::
  "env \<Rightarrow> dns_lib \<Rightarrow> (real \<Rightarrow> real) \<Rightarrow> crawlFlags \<Rightarrow> string \<Rightarrow> string \<Rightarrow> u64 \<Rightarrow> fs \<Rightarrow> pool \<Rightarrow> fs \<Rightarrow> bool"
  for E D div100 fl ts ts' now fs where
  crawl: "crawl_plan div100 fl ts ts' now fs = Inr (fs1, crw, wr, cfg, cursorPath) \<Longrightarrow>
     GenerateShardedFull deliver cfg = (ips, curs) \<Longrightarrow> prefix cursors curs \<Longrightarrow>
     pipeline E D crw ips wr cursors cursorPath fs1 s fs' \<Longrightarrow>
     pl_unsent s = [] \<Longrightarrow> pl_cancelled s \<or> deliver = always \<Longrightarrow>
     runCrawl E D div100 fl ts ts' now fs s fs'"

record recrawlFlags =
  rf_common :: commonFlags
  rf_from :: string
  rf_statuses :: string
  rf_limit :: u64
  rf_resume :: bool

definition rewind :: "u64 \<Rightarrow> u64" where
  "rewind n = (if DefaultTargetCheckpoint < n then n - DefaultTargetCheckpoint else 0)"

definition recrawl_plan ::
  "env \<Rightarrow> recrawlFlags \<Rightarrow> string \<Rightarrow> u64 \<Rightarrow> fs \<Rightarrow>
   go_error + (fs \<times> Crawler \<times> backend \<times> status_mask \<times> u64 \<times> u64 \<times> string)" where
  "recrawl_plan E fl ts now fs =
     (if rf_from fl = [] then Inl (ErrMsg ''recrawl: --from is required'')
      else case ParseStatuses (rf_statuses fl) of
        Inl e \<Rightarrow> Inl e
      | Inr msk \<Rightarrow>
          (case ReadHeader fs (rf_from fl) of
             Inl e \<Rightarrow> Inl e
           | Inr oldHdr \<Rightarrow>
               (case CountTargets E fs (rf_from fl) msk of
                  Inl e \<Rightarrow> Inl e
                | Inr expected \<Rightarrow>
                    (case outPath (rf_common fl) ''recrawl'' ts fs of
                       Inl e \<Rightarrow> Inl e
                     | Inr (fs, path) \<Rightarrow>
                         let cursorPath = path @ ''.cursor'';
                             skip = (if rf_resume fl then
                                       (case readCountCursor fs cursorPath of None \<Rightarrow> 0 | Some n \<Rightarrow> rewind n)
                                     else 0) in
                         (case resolverList (rf_common fl) fs of
                            Inl e \<Rightarrow> Inl e
                          | Inr servers \<Rightarrow>
                              (case resolver_New servers (k_timeout (rf_common fl)) (k_retries (rf_common fl)) of
                                 Inl e \<Rightarrow> Inl e
                               | Inr res \<Rightarrow>
                                   (case newSink (rf_common fl) path (h_Shards oldHdr) (h_ShardID oldHdr) (rf_resume fl) now fs of
                                      Inl e \<Rightarrow> Inl e
                                    | Inr (fs, wr) \<Rightarrow>
                                        Inr (fs, crawler_New (crawl_config (rf_common fl)) res, wr, msk, skip, expected,
                                             cursorPath))))))))"

text \<open>An error of the target stream is reported after the pipeline has finished.\<close>

inductive runRecrawl ::
  "env \<Rightarrow> dns_lib \<Rightarrow> recrawlFlags \<Rightarrow> string \<Rightarrow> u64 \<Rightarrow> fs \<Rightarrow> pool \<Rightarrow> fs \<Rightarrow> go_error option \<Rightarrow> bool"
  for E D fl ts now fs where
  recrawl: "recrawl_plan E fl ts now fs = Inr (fs1, crw, wr, msk, skip, expected, cursorPath) \<Longrightarrow>
     StreamTargets E fs1 (rf_from fl) msk skip (rf_limit fl) 0 sch = (ips, curs, err) \<Longrightarrow> prefix written curs \<Longrightarrow>
     pipeline E D crw ips wr [] [] (fold (\<lambda>n. writeCountCursor cursorPath n expected) written fs1) s fs' \<Longrightarrow>
     pl_unsent s = [] \<Longrightarrow> pl_cancelled s \<or> sch_deliver sch = (\<lambda>_. True) \<Longrightarrow>
     runRecrawl E D fl ts now fs s fs' err"

text \<open>The legacy sweep of a contiguous block and the random test, which have no cursor.\<close>

inductive runSweep ::
  "env \<Rightarrow> dns_lib \<Rightarrow> commonFlags \<Rightarrow> string \<Rightarrow> u64 \<Rightarrow> string \<Rightarrow> u64 \<Rightarrow> fs \<Rightarrow> pool \<Rightarrow> fs \<Rightarrow> bool"
  for E D c startIP cnt ts now fs where
  sweep: "\<not> (IPToInt startIP = 0 \<and> startIP \<noteq> ''0.0.0.0'') \<Longrightarrow>
     setup_mode c ''sweep'' 0 0 False ts now fs = Inr (fs1, res, wr, crw) \<Longrightarrow>
     pipeline E D crw (GenerateSequential deliver (IPToInt startIP) cnt) wr [] [] fs1 s fs' \<Longrightarrow>
     pl_unsent s = [] \<Longrightarrow> pl_cancelled s \<or> deliver = always \<Longrightarrow>
     runSweep E D c startIP cnt ts now fs s fs'"

inductive runTest ::
  "env \<Rightarrow> dns_lib \<Rightarrow> commonFlags \<Rightarrow> (nat \<Rightarrow> u32) \<Rightarrow> int \<Rightarrow> string \<Rightarrow> u64 \<Rightarrow> fs \<Rightarrow> pool \<Rightarrow> fs \<Rightarrow> bool"
  for E D c rng cnt ts now fs where
  test: "setup_mode c ''test'' 0 0 False ts now fs = Inr (fs1, res, wr, crw) \<Longrightarrow>
     GenerateRandom rng deliver cnt = Some ips \<Longrightarrow> pipeline E D crw ips wr [] [] fs1 s fs' \<Longrightarrow>
     pl_unsent s = [] \<Longrightarrow> pl_cancelled s \<or> deliver = (\<lambda>_. True) \<Longrightarrow>
     runTest E D c rng cnt ts now fs s fs'"

text \<open>The offline modes up to their result; \<open>Cli_Main\<close> has what they print and write of it.\<close>

definition runCompare ::
  "env \<Rightarrow> (real \<Rightarrow> real) \<Rightarrow> fs \<Rightarrow> string \<Rightarrow> string \<Rightarrow> string \<Rightarrow> int \<Rightarrow> go_error + compare_Result" where
  "runCompare E fl fs oldPath newPath statuses top_tlds =
     (if oldPath = [] \<or> newPath = [] then Inl (ErrMsg ''compare: --old and --new are required'')
      else case ParseStatuses statuses of
        Inl e \<Rightarrow> Inl e
      | Inr msk \<Rightarrow>
          compare_Run E fl fs \<lparr>co_OldPath = oldPath, co_NewPath = newPath, co_Mask = msk, co_TopTLDs = top_tlds\<rparr>)"

definition runMerge ::
  "env \<Rightarrow> u64 \<Rightarrow> fs \<Rightarrow> string \<Rightarrow> string \<Rightarrow> string \<Rightarrow> string \<Rightarrow> bool \<Rightarrow> fs \<times> (go_error + Result)" where
  "runMerge E now fs oldPath newPath outDir statuses allowPartial =
     (if oldPath = [] \<or> newPath = [] \<or> outDir = [] then (fs, Inl (ErrMsg ''merge: --old, --new and --out are required''))
      else case ParseStatuses statuses of
        Inl e \<Rightarrow> (fs, Inl e)
      | Inr msk \<Rightarrow>
          Run E now fs \<lparr>o_OldPath = oldPath, o_NewPath = newPath, o_OutDir = outDir, o_Mask = msk, o_AllowPartial = allowPartial\<rparr>)"

text \<open>\<open>info\<close>: the files named by the arguments, the sum of their totals and of their status counts.\<close>

fun info_paths :: "fs \<Rightarrow> string list \<Rightarrow> go_error + string list" where
  "info_paths fs [] = Inr []"
| "info_paths fs (a # args) =
     (if prefix ''-'' a then info_paths fs args
      else case os_stat fs a of
          StatErr \<Rightarrow> Inl ErrNotExist
        | StatDir \<Rightarrow> map_sum id ((@) (glob_rdnsz fs a)) (info_paths fs args)
        | StatFile n \<Rightarrow> map_sum id ((#) a) (info_paths fs args))"

fun info_sum :: "fs \<Rightarrow> string list \<Rightarrow> u64 \<Rightarrow> u64 list \<Rightarrow> go_error + (u64 \<times> u64 list)" where
  "info_sum fs [] totl counts = Inr (totl, counts)"
| "info_sum fs (p # ps) totl counts =
     (case ReadHeader fs p of
        Inl e \<Rightarrow> Inl e
      | Inr h \<Rightarrow> info_sum fs ps (totl + h_Total h) (map2 (+) counts (h_Counts h)))"

definition runInfo :: "fs \<Rightarrow> string list \<Rightarrow> go_error + (string list \<times> u64 \<times> u64 list)" where
  "runInfo fs args =
     (case info_paths fs args of
        Inl e \<Rightarrow> Inl e
      | Inr paths \<Rightarrow>
          if paths = [] then Inl (ErrMsg ''usage: rdns-crawler info'')
          else map_sum id (Pair paths) (info_sum fs paths 0 (replicate NumStatusCodes 0)))"

text \<open>
  \<open>dump\<close>: the pair is what has reached standard output and what is still in the 1 MiB buffer.
  The deferred flush does not run when \<open>fatal\<close> exits.
\<close>

definition dump_record :: "Rec \<Rightarrow> Record" where
  "dump_record r = \<lparr>r_IP = IntToIP (s_IP r), r_IPInt = s_IP r, r_Status = StatusString (s_Status r), r_PTR = s_PTR r,
     r_FCrDNS = (if s_FCChecked r then Some (s_FCMatch r) else None), r_Resolver = [], r_Attempts = 0,
     r_LatencyMs = 0, r_Rcode = [], r_Error = [], r_TS = []\<rparr>"

definition dump_line :: "bool \<Rightarrow> bool \<Rightarrow> Rec \<Rightarrow> string" where
  "dump_line asCompact asText r =
     (if asCompact then
        (if s_Status r = CodeHasPTR then show_nat (unat (s_IP r)) @ [CHR 0x09] @ go_join (s_PTR r) '','' @ [newline] else [])
      else if asText then
        (if s_Status r = CodeHasPTR then IntToIP (s_IP r) @ [CHR 0x09] @ go_join (s_PTR r) '','' @ [newline] else [])
      else json_record (dump_record r) @ [newline])"

definition dump_fn :: "bool \<Rightarrow> bool \<Rightarrow> Rec \<Rightarrow> bytes \<times> bytes \<Rightarrow> (bytes \<times> bytes) \<times> go_error option" where
  "dump_fn asCompact asText r fb =
     (if dump_line asCompact asText r = [] then fb
      else bufio_write 1048576 fb (bytes_of (dump_line asCompact asText r)), None)"

definition runDump :: "env \<Rightarrow> fs \<Rightarrow> string \<Rightarrow> bool \<Rightarrow> bool \<Rightarrow> bytes \<times> go_error option" where
  "runDump E fs path asCompact asText =
     (if path = [] then ([], Some (ErrMsg ''usage: rdns-crawler dump''))
      else case ReadHeader fs path of
        Inl e \<Rightarrow> ([], Some e)
      | Inr h \<Rightarrow>
          (case Scan E fs path (dump_fn asCompact asText) ([], []) of
             (fb, err) \<Rightarrow>
               if err \<noteq> None \<and> err \<noteq> Some ErrTruncatedTail then (fst fb, err)
               else (fst (bufio_flush fb), None)))"

section \<open>Cursor files\<close>

lemma trim_space_newline:
  assumes "s \<noteq> []" "printable (hd s)" "printable (last s)"
  shows "trim_space (s @ [newline]) = s"
proof -
  have f: "trim_front space_seqs (s @ [newline]) = s @ [newline]"
    using assms by (intro trim_front_id space_seqs_unprintable(1)) auto
  have "find (\<lambda>q. q \<noteq> [] \<and> prefix q (newline # rev s)) (map rev space_seqs) = Some [newline]"
    by (simp add: space_seqs_def newline_def)
  then have "trim_front (map rev space_seqs) (newline # rev s) = trim_front (map rev space_seqs) (rev s)"
    by (subst trim_front.simps) simp
  also have "\<dots> = rev s"
    using assms by (intro trim_front_id space_seqs_unprintable(2)) (auto simp: hd_rev)
  finally show ?thesis using f by (simp add: trim_space_def)
qed

lemma show_nat_ends: "printable (hd (show_nat n))" "printable (last (show_nat n))"
  by (rule show_nat_printable [of _ n], simp)+

lemma is_digit_show: "list_all is_digit (show_nat n)"
  using show_nat_digits by (auto simp: list_all_iff is_digit_def)

lemma sscanf_show: "sscanf_u64 (show_nat (unat (v :: u64))) = Some v"
proof -
  have t: "takeWhile is_digit (show_nat (unat v)) = show_nat (unat v)"
    using is_digit_show [of "unat v"] by (simp add: list_all_iff takeWhile_eq_all_conv)
  show ?thesis
    unfolding sscanf_u64_def Let_def t using unsigned_less [where ?'a = nat, of v] by (simp add: nat_of_digits_show not_le)
qed

lemma index_slash: "c \<notin> set x \<Longrightarrow> index_byte (x @ c # ys) c = Some (length x)"
  by (induction x) auto

lemma write_atomic_read:
  assumes "is_dir fs (path_dir (path @ ''.tmp''))" "\<not> is_dir fs (path @ ''.tmp'')" "is_dir fs (path_dir path)" "\<not> is_dir fs path"
  shows "fs_read (write_atomic fs path txt) path = Some (bytes_of txt)"
proof -
  have [simp]: "is_dir (os_remove f p) = is_dir f" for f p by (auto simp: is_dir_def os_remove_def)
  show ?thesis
    using assms by (simp add: write_atomic_def os_write_file_def os_create_def os_rename_def fs_read_write Let_def)
qed

lemma dotted_printable: "printable (hd (IntToIP v))" "printable (last (IntToIP v))" "IntToIP v \<noteq> []"
proof -
  have "IntToIP v \<noteq> []" "hd (IntToIP v) = hd (show_nat (unat (drop_bit 24 v)))"
    "last (IntToIP v) = last (show_nat (unat (v AND 0xff)))"
    by (simp_all add: IntToIP_def sprintf_dotted_def)
  then show "printable (hd (IntToIP v))" "printable (last (IntToIP v))" "IntToIP v \<noteq> []"
    using show_nat_ends by simp_all
qed

section \<open>The crawl modes\<close>

lemma ipToInt_eq: "ipToInt = IPToInt"
  by (simp add: fun_eq_iff ipToInt_def IPToInt_def)

lemma newSink_rdnsz:
  assumes "newSink c path shards shardID False now fs = Inr (fs', wr)" and "k_format c \<noteq> ''jsonl''"
  shows "wr = Rdnsz (newWriter (replicate headerSize 0) path shards shardID now)"
  using assms by (auto simp: newSink_def NewWriter_def Let_def split: sum.splits)

lemma setup_Inr:
  assumes "setup_mode c mode shards shardID resume ts now fs = Inr (fs', res, wr, crw)" and "k_out c \<noteq> []"
  shows "resolver_ok res \<and> crw = crawler_New (crawl_config c) res \<and>
     (\<exists>fs2. newSink c (k_out c) shards shardID resume now fs2 = Inr (fs', wr))"
  using assms New_ok by (auto simp: setup_mode_def outPath_def Let_def split: sum.splits if_splits prod.splits)

lemma crawl_plan_Inr:
  assumes "crawl_plan div100 fl ts ts' now fs = Inr (fs1, crw, wr, cfg, cursorPath)"
    and "k_out (fl_common fl) \<noteq> []" and "\<not> fl_resume fl" and "k_format (fl_common fl) \<noteq> ''jsonl''"
  shows "\<exists>res. resolver_ok res \<and> crw = crawler_New (crawl_config (fl_common fl)) res \<and>
     wr = Rdnsz (newWriter (replicate headerSize 0) (k_out (fl_common fl)) (ucast (fl_shards fl)) (ucast (fl_shardID fl)) now) \<and>
     cfg = \<lparr>c_Shards = ucast (fl_shards fl), c_ShardID = ucast (fl_shardID fl), c_StartIP = IPToInt (fl_start fl),
            c_Limit = fl_limit fl, c_SampleThreshold = SampleThresholdForPercent div100 (fl_samplePct fl)\<rparr>"
proof -
  obtain fs2 res where st: "setup_mode (fl_common fl) ''crawl'' (ucast (fl_shards fl)) (ucast (fl_shardID fl)) False ts' now fs2 = Inr (fs1, res, wr, crw)"
    and "cfg = \<lparr>c_Shards = ucast (fl_shards fl), c_ShardID = ucast (fl_shardID fl), c_StartIP = IPToInt (fl_start fl),
            c_Limit = fl_limit fl, c_SampleThreshold = SampleThresholdForPercent div100 (fl_samplePct fl)\<rparr>"
    using assms(1,3) by (auto simp: crawl_plan_def Let_def split: sum.splits if_splits prod.splits)
  then show ?thesis using setup_Inr [OF st assms(2)] newSink_rdnsz [OF _ assms(4)] by blast
qed

lemma stored_addresses:
  assumes "mset rs = mset (map stored recs)" and "mset (map r_IP recs) = mset (map IntToIP xs)"
    and "\<forall>rec\<in>set recs. r_IPInt rec = ipToInt (r_IP rec)"
  shows "mset (map s_IP rs) = mset xs"
proof -
  have "map (s_IP \<circ> stored) recs = map (IPToInt \<circ> r_IP) recs"
    using assms(3) by (simp add: stored_def ipToInt_eq)
  have "mset (map s_IP rs) = image_mset s_IP (mset (map stored recs))" using assms(1) by (metis mset_map)
  also have "\<dots> = mset (map (s_IP \<circ> stored) recs)" by (simp add: multiset.map_comp)
  also have "\<dots> = mset (map (IPToInt \<circ> r_IP) recs)" by (simp only: \<open>map (s_IP \<circ> stored) recs = map (IPToInt \<circ> r_IP) recs\<close>)
  also have "\<dots> = image_mset IPToInt (mset (map r_IP recs))" by (simp add: multiset.map_comp)
  also have "\<dots> = mset (map (IPToInt \<circ> IntToIP) xs)" unfolding assms(2) by (simp add: multiset.map_comp)
  also have "IPToInt \<circ> IntToIP = id" by (simp add: fun_eq_iff IPToInt_IntToIP)
  finally show ?thesis by simp
qed

text \<open>What an uncancelled pipeline leaves behind in the compact format.\<close>

lemma stored_run:
  assumes E: "zstd_ok E" "sorts_keys (env_sort_slice E)" and res: "resolver_ok res"
    and p: "pool_start (crawler_New cfg res) (map IntToIP xs) = Inr s0" "(pool_step D)\<^sup>*\<^sup>* s0 s" "pl_closed s" "\<not> pl_cancelled s"
    and names: "\<forall>nm\<in>dns_names D. set nm \<inter> markers = {} \<and> length nm \<le> 1004"
    and fs': "fs' = sink_Close E (sink_Consume E (pl_out s) (Rdnsz (newWriter (replicate headerSize 0) path shards shardID now))) fs2"
  shows "\<exists>rs h. Scan E fs' path collect [] = (rs, None) \<and> mset (map s_IP rs) = mset xs \<and>
     ReadHeader fs' path = Inr h \<and> h_Total h = of_nat (length rs) \<and> h_Shards h = shards \<and> h_ShardID h = shardID \<and>
     mset rs = mset (map stored (pl_out s)) \<and>
     (\<forall>rec\<in>set (pl_out s). crawl_rec (cw_cfg (crawler_New cfg res)) rec \<and> set (r_PTR rec) \<subseteq> dns_names D)"
proof -
  define w where "w = newWriter (replicate headerSize 0) path shards shardID now"
  note wf = newWriter_fresh [where path = path and shards = shards and shardID = shardID and now = now, folded w_def]
  have fs: "fs' = Close E (Consume E (pl_out s) w) fs2" by (simp add: fs' w_def)
  have comp: "mset (map r_IP (pl_out s)) = mset (map IntToIP xs)" "\<forall>rec\<in>set (pl_out s). r_IPInt rec = ipToInt (r_IP rec)"
    using crawl_complete_run [OF res p] by (auto simp: crawl_rec_def)
  have "set nm \<inter> markers = {} \<and> length nm \<le> 1004" if "rec \<in> set (pl_out s)" "nm \<in> set (r_PTR rec)" for rec nm
    using reachable_names [OF p(1,2)] names that by blast
  then have recs: "list_all clean_rec (pl_out s)" "list_all short_rec (pl_out s)"
    by (auto simp: list_all_iff clean_rec_def short_rec_def dest!: in_set_takeD)
  obtain rs where rs: "scan_list E fs' path = (rs, None)" "mset rs = mset (map stored (pl_out s))"
    using scan_list_Close [OF E wf(1,2,4) recs, of fs2] by (auto simp: fs wf(3))
  have "length rs = length (pl_out s)" using rs(2) by (metis length_map size_mset)
  then have "\<exists>h. ReadHeader fs' path = Inr h \<and> h_Total h = of_nat (length rs) \<and> h_Shards h = shards \<and> h_ShardID h = shardID"
    using ReadHeader_Close [OF wf(1), of E "pl_out s" fs2] wf(3,5,6,7) by (simp add: fs header_Consume)
  then show ?thesis
    using rs stored_addresses [OF rs(2) comp] crawl_complete_run [OF res p] reachable_names [OF p(1,2)]
    unfolding Scan_collect by blast
qed

section \<open>The offline modes\<close>

lemma dump_fold:
  "\<exists>f b. fold_err (dump_fn asCompact asText) rs fb = ((f, b), None) \<and>
     f @ b = fst fb @ snd fb @ bytes_of (concat (map (dump_line asCompact asText) rs))"
proof (induction rs arbitrary: fb)
  case (Cons r rs)
  obtain f1 b1 where 1: "dump_fn asCompact asText r fb = ((f1, b1), None)"
    "f1 @ b1 = fst fb @ snd fb @ bytes_of (dump_line asCompact asText r)"
  proof (cases "dump_line asCompact asText r = []")
    case True
    then show ?thesis using that [of "fst fb" "snd fb"] by (simp add: dump_fn_def bytes_of_def)
  next
    case False
    obtain f b where fb: "bufio_write 1048576 (fst fb, snd fb) (bytes_of (dump_line asCompact asText r)) = (f, b)" by fastforce
    then show ?thesis
      using that [of f b] False bufio_write_content [OF fb] by (simp add: dump_fn_def del: bufio_write.simps)
  qed
  then show ?case using Cons.IH [of "(f1, b1)"] by (auto simp: bytes_of_def simp del: bufio_write.simps)
next
  case Nil
  show ?case by (cases fb) (simp add: bytes_of_def)
qed

text \<open>
  A dump of a readable file prints every record of its complete blocks, in file order; after a
  read error only what had left the buffer is printed.
\<close>

lemma dump_exact:
  assumes "Scan E fs path collect [] = (rs, err)" and "ReadHeader fs path = Inr h" and "path \<noteq> []"
  shows "if err = None \<or> err = Some ErrTruncatedTail
     then runDump E fs path asCompact asText = (bytes_of (concat (map (dump_line asCompact asText) rs)), None)
     else \<exists>out. runDump E fs path asCompact asText = (out, err) \<and> prefix out (bytes_of (concat (map (dump_line asCompact asText) rs)))"
proof -
  obtain f b where fb: "fold_err (dump_fn asCompact asText) rs ([], []) = ((f, b), None)"
    "f @ b = bytes_of (concat (map (dump_line asCompact asText) rs))"
    using dump_fold [of asCompact asText rs "([], [])"] by auto
  have "Scan E fs path (dump_fn asCompact asText) ([], []) = ((f, b), err)"
    using assms(1) [unfolded Scan_collect] fb(1) by (simp add: Scan_fold)
  then show ?thesis
    using assms(2,3) fb(2) [symmetric] by (auto simp: runDump_def bufio_flush_def split: option.splits)
qed

lemma info_sum_exact:
  assumes "\<And>p. p \<in> set ps \<Longrightarrow> ReadHeader fs p = Inr (h p)" and "length counts = 8" and "\<And>p. p \<in> set ps \<Longrightarrow> length (h_Counts (h p)) = 8"
  shows "\<exists>cs. info_sum fs ps t counts = Inr (t + sum_list (map (\<lambda>p. h_Total (h p)) ps), cs) \<and>
     (\<forall>k<8. cs ! k = counts ! k + sum_list (map (\<lambda>p. h_Counts (h p) ! k) ps))"
  using assms
proof (induction ps arbitrary: t counts)
  case (Cons p ps)
  have hp: "ReadHeader fs p = Inr (h p)" "length (h_Counts (h p)) = 8" using Cons.prems by auto
  have "length (map2 (+) counts (h_Counts (h p))) = 8" using Cons.prems(2) hp(2) by simp
  then obtain cs where "info_sum fs ps (t + h_Total (h p)) (map2 (+) counts (h_Counts (h p))) =
      Inr (t + h_Total (h p) + sum_list (map (\<lambda>p. h_Total (h p)) ps), cs)"
    "\<forall>k<8. cs ! k = map2 (+) counts (h_Counts (h p)) ! k + sum_list (map (\<lambda>p. h_Counts (h p) ! k) ps)"
    using Cons.IH [of "map2 (+) counts (h_Counts (h p))" "t + h_Total (h p)"] Cons.prems by auto
  then show ?case using hp Cons.prems(2) by (simp add: add.assoc)
qed simp

section \<open>Properties\<close>

text \<open>
  C32. The cursor files read back what was written: a recrawl position always, a crawl position
  always except for 0.0.0.0 (which \<open>readCursor\<close> takes for an invalid file), and the file is
  replaced as a whole.
\<close>
theorem cursor_roundtrip:
  assumes "is_dir fs (path_dir (path @ ''.tmp''))" "\<not> is_dir fs (path @ ''.tmp'')" "is_dir fs (path_dir path)" "\<not> is_dir fs path"
  shows "readCountCursor (writeCountCursor path n expected fs) path = Some n \<and>
     readCursor (writeCursor path v fs) path = (if v = 0 then None else Some v)"
proof -
  let ?t = "show_nat (unat n) @ ''/'' @ show_nat (unat expected)"
  have "trim_space (?t @ [newline]) = ?t" using show_nat_ends by (intro trim_space_newline) simp_all
  moreover have "index_byte ?t (CHR ''/'') = Some (length (show_nat (unat n)))"
    using index_slash [of "CHR ''/''" "show_nat (unat n)"] show_nat_digits [of "CHR ''/''" "unat n"] by auto
  ultimately have "readCountCursor (writeCountCursor path n expected fs) path = Some n"
    using write_atomic_read [OF assms, of "?t @ [newline]"] sscanf_show [of n]
    by (simp add: readCountCursor_def writeCountCursor_def Let_def)
  moreover have "trim_space (IntToIP v @ [newline]) = IntToIP v"
    using dotted_printable by (intro trim_space_newline)
  then have "readCursor (writeCursor path v fs) path = (if v = 0 then None else Some v)"
    using write_atomic_read [OF assms, of "IntToIP v @ [newline]"] by (simp add: readCursor_def writeCursor_def IPToInt_IntToIP)
  ultimately show ?thesis by blast
qed

lemma crawl_run:
  assumes run: "runCrawl E D div100 fl ts ts' now fs s fs'" and "\<not> pl_cancelled s"
    and E: "zstd_ok E" "sorts_keys (env_sort_slice E)"
    and fl: "k_out (fl_common fl) \<noteq> []" "\<not> fl_resume fl" "k_format (fl_common fl) \<noteq> ''jsonl''" "fl_limit fl = 0"
    and names: "\<forall>nm\<in>dns_names D. set nm \<inter> markers = {} \<and> length nm \<le> 1004"
  shows "\<exists>rs h. Scan E fs' (k_out (fl_common fl)) collect [] = (rs, None) \<and> distinct (map s_IP rs) \<and>
     s_IP ` set rs = {ip. IPToInt (fl_start fl) \<le> ip \<and> \<not> IsReserved ip \<and>
        inShardSample ip (norm_shards \<lparr>c_Shards = ucast (fl_shards fl), c_ShardID = ucast (fl_shardID fl),
          c_StartIP = IPToInt (fl_start fl), c_Limit = 0, c_SampleThreshold = SampleThresholdForPercent div100 (fl_samplePct fl)\<rparr>)} \<and>
     ReadHeader fs' (k_out (fl_common fl)) = Inr h \<and> h_Total h = of_nat (length rs) \<and>
     mset rs = mset (map stored (pl_out s))"
  using run
proof cases
  case (crawl fs1 crw wr cfg cursorPath deliver ips curs cursors)
  let ?path = "k_out (fl_common fl)" and ?sh = "ucast (fl_shards fl)" and ?id = "ucast (fl_shardID fl)"
  obtain res where pl: "resolver_ok res" "crw = crawler_New (crawl_config (fl_common fl)) res"
    and wr: "wr = Rdnsz (newWriter (replicate headerSize 0) ?path ?sh ?id now)"
    and cfg: "cfg = \<lparr>c_Shards = ucast (fl_shards fl), c_ShardID = ucast (fl_shardID fl), c_StartIP = IPToInt (fl_start fl),
            c_Limit = 0, c_SampleThreshold = SampleThresholdForPercent div100 (fl_samplePct fl)\<rparr>"
    using crawl_plan_Inr [OF crawl(1) fl(1-3)] fl(4) by auto
  let ?xs = "addrs_from (shard_member cfg) (ucast (c_StartIP cfg))"
  have "deliver = always" using crawl(6) assms(2) by blast
  then have ips: "ips = map IntToIP ?xs" using crawl(2) sharded_full [of cfg] by (simp add: cfg)
  from crawl(4) obtain s0 fs2 where p: "pool_start (crawler_New (crawl_config (fl_common fl)) res) (map IntToIP ?xs) = Inr s0"
    "(pool_step D)\<^sup>*\<^sup>* s0 s" "pl_closed s" "fs' = sink_Close E (sink_Consume E (pl_out s) wr) fs2"
    by (rule pipelineE) (simp add: pl(2) ips)
  obtain rs h where rs: "Scan E fs' ?path collect [] = (rs, None)" "mset (map s_IP rs) = mset ?xs"
    "ReadHeader fs' ?path = Inr h" "h_Total h = of_nat (length rs)"
    "mset rs = mset (map stored (pl_out s))"
    using stored_run [OF E pl(1) p(1-3) assms(2) names p(4) [unfolded wr]] by blast
  have "distinct ?xs" using sorted_addrs_from strict_sorted_iff by blast
  then have "distinct (map s_IP rs)" using rs(2) mset_eq_imp_distinct_iff by blast
  moreover have "s_IP ` set rs = {ip. c_StartIP cfg \<le> ip \<and> shard_member cfg ip}"
    using mset_eq_setD [OF rs(2)] set_addrs_from [of "shard_member cfg" "c_StartIP cfg"] by simp
  ultimately show ?thesis using rs by (auto simp: cfg)
qed

text \<open>
  C2. A crawl from end to end. When \<open>crawl\<close> runs over its whole shard without being cancelled and
  writes the compact format, the file it leaves is complete and readable: it scans without an
  error, holds exactly one record for every routable address of the shard (in the sample, if
  one is taken) from the start address on, and its header counts them. The names that the servers send are assumed to be free of the four
  marker bytes of the templating and within the size of a DNS name.
\<close>
theorem crawl_end_to_end:
  assumes run: "runCrawl E D div100 fl ts ts' now fs s fs'" and "\<not> pl_cancelled s"
    and E: "zstd_ok E" "sorts_keys (env_sort_slice E)"
    and fl: "k_out (fl_common fl) \<noteq> []" "\<not> fl_resume fl" "k_format (fl_common fl) \<noteq> ''jsonl''" "fl_limit fl = 0"
    and names: "\<forall>nm\<in>dns_names D. set nm \<inter> markers = {} \<and> length nm \<le> 1004"
  shows "\<exists>rs h. Scan E fs' (k_out (fl_common fl)) collect [] = (rs, None) \<and> distinct (map s_IP rs) \<and>
     s_IP ` set rs = {ip. IPToInt (fl_start fl) \<le> ip \<and> \<not> IsReserved ip \<and>
        inShardSample ip (norm_shards \<lparr>c_Shards = ucast (fl_shards fl), c_ShardID = ucast (fl_shardID fl),
          c_StartIP = IPToInt (fl_start fl), c_Limit = 0, c_SampleThreshold = SampleThresholdForPercent div100 (fl_samplePct fl)\<rparr>)} \<and>
     ReadHeader fs' (k_out (fl_common fl)) = Inr h \<and> h_Total h = of_nat (length rs)"
  using crawl_run [OF assms] by blast

text \<open>
  C37. Rewinding one checkpoint does not rule out holes. A re-crawl that has handed out \<open>n\<close> targets
  (its cursor) resumes at \<open>rewind n\<close>; but a cancelled run may end, cleanly and with every other
  target recorded, without a record for the very first one, which a resumed run starts after.
\<close>
theorem rewind_leaves_hole:
  assumes "resolver_ok res" and "pool_start (crawler_New cfg res) (ip # rest) = Inr s0"
    and "2 \<le> cf_Concurrency cfg" and "cf_QPS cfg \<le> 0"
    and "DefaultTargetCheckpoint < of_nat (length (ip # rest))"
  shows "\<exists>s. (pool_step D)\<^sup>*\<^sup>* s0 s \<and> pl_closed s \<and> map r_IP (pl_out s) = rest \<and> pl_in s = [] \<and> pl_unsent s = [] \<and>
     0 < rewind (of_nat (length (ip # rest)))"
proof -
  have "0 < rewind n" if "DefaultTargetCheckpoint < n" for n
    using that by (simp add: rewind_def word_less_nat_alt unat_sub_if_size)
  then show ?thesis using lose_first [OF assms(1-4)] assms(5) by blast
qed

section \<open>Witnesses\<close>

theorem cursor_roundtrip_witness:
  "readCountCursor (writeCountCursor ''d/s.cursor'' 131072 200000 fs_example) ''d/s.cursor'' = Some 131072 \<and>
   readCursor (writeCursor ''d/s.cursor'' 16909060 fs_example) ''d/s.cursor'' = Some 16909060"
  using cursor_roundtrip [of fs_example "''d/s.cursor''" 131072 200000 16909060]
  by (simp add: fs_example_def is_dir_def path_dir_def)

theorem rewind_leaves_hole_witness:
  "\<exists>s. (pool_step dns_example)\<^sup>*\<^sup>* (pool_example (''9.9.9.9'' # replicate 131072 ''1.2.3.4'')) s \<and> pl_closed s \<and>
     map r_IP (pl_out s) = replicate 131072 ''1.2.3.4'' \<and> 0 < rewind 131073"
proof -
  have "DefaultTargetCheckpoint < of_nat (length (''9.9.9.9'' # replicate 131072 ''1.2.3.4''))"
    by (simp add: DefaultTargetCheckpoint_def)
  from rewind_leaves_hole [OF crawler_example_ok(1) pool_start_example _ _ this, of dns_example] show ?thesis
    by (auto simp: crawl_cfg_example_def)
qed

definition common_example :: commonFlags where
  "common_example = \<lparr>k_concurrency = 512, k_timeout = 3000000000, k_retries = 2, k_fcrdns = True, k_qps = 0,
     k_resolvers = [], k_resolversFile = [], k_out = path_example, k_format = ''rdnsz''\<rparr>"

definition crawl_example :: crawlFlags where
  "crawl_example = \<lparr>fl_common = common_example, fl_shards = 4, fl_shardID = 1, fl_start = ''0.0.0.0'', fl_limit = 0,
     fl_samplePct = 100, fl_resume = False\<rparr>"

lemma norm_default: "norm_servers DefaultResolvers \<noteq> []"
  by code_simp

lemma crawl_plan_example: "\<exists>fs1 crw wr cfg cp. crawl_plan div100 crawl_example [] [] 99 fs_example = Inr (fs1, crw, wr, cfg, cp)"
proof -
  have t: "trim_space [] = []" by code_simp
  have path: "path_dir path_example = ''d''" "path_example \<noteq> []" by (simp_all add: path_example_def path_dir_def)
  have o: "\<exists>fs1. outPath common_example ''crawl'' [] fs = Inr (fs1, path_example) \<and> is_dir fs1 ''d'' \<and> \<not> is_dir fs1 path_example \<and> fs_files fs1 = []"
    if "fs_files fs = []" "is_dir fs ''d''" "\<not> is_dir fs path_example" for fs
    using that path by (auto simp: outPath_def common_example_def os_mkdir_all_def fs_read_def is_dir_def outputDir_def path_example_def Let_def)
  obtain fs1 where f1: "outPath common_example ''crawl'' [] fs_example = Inr (fs1, path_example)"
    "is_dir fs1 ''d''" "\<not> is_dir fs1 path_example" "fs_files fs1 = []"
    using o [of fs_example] fs_example_ok path by (auto simp: fs_example_def)
  obtain fs2 where f2: "outPath common_example ''crawl'' [] fs1 = Inr (fs2, path_example)" "is_dir fs2 ''d''" "\<not> is_dir fs2 path_example"
    using o [OF f1(4,2,3)] by blast
  obtain res where "resolver_New DefaultResolvers (k_timeout common_example) (k_retries common_example) = Inr res"
    using norm_default by (simp add: resolver_New_def Let_def)
  moreover have "resolverList common_example fs1 = Inr DefaultResolvers" by (simp add: resolverList_def common_example_def t)
  moreover obtain fs3 w where "newSink common_example path_example 4 1 False 99 fs2 = Inr (fs3, w)"
    using NewWriter_ok [of fs2 path_example 4 1 99] f2(2,3) path by (auto simp: newSink_def common_example_def)
  ultimately show ?thesis
    using f1(1) f2(1) by (simp add: crawl_plan_def setup_mode_def crawl_example_def Let_def word_le_nat_alt)
qed

lemma crawl_run_example:
  "\<exists>s fs'. runCrawl test_env dns_example div100 crawl_example [] [] 99 fs_example s fs' \<and> \<not> pl_cancelled s"
proof -
  obtain fs1 crw wr cfg cp where pl: "crawl_plan div100 crawl_example [] [] 99 fs_example = Inr (fs1, crw, wr, cfg, cp)"
    using crawl_plan_example by blast
  obtain res where r: "resolver_ok res" "crw = crawler_New (crawl_config (fl_common crawl_example)) res"
    using crawl_plan_Inr [OF pl] by (auto simp: crawl_example_def common_example_def path_example_def)
  let ?ips = "fst (GenerateShardedFull always cfg)"
  have "\<exists>s0. pool_start crw ?ips = Inr s0"
    by (simp add: r(2) pool_start_def crawler_New_def Let_def crawl_config_def crawl_example_def common_example_def)
  then obtain s0 where s0: "pool_start crw ?ips = Inr s0" by blast
  obtain s where s: "(pool_step dns_example)\<^sup>*\<^sup>* s0 s" "pl_closed s" "\<not> pl_cancelled s" "pl_unsent s = []"
    using complete_run [OF r(1) s0 [unfolded r(2)]] by (auto simp: crawl_config_def crawl_example_def common_example_def)
  have g: "GenerateShardedFull always cfg = (?ips, snd (GenerateShardedFull always cfg))" by simp
  obtain fs' where "runCrawl test_env dns_example div100 crawl_example [] [] 99 fs_example s fs'"
    using runCrawl.crawl [OF pl g Nil_prefix pipeline.run [OF s0 s(1,2)]] s(3,4) by blast
  then show ?thesis using s(3) by blast
qed

lemma crawl_example_flags:
  "k_out (fl_common crawl_example) = path_example" "path_example \<noteq> []" "\<not> fl_resume crawl_example"
  "k_format (fl_common crawl_example) \<noteq> ''jsonl''" "fl_limit crawl_example = 0"
  by (simp_all add: crawl_example_def common_example_def path_example_def)

lemma dns_example_names: "\<forall>nm\<in>dns_names dns_example. set nm \<inter> markers = {} \<and> length nm \<le> 1004"
proof -
  have "nm = ''h.example''" if "nm \<in> dns_names dns_example" for nm
    using that by (auto simp: dns_names_def dns_example_def ptr_names_def trim_suffix_def suffix_def split: if_splits)
  moreover have "set ''h.example'' \<inter> markers = {} \<and> length ''h.example'' \<le> 1004" by (simp add: markers_def marker_defs)
  ultimately show ?thesis by metis
qed

theorem crawl_end_to_end_witness:
  "\<exists>s fs' rs. runCrawl test_env dns_example id crawl_example [] [] 99 fs_example s fs' \<and>
     Scan test_env fs' path_example collect [] = (rs, None) \<and> distinct (map s_IP rs) \<and> 16777217 \<in> s_IP ` set rs"
proof -
  obtain s fs' where run: "runCrawl test_env dns_example id crawl_example [] [] 99 fs_example s fs'" "\<not> pl_cancelled s"
    using crawl_run_example by blast
  note fl = crawl_example_flags
  have nr: "\<not> IsReserved 16777217" by (simp add: IsReserved_def ReservedIPv4Ranges_def in_range_def)
  have "IPToInt ''0.0.0.0'' = 0" by code_simp
  then obtain rs where rs: "Scan test_env fs' path_example collect [] = (rs, None)" "distinct (map s_IP rs)"
    "s_IP ` set rs = {ip. \<not> IsReserved ip \<and> ip mod 4 = 1}"
    using crawl_end_to_end [OF run zstd_ok_test_env test_env_sorts(1) _ _ fl(4,5) dns_example_names] fl
    by (auto simp: crawl_example_def common_example_def inShardSample_def SampleThresholdForPercent_def norm_shards_def)
  have "16777217 \<in> s_IP ` set rs" unfolding rs(3) using nr by simp
  with run rs(1,2) show ?thesis by blast
qed

end
