(* ===== verification/Merge_Figures.thy ===== *)
theory Merge_Figures
  imports Merge
begin

unbundle bit_operations_syntax

text \<open>
  The figures of a merge: what the counters of \<open>Result\<close> and the line of a shard say about the two
  passes. Each baseline record has one effect, decided by the first record of the new pass for
  its address; the scan of the baseline adds one per effect and marks the table entries it used.
\<close>

section \<open>What one baseline record contributes\<close>

datatype effect = Eff_None | Eff_Missing | Eff_Gained | Eff_Unchanged | Eff_Changed | Eff_Removed | Eff_Grace

definition effect_of :: "env \<Rightarrow> Rec \<Rightarrow> status_code \<Rightarrow> string list \<Rightarrow> effect" where
  "effect_of E r st names =
     (if st = CodeHasPTR then
        (if s_Status r \<noteq> CodeHasPTR then Eff_Gained
         else if hashNames E (s_PTR r) = hashNames E names then Eff_Unchanged else Eff_Changed)
      else if s_Status r \<noteq> CodeHasPTR then Eff_None
      else if definitive st then Eff_Removed else Eff_Grace)"

definition effect :: "env \<Rightarrow> status_mask \<Rightarrow> Rec list \<Rightarrow> Rec \<Rightarrow> effect" where
  "effect E msk news r =
     (if \<not> mask_Has msk (s_Status r) then Eff_None
      else case find (\<lambda>n. s_IP n = s_IP r) news of
          None \<Rightarrow> Eff_Missing
        | Some n \<Rightarrow> effect_of E r (s_Status n) (s_PTR n))"

definition view_effect :: "env \<Rightarrow> status_mask \<Rightarrow> view list \<Rightarrow> Rec \<Rightarrow> effect" where
  "view_effect E msk T r =
     (if \<not> mask_Has msk (s_Status r) then Eff_None
      else case find (\<lambda>v. fst v = s_IP r) T of
          None \<Rightarrow> Eff_Missing
        | Some v \<Rightarrow> effect_of E r (fst (snd v) AND entStatusMask) (snd (snd v)))"

text \<open>Adding effects to the figures of a result.\<close>

definition add_figures :: "(effect \<Rightarrow> u64) \<Rightarrow> u64 \<Rightarrow> Result \<Rightarrow> Result" where
  "add_figures f dups res = res\<lparr>
     res_Gained := res_Gained res + f Eff_Gained, res_RemovedAuth := res_RemovedAuth res + f Eff_Removed,
     res_PTRChanged := res_PTRChanged res + f Eff_Changed, res_PTRUnchanged := res_PTRUnchanged res + f Eff_Unchanged,
     res_GraceKept := res_GraceKept res + f Eff_Grace, res_MissingKept := res_MissingKept res + f Eff_Missing,
     res_OldDups := res_OldDups res + dups\<rparr>"

definition effect_count :: "(Rec \<Rightarrow> effect) \<Rightarrow> Rec list \<Rightarrow> effect \<Rightarrow> u64" where
  "effect_count eff rs k = of_nat (length (filter (\<lambda>r. eff r = k) rs))"

lemma add_figures_add: "add_figures f d (add_figures g e res) = add_figures (\<lambda>k. g k + f k) (e + d) res"
  by (simp add: add_figures_def add.assoc)

lemma add_figures_zero: "add_figures (effect_count eff []) 0 res = res"
  by (simp add: add_figures_def effect_count_def)

lemma effect_count_Cons: "effect_count eff (r # rs) = (\<lambda>k. effect_count eff [r] k + effect_count eff rs k)"
  by (auto simp: effect_count_def fun_eq_iff)

section \<open>The baseline scan\<close>

definition used_ips :: "newEnt list \<Rightarrow> u32 set" where
  "used_ips ents = e_ip ` {e \<in> set ents. e_sf e AND entUsed \<noteq> 0}"

lemma put_merged_frame:
  "put_merged E rec c ms = (ms', None) \<Longrightarrow> ms_res ms' = ms_res ms \<and> ms_ents ms' = ms_ents ms"
  by (auto simp: put_merged_def Let_def split: if_splits)

definition bump_effect :: "effect \<Rightarrow> Result \<Rightarrow> Result" where
  "bump_effect k res = (case k of
      Eff_None \<Rightarrow> res
    | Eff_Missing \<Rightarrow> res\<lparr>res_MissingKept := res_MissingKept res + 1\<rparr>
    | Eff_Gained \<Rightarrow> res\<lparr>res_Gained := res_Gained res + 1\<rparr>
    | Eff_Unchanged \<Rightarrow> res\<lparr>res_PTRUnchanged := res_PTRUnchanged res + 1\<rparr>
    | Eff_Changed \<Rightarrow> res\<lparr>res_PTRChanged := res_PTRChanged res + 1\<rparr>
    | Eff_Removed \<Rightarrow> res\<lparr>res_RemovedAuth := res_RemovedAuth res + 1\<rparr>
    | Eff_Grace \<Rightarrow> res\<lparr>res_GraceKept := res_GraceKept res + 1\<rparr>)"

lemma add_figures_one: "add_figures (effect_count eff [r]) 0 res = bump_effect (eff r) res"
  by (cases "eff r") (simp_all add: add_figures_def effect_count_def bump_effect_def)

lemma merge_found_figures:
  assumes "merge_found E arena r e ms = (ms', None)"
  shows "ms_ents ms' = ms_ents ms \<and>
     ms_res ms' = bump_effect (effect_of E r (e_sf e AND entStatusMask) (ent_names arena e)) (ms_res ms)"
proof (cases "e_sf e AND entStatusMask = CodeHasPTR \<or> e_sf e AND entStatusMask = CodeNXDomain \<or>
    e_sf e AND entStatusMask = CodeNoErrorEmpty")
  case True
  then show ?thesis
    using assms unfolding merge_found_def Let_def effect_of_def definitive_def
    by (cases "e_sf e AND entStatusMask = CodeHasPTR"; cases "s_Status r = CodeHasPTR")
      (auto simp: bump_res_def bump_effect_def dest!: put_merged_frame)
next
  case False
  then show ?thesis
    using assms unfolding merge_found_def Let_def effect_of_def definitive_def
    by (cases "s_Status r = CodeHasPTR") (auto simp: bump_res_def bump_effect_def writeOld_def dest!: put_merged_frame)
qed

lemma used_bit [simp]: "(x OR entUsed) AND entUsed \<noteq> 0" for x :: u8
proof -
  have "(x OR entUsed) AND entUsed = entUsed" by (rule bit_word_eqI) (auto simp: bit_simps)
  then show ?thesis by (simp add: entUsed_def)
qed

lemma used_ips_mark:
  assumes "i < length ents" and "distinct (map e_ip ents)"
  shows "used_ips (ents[i := (ents ! i)\<lparr>e_sf := e_sf (ents ! i) OR entUsed\<rparr>]) = insert (e_ip (ents ! i)) (used_ips ents)"
    (is "?L = ?R")
proof -
  let ?e = "(ents ! i)\<lparr>e_sf := e_sf (ents ! i) OR entUsed\<rparr>"
  have s: "set (ents[i := ?e]) = insert ?e (set ents - {ents ! i})"
    using assms by (simp add: set_update_distinct distinct_map)
  then have "{e \<in> set (ents[i := ?e]). e_sf e AND entUsed \<noteq> 0} =
      insert ?e {e \<in> set ents - {ents ! i}. e_sf e AND entUsed \<noteq> 0}"
    using used_bit [of "e_sf (ents ! i)"] by auto
  then have L: "?L = insert (e_ip (ents ! i)) (e_ip ` {e \<in> set ents - {ents ! i}. e_sf e AND entUsed \<noteq> 0})"
    by (simp add: used_ips_def)
  have "insert (e_ip (ents ! i)) (e_ip ` {e \<in> set ents - {ents ! i}. e_sf e AND entUsed \<noteq> 0}) = ?R"
    unfolding used_ips_def by blast
  then show ?thesis using L by simp
qed

lemma old_fn_figures:
  assumes inv: "table_inv arena T ms" and new: "\<not> seen_test (s_IP r) (ms_seen ms)"
    and run: "old_fn E msk arena r ms = (ms', None)"
  shows "ms_res ms' = add_figures (effect_count (view_effect E msk T) [r]) 0 (ms_res ms)"
    and "used_ips (ms_ents ms') = used_ips (ms_ents ms) \<union> ({s_IP r} \<inter> fst ` set T \<inter> {ip. mask_Has msk (s_Status r)})"
proof -
  have T: "map (view arena) (ms_ents ms) = T" and srtT: "sorted_wrt (<) (map fst T)"
    using inv by (auto simp: table_inv_def)
  have ips: "map e_ip (ms_ents ms) = map fst T" by (simp add: T [symmetric] view_def)
  then have srt: "sorted_wrt (<) (map e_ip (ms_ents ms))" using srtT by simp
  note lk = lookup_view [OF srt, of "s_IP r" arena, unfolded T]
  have keys: "fst ` set T = e_ip ` set (ms_ents ms)" using ips by (metis list.set_map)
  have "ms_res ms' = add_figures (effect_count (view_effect E msk T) [r]) 0 (ms_res ms) \<and>
    used_ips (ms_ents ms') = used_ips (ms_ents ms) \<union> ({s_IP r} \<inter> fst ` set T \<inter> {ip. mask_Has msk (s_Status r)})"
  proof (cases "mask_Has msk (s_Status r) \<and> lookup_ip e_ip (ms_ents ms) (s_IP r) \<noteq> None")
    case False
    have "s_IP r \<notin> fst ` set T" if "mask_Has msk (s_Status r)"
      using that False lookup_ip_None [OF srt] keys by auto
    then show ?thesis
      using False new run lk
      by (auto simp: old_fn_def Let_def writeOld_def bump_res_def view_effect_def add_figures_def effect_count_def
          dest!: put_merged_frame split: if_splits)
  next
    case True
    then obtain i where i: "lookup_ip e_ip (ms_ents ms) (s_IP r) = Some i" and has: "mask_Has msk (s_Status r)" by auto
    define e0 where "e0 = ms_ents ms ! i"
    define e where "e = e0\<lparr>e_sf := e_sf e0 OR entUsed\<rparr>"
    define ms1 where "ms1 = ms\<lparr>ms_seen := seen_set (s_IP r) (ms_seen ms),
        ms_sr := (ms_sr ms)\<lparr>sr_OldTotal := sr_OldTotal (ms_sr ms) + 1\<rparr>, ms_ents := (ms_ents ms)[i := e]\<rparr>"
    have il: "i < length (ms_ents ms)" "e_ip e0 = s_IP r" using lookup_ip_Some [OF srt] i by (auto simp: e0_def)
    have step: "merge_found E arena r e ms1 = (ms', None)"
      using new has i run by (simp add: old_fn_def Let_def ms1_def e_def e0_def)
    have u: "used_ips (ms_ents ms1) = insert (s_IP r) (used_ips (ms_ents ms))"
      using used_ips_mark [OF il(1) strict_sorted_iff [THEN iffD1, OF srt, THEN conjunct2]] il(2)
      by (simp add: ms1_def e_def e0_def)
    have mem: "s_IP r \<in> fst ` set T" using keys il nth_mem by (metis image_eqI e0_def)
    have eff: "view_effect E msk T r = effect_of E r (e_sf e AND entStatusMask)
        (if e_sf e AND entStatusMask = CodeHasPTR then ent_names arena e else [])"
      using has lk i by (simp add: view_effect_def view_def used_bits e0_def [symmetric] e_def ent_names_def)
    have ns: "effect_of E r st (if st = CodeHasPTR then ns else []) = effect_of E r st ns" for st ns
      by (simp add: effect_of_def)
    have "ms_res ms' = add_figures (effect_count (view_effect E msk T) [r]) 0 (ms_res ms1) \<and> ms_ents ms' = ms_ents ms1"
      using merge_found_figures [OF step] unfolding add_figures_one eff ns by simp
    then show ?thesis using u mem has by (auto simp: ms1_def)
  qed
  then show "ms_res ms' = add_figures (effect_count (view_effect E msk T) [r]) 0 (ms_res ms)"
    and "used_ips (ms_ents ms') = used_ips (ms_ents ms) \<union> ({s_IP r} \<inter> fst ` set T \<inter> {ip. mask_Has msk (s_Status r)})"
    by blast+
qed


lemma old_fn_fold_figures:
  assumes "table_inv arena T ms" and "list_all (\<lambda>r. unat (s_Status r) < NumStatusCodes) olds"
    and "fold_err (old_fn E msk arena) olds ms = (ms', None)"
  defines "F \<equiv> first_recs {ip. seen_test ip (ms_seen ms)} olds"
  shows "ms_res ms' = add_figures (effect_count (view_effect E msk T) F) (of_nat (length olds) - of_nat (length F)) (ms_res ms) \<and>
     map e_ip (ms_ents ms') = map fst T \<and>
     used_ips (ms_ents ms') = used_ips (ms_ents ms) \<union> (s_IP ` {r \<in> set F. mask_Has msk (s_Status r)} \<inter> fst ` set T)"
  using assms(1-3) unfolding F_def
proof (induction olds arbitrary: ms)
  case Nil
  then show ?case by (auto simp: add_figures_zero table_inv_def view_def)
next
  case (Cons r olds)
  let ?S = "{ip. seen_test ip (ms_seen ms)}"
  show ?case
  proof (cases "seen_test (s_IP r) (ms_seen ms)")
    case True
    define ms1 where "ms1 = bump_res (\<lambda>res. res\<lparr>res_OldDups := res_OldDups res + 1\<rparr>) ms"
    have step: "old_fn E msk arena r ms = (ms1, None)" using True by (simp add: old_fn_def ms1_def)
    have eq: "table_inv arena T ms1" "ms_seen ms1 = ms_seen ms" "ms_ents ms1 = ms_ents ms"
      "ms_res ms1 = add_figures (effect_count (view_effect E msk T) []) 1 (ms_res ms)"
      using Cons.prems(1) by (simp_all add: ms1_def bump_res_def table_inv_def add_figures_def effect_count_def)
    have rest: "fold_err (old_fn E msk arena) olds ms1 = (ms', None)" using Cons.prems(3) step by simp
    have z: "(\<lambda>k. effect_count (view_effect E msk T) [] k + f k) = f" for f :: "effect \<Rightarrow> u64" by (simp add: effect_count_def)
    show ?thesis
      using Cons.IH [OF eq(1) _ rest] Cons.prems(2) True unfolding eq(2-4) add_figures_add z
      by (simp add: algebra_simps)
  next
    case False
    obtain ms1 where s: "old_fn E msk arena r ms = (ms1, None)" "table_inv arena T ms1"
      "ms_seen ms1 = seen_set (s_IP r) (ms_seen ms)"
      using old_fn_step [OF Cons.prems(1) False, of E msk] Cons.prems(2) by auto
    note fig = old_fn_figures [OF Cons.prems(1) False s(1)]
    have S: "{ip. seen_test ip (ms_seen ms1)} = insert (s_IP r) ?S" by (auto simp: s(3) seen.mem_ins)
    have rest: "fold_err (old_fn E msk arena) olds ms1 = (ms', None)" using Cons.prems(3) s(1) by simp
    have F: "first_recs ?S (r # olds) = r # first_recs (insert (s_IP r) ?S) olds" using False by simp
    show ?thesis
      using Cons.IH [OF s(2) _ rest] Cons.prems(2)
      unfolding S F fig add_figures_add effect_count_Cons [of _ r "first_recs (insert (s_IP r) ?S) olds"]
      by (auto simp: algebra_simps)
  qed
qed

section \<open>The table as loaded\<close>

lemma dedup_loop_set: "set (fst (dedup_loop key kept es d)) \<subseteq> set kept \<union> set es"
  by (induction key kept es d rule: dedup_loop.induct) auto

lemma load_fold_flags:
  "fold_err load_fn rs (ents, arena) = ((ents', arena'), e) \<Longrightarrow>
     x \<in> set ents' \<Longrightarrow> x \<in> set ents \<or> (\<exists>r\<in>set rs. e_sf x = ent_flags r)"
proof (induction rs arbitrary: ents arena)
  case (Cons r rs)
  obtain ents1 arena1 e1 where l: "load_fn r (ents, arena) = ((ents1, arena1), e1)" by (metis prod.collapse)
  then have "ents1 = ents \<or> (\<exists>y. ents1 = ents @ [y] \<and> e_sf y = ent_flags r)"
    by (auto simp: load_fn_def Let_def split: if_splits)
  moreover have "x \<in> set ents1 \<or> (\<exists>r\<in>set rs. e_sf x = ent_flags r)"
    using Cons.IH Cons.prems l by (cases e1) auto
  ultimately show ?case by auto
qed auto

lemma ent_flags_unused: "ent_flags r AND entUsed = 0"
proof -
  have "(s_Status r AND 15) AND 128 = 0" by (simp add: and.assoc)
  then show ?thesis by (simp add: ent_flags_def ent_defs Let_def bit.conj_disj_distrib2)
qed

lemma loadNewShard_figures:
  assumes "ReadHeader fs path = Inr h" and "Scan E fs path collect [] = (news, None)" and aok: "arena_ok news"
  shows "\<exists>ents arena. loadNewShard E fs path res =
      Inr (ents, arena, h, False, res\<lparr>res_NewDups := res_NewDups res + (of_nat (length news) - of_nat (length ents))\<rparr>) \<and>
     map (view arena) ents = new_table news \<and> used_ips ents = {}"
proof -
  obtain ents0 arena where l: "fold_err load_fn news ([], []) = ((ents0, arena), None)" "map (view arena) ents0 = map rec_view news"
    using load_fold [of "[]" news "[]"] aok unfolding arena_ok_def by (metis append_Nil append_Nil2 list.size(3) plus_nat.add_0)
  have "length ents0 = length news" using l(2) by (metis length_map)
  moreover obtain ents d where d: "dedup_loop e_ip [] (sort_key e_ip ents0) (res_NewDups res) = (ents, d)"
     "d + of_nat (length ents) = res_NewDups res + of_nat (length ents0)"
    using dedup_loop_correct [of e_ip "[]" "sort_key e_ip ents0" "res_NewDups res"] by auto
  ultimately have "d = res_NewDups res + (of_nat (length news) - of_nat (length ents))" by (simp add: algebra_simps)
  moreover have "Scan E fs path load_fn ([], []) = ((ents0, arena), None)"
    using assms(2) l(1) by (simp add: Scan_fold [of E fs path load_fn] Scan_collect)
  ultimately have "loadNewShard E fs path res =
      Inr (ents, arena, h, False, res\<lparr>res_NewDups := res_NewDups res + (of_nat (length news) - of_nat (length ents))\<rparr>)"
    using assms(1) d(1) by (simp add: loadNewShard_def)
  moreover have "map (view arena) ents = new_table news"
    using l(1) d(1) dedup_loop_fst [of e_ip "[]" "sort_key e_ip ents0" "res_NewDups res" 0] by (simp add: new_table_def)
  moreover have "used_ips ents = {}"
  proof -
    have "e_sf x AND entUsed = 0" if x: "x \<in> set ents" for x
    proof -
      have "x \<in> set ents0" using x dedup_loop_set [of e_ip "[]" "sort_key e_ip ents0" "res_NewDups res"] d(1) by auto
      then show ?thesis using load_fold_flags [OF l(1)] ent_flags_unused by fastforce
    qed
    then show ?thesis by (simp add: used_ips_def)
  qed
  ultimately show ?thesis by blast
qed

lemma count_unused_eq: "count_unused ents n = n + of_nat (length (filter (\<lambda>e. e_sf e AND entUsed = 0) ents))"
  unfolding count_unused_def by (induction ents arbitrary: n) auto

lemma unused_card:
  assumes "distinct (map e_ip ents)"
  shows "length (filter (\<lambda>e. e_sf e AND entUsed = 0) ents) = card (e_ip ` set ents - used_ips ents)"
proof -
  have inj: "inj_on e_ip (set ents)" using assms by (simp add: distinct_map)
  have "e_ip ` set ents - used_ips ents = e_ip ` {e \<in> set ents. e_sf e AND entUsed = 0}"
  proof -
    have d: "set ents - {e \<in> set ents. e_sf e AND entUsed \<noteq> 0} = {e \<in> set ents. e_sf e AND entUsed = 0}" by blast
    show ?thesis
      unfolding used_ips_def d [symmetric] by (rule inj_on_image_set_diff [OF inj, symmetric]) blast+
  qed
  moreover have "card (e_ip ` {e \<in> set ents. e_sf e AND entUsed = 0}) = card {e \<in> set ents. e_sf e AND entUsed = 0}"
    by (rule card_image) (rule inj_on_subset [OF inj], blast)
  moreover have "length (filter (\<lambda>e. e_sf e AND entUsed = 0) ents) = card {e \<in> set ents. e_sf e AND entUsed = 0}"
    using distinct_card [OF distinct_filter, of ents "\<lambda>e. e_sf e AND entUsed = 0"] assms by (simp add: distinct_map)
  ultimately show ?thesis by simp
qed

lemma view_effect_eq:
  assumes "arena_ok news" and "list_all rec_ok news"
  shows "view_effect E msk (new_table news) = effect E msk news"
proof
  fix r :: Rec
  have f: "find (\<lambda>v. fst v = s_IP r) (new_table news) = map_option rec_view (find (\<lambda>n. s_IP n = s_IP r) news)"
    by (rule new_pass.build_first [OF assms(1)])
  show "view_effect E msk (new_table news) r = effect E msk news r"
  proof (cases "find (\<lambda>n. s_IP n = s_IP r) news")
    case (Some n)
    then have ok: "rec_ok n" using assms(2) by (auto simp: find_Some_iff list_all_iff)
    then have st: "ent_flags n AND entStatusMask = s_Status n"
      by (intro ent_flags_parts status_lt_16) (simp add: rec_ok_def)
    have "split_byte nameSep (go_join (s_PTR n) [nameSep]) = s_PTR n" if "s_Status n = CodeHasPTR"
      using ok that by (intro split_byte_join) (auto simp: rec_ok_def list_all_iff)
    then show ?thesis using Some f st by (auto simp: view_effect_def effect_def rec_view_def effect_of_def)
  qed (simp add: view_effect_def effect_def f)
qed

text \<open>The parts of the shard's line that the scan leaves alone.\<close>

definition sr_frame :: "mstate \<Rightarrow> nat \<times> string \<times> u64 \<times> bool" where
  "sr_frame ms = (sr_Shard (ms_sr ms), sr_OutFile (ms_sr ms), sr_NewTotal (ms_sr ms), sr_Truncated (ms_sr ms))"

lemma put_frame: "put_merged E rec c ms = (ms', e) \<Longrightarrow> sr_frame ms' = sr_frame ms"
  by (auto simp: put_merged_def sr_frame_def Let_def split: if_splits)

lemma bump_res_frame: "sr_frame (bump_res f ms) = sr_frame ms"
  by (simp add: bump_res_def sr_frame_def)

lemma merge_found_frame: "merge_found E arena r e ms = (ms', x) \<Longrightarrow> sr_frame ms' = sr_frame ms"
  unfolding merge_found_def writeOld_def Let_def
  by (cases "e_sf e AND entStatusMask = CodeHasPTR"; cases "s_Status r = CodeHasPTR";
      cases "e_sf e AND entStatusMask = CodeNXDomain \<or> e_sf e AND entStatusMask = CodeNoErrorEmpty")
    (auto dest!: put_frame simp: bump_res_frame)

lemma old_fn_frame: "old_fn E msk arena r ms = (ms', e) \<Longrightarrow> sr_frame ms' = sr_frame ms"
  unfolding old_fn_def writeOld_def Let_def
  by (auto dest!: put_frame merge_found_frame simp: sr_frame_def bump_res_def split: if_splits option.splits)

lemma old_fold_frame: "fold_err (old_fn E msk arena) olds ms = (ms', e) \<Longrightarrow> sr_frame ms' = sr_frame ms"
  by (induction olds arbitrary: ms) (auto dest!: old_fn_frame split: prod.splits option.splits)

text \<open>The scan of a whole baseline against a freshly loaded table.\<close>

lemma old_scan_figures:
  assumes aok: "arena_ok news" and oks: "list_all rec_ok news"
    and inv: "table_inv arena (new_table news) ms0" "{ip. seen_test ip (ms_seen ms0)} = {}" "used_ips (ms_ents ms0) = {}"
    and sts: "list_all (\<lambda>r. unat (s_Status r) < NumStatusCodes) olds"
    and run: "fold_err (old_fn E msk arena) olds ms0 = (ms, None)"
  defines "F \<equiv> first_recs {} olds"
  shows "ms_res ms = add_figures (effect_count (effect E msk news) F) (of_nat (length olds) - of_nat (length F)) (ms_res ms0)"
    and "length (filter (\<lambda>e. e_sf e AND entUsed = 0) (ms_ents ms)) =
      card (s_IP ` set news - s_IP ` {r \<in> set F. mask_Has msk (s_Status r)})"
proof -
  note fig = old_fn_fold_figures [OF inv(1) sts run, unfolded inv(2), folded F_def]
  show "ms_res ms = add_figures (effect_count (effect E msk news) F) (of_nat (length olds) - of_nat (length F)) (ms_res ms0)"
    using fig unfolding view_effect_eq [OF aok oks] by blast
  have keysT: "fst ` set (new_table news) = s_IP ` set news" using new_pass.keys_build [OF aok] by simp
  have ips: "map e_ip (ms_ents ms) = map fst (new_table news)" using fig by blast
  then have "e_ip ` set (ms_ents ms) = s_IP ` set news" using keysT by (metis list.set_map)
  moreover have "used_ips (ms_ents ms) = s_IP ` {r \<in> set F. mask_Has msk (s_Status r)} \<inter> s_IP ` set news"
    using fig inv(3) keysT by simp
  ultimately show "length (filter (\<lambda>e. e_sf e AND entUsed = 0) (ms_ents ms)) =
      card (s_IP ` set news - s_IP ` {r \<in> set F. mask_Has msk (s_Status r)})"
    using unused_card [of "ms_ents ms"] ips new_pass.distinct_keys [OF aok] by (simp add: Diff_Int)
qed

section \<open>The figures of a merged shard\<close>

lemma merge_figures_spec:
  fixes now :: u64
  assumes hdrs: "ReadHeader fs oldPath = Inr oh" "ReadHeader fs newPath = Inr nh"
    and ids: "h_Shards nh = h_Shards oh" "h_ShardID nh = h_ShardID oh"
    and scans: "Scan E fs oldPath collect [] = (olds, None)" "Scan E fs newPath collect [] = (news, None)"
    and oks: "list_all rec_ok olds" "list_all rec_ok news" "sum_list (map names_size news) \<le> 4294967295"
    and paths: "newPath \<noteq> []" "merge_out_path opts oh \<noteq> oldPath"
      "is_dir fs (path_dir (merge_out_path opts oh))" "\<not> is_dir fs (merge_out_path opts oh)"
  defines "F \<equiv> first_recs {} olds"
  shows "\<exists>fs' counts'. mergeShard E now fs oldPath newPath opts res counts = (fs', Inr
     (\<lparr>sr_Shard = unat (h_ShardID oh), sr_OutFile = merge_out_path opts oh, sr_OldTotal = of_nat (length F),
        sr_NewTotal = of_nat (card (s_IP ` set news)), sr_Merged = of_nat (length F), sr_Truncated = False\<rparr>,
      (add_figures (effect_count (effect E (o_Mask opts) news) F) (of_nat (length olds) - of_nat (length F)) res)\<lparr>
        res_Created := (if res_Created res <s unix_time (h_Created nh) then unix_time (h_Created nh) else res_Created res),
        res_NewDups := res_NewDups res + (of_nat (length news) - of_nat (card (s_IP ` set news))),
        res_UnexpectedNew := res_UnexpectedNew res +
          of_nat (card (s_IP ` set news - s_IP ` {r \<in> set F. mask_Has (o_Mask opts) (s_Status r)}))\<rparr>,
      counts'))"
proof -
  define msk where "msk = o_Mask opts"
  define out where "out = merge_out_path opts oh"
  have aok: "arena_ok news"
    using oks(2,3) by (auto simp: arena_ok_def list_all_iff rec_ok_def NumStatusCodes_def)
  obtain ents arena where ld: "loadNewShard E fs newPath res =
      Inr (ents, arena, nh, False, res\<lparr>res_NewDups := res_NewDups res + (of_nat (length news) - of_nat (length ents))\<rparr>)"
    and tbl: "map (view arena) ents = new_table news" "used_ips ents = {}"
    using loadNewShard_figures [OF hdrs(2) scans(2) aok, of res] by auto
  have lenE: "length ents = card (s_IP ` set news)" using tbl(1) new_pass.length_build [OF aok] by (metis length_map)
  define res1 where "res1 = res\<lparr>res_NewDups := res_NewDups res + (of_nat (length news) - of_nat (length ents))\<rparr>"
  define w0 where "w0 = newWriter (replicate headerSize 0) out (h_Shards oh) (h_ShardID oh) now"
  define fs1 where "fs1 = fs_write (fs_write fs out []) out (replicate headerSize 0)"
  define ms0 where "ms0 = merge_init opts oh newPath ents nh False res1 counts w0"
  have nw: "NewWriter fs out (h_Shards oh) (h_ShardID oh) now = Inr (fs1, w0)"
    using NewWriter_ok paths(3,4) by (simp add: out_def fs1_def w0_def)
  have seen0: "{ip. seen_test ip (ms_seen ms0)} = {}" by (simp add: ms0_def merge_init_def seen.mem_empty)
  have inv: "table_inv arena (new_table news) ms0"
    using tbl(1) by (intro new_table_inv aok oks(2)) (simp add: ms0_def merge_init_def)
  have sts: "list_all (\<lambda>r. unat (s_Status r) < NumStatusCodes) olds"
    using oks(1) by (auto simp: list_all_iff rec_ok_def)
  obtain ms where ms: "fold_err (old_fn E msk arena) olds ms0 = (ms, None)"
    "sr_Merged (ms_sr ms) = sr_Merged (ms_sr ms0) + of_nat (length F)"
    "sr_OldTotal (ms_sr ms) = sr_OldTotal (ms_sr ms0) + of_nat (length F)"
    using old_fn_fold [OF inv sts, of E msk] unfolding seen0 F_def by blast
  have used0: "used_ips (ms_ents ms0) = {}" using tbl(2) by (simp add: ms0_def merge_init_def)
  note fig = old_scan_figures [OF aok oks(2) inv seen0 used0 sts ms(1), folded F_def]
  have "Scan E fs1 oldPath (old_fn E msk arena) ms0 = Scan E fs oldPath (old_fn E msk arena) ms0"
    using paths(2) by (intro Scan_fs_cong) (simp add: fs1_def fs_read_write out_def)
  then have scan: "Scan E fs1 oldPath (old_fn E msk arena) ms0 = (ms, None)"
    using scans(1) ms(1) by (simp add: Scan_fold [of E fs oldPath "old_fn E msk arena"] Scan_collect)
  have sr: "ms_sr ms = \<lparr>sr_Shard = unat (h_ShardID oh), sr_OutFile = out, sr_OldTotal = of_nat (length F),
        sr_NewTotal = of_nat (card (s_IP ` set news)), sr_Merged = of_nat (length F), sr_Truncated = False\<rparr>"
    using ms(2,3) old_fold_frame [OF ms(1)]
    by (simp add: sr_frame_def ms0_def merge_init_def lenE out_def)
  have res0: "ms_res ms0 = res1\<lparr>res_Created := (if res_Created res <s unix_time (h_Created nh) then unix_time (h_Created nh) else res_Created res)\<rparr>"
    using paths(1) by (simp add: ms0_def merge_init_def res1_def)
  show ?thesis
    using hdrs(1) ids paths(1) ld nw scan
    by (simp add: mergeShard_def out_def [symmetric] msk_def [symmetric] res1_def [symmetric] ms0_def [symmetric] merge_finish_def
        count_unused_eq fig sr res0) (simp add: res1_def add_figures_def lenE)
qed

text \<open>
  C12. The figures of a merge are exact. For a complete baseline shard and a complete re-crawl shard
  of the same identity, the counters that \<open>mergeShard\<close> hands on grow by exactly the number of
  baseline addresses with that outcome (gained, removed, changed, unchanged, kept through a
  transient failure, not observed), by the repeated records of either side, and by the new
  addresses that are no target; the shard's own line counts the addresses of both sides.
\<close>
theorem merge_figures_exact:
  fixes now :: u64
  assumes hdrs: "ReadHeader fs oldPath = Inr oh" "ReadHeader fs newPath = Inr nh"
    and ids: "h_Shards nh = h_Shards oh" "h_ShardID nh = h_ShardID oh"
    and scans: "Scan E fs oldPath collect [] = (olds, None)" "Scan E fs newPath collect [] = (news, None)"
    and oks: "list_all rec_ok olds" "list_all rec_ok news" "sum_list (map names_size news) \<le> 4294967295"
    and paths: "newPath \<noteq> []" "merge_out_path opts oh \<noteq> oldPath"
      "is_dir fs (path_dir (merge_out_path opts oh))" "\<not> is_dir fs (merge_out_path opts oh)"
  defines "F \<equiv> first_recs {} olds"
  shows "\<exists>fs' counts'. mergeShard E now fs oldPath newPath opts res counts = (fs', Inr
     (\<lparr>sr_Shard = unat (h_ShardID oh), sr_OutFile = merge_out_path opts oh, sr_OldTotal = of_nat (length F),
        sr_NewTotal = of_nat (card (s_IP ` set news)), sr_Merged = of_nat (length F), sr_Truncated = False\<rparr>,
      (add_figures (effect_count (effect E (o_Mask opts) news) F) (of_nat (length olds) - of_nat (length F)) res)\<lparr>
        res_Created := (if res_Created res <s unix_time (h_Created nh) then unix_time (h_Created nh) else res_Created res),
        res_NewDups := res_NewDups res + (of_nat (length news) - of_nat (card (s_IP ` set news))),
        res_UnexpectedNew := res_UnexpectedNew res +
          of_nat (card (s_IP ` set news - s_IP ` {r \<in> set F. mask_Has (o_Mask opts) (s_Status r)}))\<rparr>,
      counts'))"
  unfolding F_def by (rule merge_figures_spec [OF assms(1-13)])

section \<open>Witnesses\<close>

lemma effect_example: "effect E 1 [stored timeout_example] (stored rec_example) = Eff_Grace"
  by (simp add: effect_def effect_of_def stored_examples mask_Has_def definitive_def code_defs)

theorem merge_figures_exact_witness:
  "\<exists>fs' sr res' counts'. mergeShard test_env 7 fs_pair ''o/s.rdnsz'' ''n/s.rdnsz'' opts_example zero_result (replicate 8 0) =
       (fs', Inr (sr, res', counts')) \<and>
     res_GraceKept res' = 1 \<and> res_Gained res' = 0 \<and> res_MissingKept res' = 0 \<and> res_NewDups res' = 0 \<and>
     res_UnexpectedNew res' = 0 \<and> sr_OldTotal sr = 1 \<and> sr_NewTotal sr = 1"
proof -
  obtain oh nh where h: "ReadHeader fs_pair ''o/s.rdnsz'' = Inr oh" "ReadHeader fs_pair ''n/s.rdnsz'' = Inr nh"
    "h_Shards oh = 4" "h_Shards nh = 4" "h_ShardID oh = 1" "h_ShardID nh = 1"
    using fs_pair_headers by blast
  have out: "merge_out_path opts_example oh = ''m/shard-1.rdnsz''"
    using out_example [OF h(5)] by (simp only: show_nat_1) simp
  have "sum_list (map names_size [stored timeout_example]) \<le> 4294967295"
    by (simp add: names_size_def stored_examples CodeHasPTR_def)
  moreover have "is_dir fs_pair (path_dir ''m/shard-1.rdnsz'')" "\<not> is_dir fs_pair ''m/shard-1.rdnsz''"
    by (simp_all add: fs_pair_def shard_file_other is_dir_def dirs_example_def path_dir_def)
  moreover have "first_recs {} [stored rec_example] = [stored rec_example]" by simp
  moreover have "s_IP (stored timeout_example) = s_IP (stored rec_example)" "mask_Has 1 (s_Status (stored rec_example))"
    by (simp_all add: stored_examples mask_Has_def)
  ultimately show ?thesis
    using merge_figures_exact [OF h(1,2) _ _ fs_pair_scans, where opts = opts_example and now = 7 and res = zero_result and counts = "replicate 8 0"] h(3-6) out
    by (auto simp: opts_example_def effect_example add_figures_def effect_count_def zero_result_def)
qed

end
