(* ===== verification/Merge_Compare.thy ===== *)
theory Merge_Compare
  imports Compare Merge_Figures
begin

unbundle bit_operations_syntax

text \<open>
  The two offline tools side by side: for passes without repeated addresses the figures that
  \<^verbatim>\<open>merge.go\<close> reports are those that \<^verbatim>\<open>compare.go\<close> counts in its transition matrix and its
  counters, although the two walk the passes in opposite directions (merge streams the baseline
  against a table of the new pass, compare the new pass against a table of the baseline).
\<close>

section \<open>Counters kept while joining\<close>

text \<open>Whether an entry still waits for a record of the new pass for which \<open>P\<close> holds.\<close>

definition waits :: "(oldEnt \<Rightarrow> Rec \<Rightarrow> bool) \<Rightarrow> Rec list \<Rightarrow> oldEnt \<Rightarrow> u64" where
  "waits P news e =
     (if unseen e then (case find (\<lambda>r. s_IP r = oe_ip e) news of None \<Rightarrow> 0 | Some n \<Rightarrow> if P e n then 1 else 0) else 0)"

definition counts_matches :: "env \<Rightarrow> (compare_Result \<Rightarrow> u64) \<Rightarrow> (oldEnt \<Rightarrow> Rec \<Rightarrow> bool) \<Rightarrow> bool" where
  "counts_matches E sel P \<longleftrightarrow>
     (\<forall>e x r. P (e\<lparr>oe_flags := x\<rparr>) r = P e r) \<and>
     (\<forall>r js js'. join_fn E r js = (js', None) \<longrightarrow> sel (j_res js') = sel (j_res js) +
        (case lookup_ip oe_ip (j_ents js) (s_IP r) of None \<Rightarrow> 0
         | Some i \<Rightarrow> if unseen (j_ents js ! i) \<and> P (j_ents js ! i) r then 1 else 0))"

lemma waits_other: "unseen e \<longrightarrow> oe_ip e \<noteq> s_IP r \<Longrightarrow> waits P (r # news) e = waits P news e"
  by (auto simp: waits_def)

lemma join_fn_ents:
  assumes "join_fn E r js = (js', None)"
  shows "j_ents js' = (case lookup_ip oe_ip (j_ents js) (s_IP r) of
       None \<Rightarrow> j_ents js
     | Some i \<Rightarrow> if unseen (j_ents js ! i)
                then (j_ents js)[i := (j_ents js ! i)\<lparr>oe_flags := oe_flags (j_ents js ! i) OR fSeen\<rparr>] else j_ents js)"
  using assms by (auto simp: join_fn_def Let_def split: option.splits if_splits)

lemma join_fn_counter:
  assumes cm: "counts_matches E sel P" and srt: "sorted_wrt (<) (map oe_ip (j_ents js))"
    and run: "join_fn E r js = (js', None)"
  shows "sel (j_res js) + sum_list (map (waits P (r # news)) (j_ents js)) =
     sel (j_res js') + sum_list (map (waits P news) (j_ents js')) \<and> map oe_ip (j_ents js') = map oe_ip (j_ents js)"
proof (cases "lookup_ip oe_ip (j_ents js) (s_IP r)")
  case None
  then have "s_IP r \<notin> oe_ip ` set (j_ents js)" using lookup_ip_None [OF srt] by blast
  then have "oe_ip e \<noteq> s_IP r" if "e \<in> set (j_ents js)" for e using that by (metis image_eqI)
  then have "sum_list (map (waits P (r # news)) (j_ents js)) = sum_list (map (waits P news) (j_ents js))"
    by (intro arg_cong [of _ _ sum_list] map_cong refl waits_other) blast
  then show ?thesis using None cm run join_fn_ents [OF run] by (auto simp: counts_matches_def)
next
  case (Some i)
  define e where "e = j_ents js ! i"
  have i: "i < length (j_ents js)" "oe_ip e = s_IP r" using lookup_ip_Some [OF srt] Some by (auto simp: e_def)
  have other: "oe_ip (j_ents js ! j) \<noteq> s_IP r" if "j < length (j_ents js)" "j \<noteq> i" for j
    using sorted_wrt_nth_less [OF srt, of j i] sorted_wrt_nth_less [OF srt, of i j] that i by (cases "j < i") (auto simp: e_def)
  show ?thesis
  proof (cases "unseen e")
    case False
    have "waits P (r # news) x = waits P news x" if "x \<in> set (j_ents js)" for x
      using that other False by (intro waits_other) (auto simp: in_set_conv_nth e_def)
    then have "sum_list (map (waits P (r # news)) (j_ents js)) = sum_list (map (waits P news) (j_ents js))"
      by (intro arg_cong [of _ _ sum_list] map_cong refl)
    then show ?thesis using Some False cm run join_fn_ents [OF run] by (auto simp: counts_matches_def e_def)
  next
    case True
    define e' where "e' = e\<lparr>oe_flags := oe_flags e OR fSeen\<rparr>"
    have ents': "j_ents js' = (j_ents js)[i := e']" using join_fn_ents [OF run] Some True by (simp add: e_def e'_def)
    have seen': "\<not> unseen e'" by (simp add: e'_def)
    have "sum_list (map (waits P (r # news)) (j_ents js)) =
        waits P (r # news) e - waits P news e' + sum_list (map (waits P news) ((j_ents js)[i := e']))"
      unfolding e_def by (intro sum_list_update_map i(1) waits_other) (use other in blast)
    moreover have "waits P news e' = 0" using seen' by (simp add: waits_def)
    moreover have "waits P (r # news) e = (if P e r then 1 else 0)" using i(2) True by (simp add: waits_def)
    moreover have "sel (j_res js') = sel (j_res js) + (if P e r then 1 else 0)"
      using cm run Some True unfolding counts_matches_def by (auto simp: e_def)
    moreover have "map oe_ip (j_ents js') = map oe_ip (j_ents js)"
      unfolding ents' using i(1) by (simp add: map_update e'_def e_def list_update_same_conv)
    ultimately show ?thesis by (simp add: ents')
  qed
qed

lemma join_fold_counter:
  assumes "counts_matches E sel P" and "sorted_wrt (<) (map oe_ip (j_ents js))"
    and "fold_err (join_fn E) news js = (js', None)"
  shows "sel (j_res js') = sel (j_res js) + sum_list (map (waits P news) (j_ents js))"
  using assms(2,3)
proof (induction news arbitrary: js)
  case Nil
  have "waits P [] = (\<lambda>e. 0)" by (simp add: waits_def fun_eq_iff)
  then show ?case using Nil by simp
next
  case (Cons r news)
  obtain js1 where s: "join_fn E r js = (js1, None)" "fold_err (join_fn E) news js1 = (js', None)"
    using Cons.prems(2) by (auto split: prod.splits option.splits)
  show ?case
    using join_fn_counter [OF assms(1) Cons.prems(1) s(1), of news] Cons.IH [OF _ s(2)] Cons.prems(1) by simp
qed

lemma join_fold_unexpected:
  assumes "sorted_wrt (<) (map oe_ip (j_ents js))" and "fold_err (join_fn E) news js = (js', None)"
  shows "cr_UnexpectedNew (j_res js') = cr_UnexpectedNew (j_res js) +
     of_nat (length (filter (\<lambda>r. s_IP r \<notin> oe_ip ` set (j_ents js)) news))"
  using assms
proof (induction news arbitrary: js)
  case (Cons r news)
  obtain js1 where s: "join_fn E r js = (js1, None)" "fold_err (join_fn E) news js1 = (js', None)"
    using Cons.prems(2) by (auto split: prod.splits option.splits)
  have cm: "counts_matches E (\<lambda>_. 0) (\<lambda>_ _. False)" by (simp add: counts_matches_def split: option.split)
  have ips: "map oe_ip (j_ents js1) = map oe_ip (j_ents js)"
    using join_fn_counter [OF cm Cons.prems(1) s(1)] by blast
  then have set: "oe_ip ` set (j_ents js1) = oe_ip ` set (j_ents js)" by (metis list.set_map)
  have "cr_UnexpectedNew (j_res js1) = cr_UnexpectedNew (j_res js) + (if s_IP r \<notin> oe_ip ` set (j_ents js) then 1 else 0)"
    using s(1) lookup_ip_None [OF Cons.prems(1), of "s_IP r"]
    by (auto simp: join_fn_def join_stats_def Let_def split: option.splits if_splits)
  then show ?case using Cons.IH [OF _ s(2)] Cons.prems(1) ips set by simp
qed simp

lemma counts_gained:
  "counts_matches E (\<lambda>res. g_Total (cr_Gained res)) (\<lambda>e n. oe_status e \<noteq> CodeHasPTR \<and> s_Status n = CodeHasPTR)"
  unfolding counts_matches_def
  by (auto simp: join_fn_def join_stats_def join_gained_def Let_def split: option.splits if_splits)

lemma counts_unchanged:
  "counts_matches E cr_PTRUnchanged (\<lambda>e n. oe_status e = CodeHasPTR \<and> s_Status n = CodeHasPTR \<and>
     oe_hash e = compare_hashNames E (s_PTR n))"
  unfolding counts_matches_def
  by (auto simp: join_fn_def join_stats_def Let_def split: option.splits if_splits)

lemma counts_changed:
  "counts_matches E cr_PTRChanged (\<lambda>e n. oe_status e = CodeHasPTR \<and> s_Status n = CodeHasPTR \<and>
     oe_hash e \<noteq> compare_hashNames E (s_PTR n))"
  unfolding counts_matches_def
  by (auto simp: join_fn_def join_stats_def Let_def split: option.splits if_splits)

section \<open>A comparison without repeated addresses\<close>

lemma hash_twins: "compare_hashNames = hashNames"
  by (simp add: fun_eq_iff compare_hashNames_def hashNames_def)

lemma sum_by_class:
  assumes "finite S"
  shows "(\<Sum>k\<in>S. of_nat (length (filter (\<lambda>x. Q x \<and> f x = k) xs)) :: u64) = of_nat (length (filter (\<lambda>x. Q x \<and> f x \<in> S) xs))"
proof (induction xs)
  case (Cons x xs)
  have "of_nat (length (filter (\<lambda>y. Q y \<and> f y = k) (x # xs))) =
      of_nat (length (filter (\<lambda>y. Q y \<and> f y = k) xs)) + (if f x = k then (if Q x then 1 else 0) else (0 :: u64))" for k
    by simp
  then have "(\<Sum>k\<in>S. of_nat (length (filter (\<lambda>y. Q y \<and> f y = k) (x # xs))) :: u64) =
      (\<Sum>k\<in>S. of_nat (length (filter (\<lambda>y. Q y \<and> f y = k) xs))) + (\<Sum>k\<in>S. if f x = k then (if Q x then 1 else 0) else 0)"
    by (simp only: sum.distrib)
  also have "(\<Sum>k\<in>S. if f x = k then (if Q x then 1 else 0) else (0 :: u64)) = (if Q x \<and> f x \<in> S then 1 else 0)"
    using sum.delta' [OF assms, of "f x" "\<lambda>_. if Q x then 1 else (0 :: u64)"] by simp
  finally show ?case using Cons by simp
qed simp

text \<open>A table of distinct targets is a rearrangement of their entries.\<close>

lemma table_mset:
  assumes d: "distinct (map s_IP rs)" and sub: "set ts \<subseteq> set rs" "distinct ts"
    and T: "distinct (map oe_ip T)" "oe_ip ` set T = s_IP ` set ts" "\<forall>e\<in>set T. \<exists>r\<in>set rs. e = old_ent E r"
  shows "mset T = mset (map (old_ent E) ts)"
proof -
  have ip: "oe_ip (old_ent E r) = s_IP r" for r by (simp add: old_ent_def Let_def)
  have inj: "r = r'" if "r \<in> set rs" "r' \<in> set rs" "s_IP r = s_IP r'" for r r'
    using that d by (simp add: distinct_map inj_on_def)
  have "set T = old_ent E ` set ts"
  proof
    show "set T \<subseteq> old_ent E ` set ts"
    proof
      fix e assume e: "e \<in> set T"
      then obtain r where r: "r \<in> set rs" "e = old_ent E r" using T(3) by blast
      moreover obtain r' where r': "r' \<in> set ts" "s_IP r' = oe_ip e" using e T(2) by (metis imageE image_eqI)
      ultimately have "r' = r" using inj [of r' r] sub(1) ip [of r] by auto
      then show "e \<in> old_ent E ` set ts" using r r' by blast
    qed
    show "old_ent E ` set ts \<subseteq> set T"
    proof
      fix e assume "e \<in> old_ent E ` set ts"
      then obtain r where r: "r \<in> set ts" "e = old_ent E r" by blast
      then obtain e' where e': "e' \<in> set T" "oe_ip e' = s_IP r" using T(2) by (metis imageE image_eqI)
      then obtain r' where "r' \<in> set rs" "e' = old_ent E r'" using T(3) by blast
      then show "e \<in> set T" using e' r inj [of r' r] sub(1) ip by auto
    qed
  qed
  moreover have "distinct T" using T(1) by (simp add: distinct_map)
  moreover have "inj_on (old_ent E) (set ts)"
  proof (rule inj_onI)
    fix x y assume "x \<in> set ts" "y \<in> set ts" "old_ent E x = old_ent E y"
    then show "x = y" using inj [of x y] sub(1) ip [of x] ip [of y] by auto
  qed
  then have "distinct (map (old_ent E) ts)" using sub(2) by (simp add: distinct_map)
  ultimately show ?thesis by (intro iffD1 [OF set_eq_iff_mset_eq_distinct]) simp_all
qed

lemma old_table_mset:
  assumes srt: "sorts_keys (env_sort_func E)" and d: "distinct (map s_IP ts)"
  shows "mset (old_table E ts) = mset (map (old_ent E) ts)"
proof -
  have "\<forall>e\<in>set (old_table E ts). \<exists>r\<in>set ts. e = old_ent E r" using old_pass.build_sound [OF srt] by blast
  then show ?thesis
    using d by (intro table_mset [OF d _ _ old_pass.distinct_keys [OF srt] old_pass.keys_build [OF srt]]) (simp_all add: distinct_map)
qed

lemma length_filter_mset: "mset xs = mset ys \<Longrightarrow> length (filter P xs) = length (filter P ys)"
  by (metis mset_filter size_mset)

lemma waits_old_ent:
  "sum_list (map (waits P news) (old_table E ts)) = of_nat (length (filter
     (\<lambda>r. \<exists>n. find (\<lambda>n. s_IP n = s_IP r) news = Some n \<and> P (old_ent E r) n) ts))"
  if "sorts_keys (env_sort_func E)" "distinct (map s_IP ts)"
proof -
  have ip: "oe_ip (old_ent E r) = s_IP r" for r by (simp add: old_ent_def Let_def)
  have "sum_list (map (waits P news) (old_table E ts)) = sum_list (map (waits P news) (map (old_ent E) ts))"
    using old_table_mset [OF that] by (metis mset_map sum_mset_sum_list)
  also have "\<dots> = sum_list (map (\<lambda>r. if \<exists>n. find (\<lambda>n. s_IP n = s_IP r) news = Some n \<and> P (old_ent E r) n then 1 else 0) ts)"
    unfolding map_map
    by (intro arg_cong [of _ _ sum_list] map_cong refl)
      (auto simp: waits_def unseen_old_ent ip split: option.split)
  finally show ?thesis by (simp only: sum_list_indicator)
qed

lemma compare_shard_joined:
  assumes run: "compare_shard E fs msk sid oldPath newPath mt res tlds = Inr (mt', res', tlds')"
    and old: "Scan E fs oldPath collect [] = (olds, None)" and new: "Scan E fs newPath collect [] = (news, None)"
  defines "T \<equiv> old_table E (filter (\<lambda>r. mask_Has msk (s_Status r)) olds)"
  shows "\<exists>js res1. fold_err (join_fn E) news \<lparr>j_ents = T, j_matrix = mt, j_res = res1, j_tlds = tlds\<rparr> = (js, None) \<and>
     res' = j_res js \<and> cr_Gained res1 = cr_Gained res \<and> cr_PTRUnchanged res1 = cr_PTRUnchanged res \<and>
     cr_PTRChanged res1 = cr_PTRChanged res \<and> cr_UnexpectedNew res1 = cr_UnexpectedNew res"
proof -
  define ts where "ts = filter (\<lambda>r. mask_Has msk (s_Status r)) olds"
  have ents: "loadOldTargets E fs oldPath msk [] = (map (old_ent E) ts, None)"
    using old [unfolded Scan_collect] by (simp add: loadOldTargets_def Scan_fold load_old_fold ts_def)
  obtain dups where dd: "dedupSorted (sort_with (env_sort_func E) oe_ip (map (old_ent E) ts)) = (T, dups)"
    by (metis T_def ts_def old_table_def prod.collapse)
  define res1 where "res1 = res\<lparr>cr_ComparedShards := cr_ComparedShards res @ [sid], cr_OldDupTargets := cr_OldDupTargets res + dups,
      cr_Targets := fold (\<lambda>e. ubump (StatusString (oe_status e))) T (cr_Targets res)\<rparr>"
  obtain js tr where j: "joinNewPass E fs newPath \<lparr>j_ents = T, j_matrix = mt, j_res = res1, j_tlds = tlds\<rparr> = (js, tr, None)"
    and r: "res' = (if tr then (j_res js)\<lparr>cr_TruncatedNewShards := cr_TruncatedNewShards (j_res js) @ [sid]\<rparr> else j_res js)"
    using run ents dd by (auto simp: compare_shard_def Let_def res1_def split: option.splits prod.splits)
  have "fold_err (join_fn E) news \<lparr>j_ents = T, j_matrix = mt, j_res = res1, j_tlds = tlds\<rparr> = (js, None) \<and> \<not> tr"
    using j new [unfolded Scan_collect] join_no_trunc by (auto simp: joinNewPass_def Scan_fold split: prod.splits option.splits if_splits)
  then show ?thesis using r by (intro exI [of _ js] exI [of _ res1]) (simp add: res1_def)
qed

text \<open>How many targets of a pass satisfy a condition, and the column a target is counted under.\<close>

definition targets_with :: "status_mask \<Rightarrow> Rec list \<Rightarrow> (Rec \<Rightarrow> bool) \<Rightarrow> u64" where
  "targets_with msk olds P = of_nat (length (filter (\<lambda>r. mask_Has msk (s_Status r) \<and> P r) olds))"

definition new_col :: "Rec list \<Rightarrow> Rec \<Rightarrow> nat" where
  "new_col news r = (case find (\<lambda>n. s_IP n = s_IP r) news of None \<Rightarrow> missingCol | Some n \<Rightarrow> unat (s_Status n))"

text \<open>Targets that had no name and have one now, and targets with a name before and after.\<close>

definition gained :: "Rec list \<Rightarrow> Rec \<Rightarrow> bool" where
  "gained news r \<longleftrightarrow> s_Status r \<noteq> CodeHasPTR \<and> (\<exists>n. find (\<lambda>n. s_IP n = s_IP r) news = Some n \<and> s_Status n = CodeHasPTR)"

definition kept_name :: "env \<Rightarrow> bool \<Rightarrow> Rec list \<Rightarrow> Rec \<Rightarrow> bool" where
  "kept_name E same news r \<longleftrightarrow> s_Status r = CodeHasPTR \<and> (\<exists>n. find (\<lambda>n. s_IP n = s_IP r) news = Some n \<and>
     s_Status n = CodeHasPTR \<and> (hashNames E (s_PTR r) = hashNames E (s_PTR n)) = same)"

text \<open>The figures of a comparison of two complete passes without repeated addresses.\<close>

lemma compare_shard_figures:
  assumes srt: "sorts_keys (env_sort_func E)" and msk: "msk < 256"
    and old: "Scan E fs oldPath collect [] = (olds, None)" and new: "Scan E fs newPath collect [] = (news, None)"
    and st: "\<forall>r\<in>set news. unat (s_Status r) < 8" and d: "distinct (map s_IP olds)" and wf: "matrix_wf mt"
  shows "\<exists>mt' res' tlds'. compare_shard E fs msk sid oldPath newPath mt res tlds = Inr (mt', res', tlds') \<and>
     (\<forall>c<8. \<forall>k<9. cell mt' c k = cell mt c k + targets_with msk olds (\<lambda>r. unat (s_Status r) = c \<and> new_col news r = k)) \<and>
     g_Total (cr_Gained res') = g_Total (cr_Gained res) + targets_with msk olds (gained news) \<and>
     cr_PTRUnchanged res' = cr_PTRUnchanged res + targets_with msk olds (kept_name E True news) \<and>
     cr_PTRChanged res' = cr_PTRChanged res + targets_with msk olds (kept_name E False news) \<and>
     cr_UnexpectedNew res' = cr_UnexpectedNew res +
       of_nat (length (filter (\<lambda>n. s_IP n \<notin> s_IP ` {r \<in> set olds. mask_Has msk (s_Status r)}) news))"
proof -
  define ts where "ts = filter (\<lambda>r. mask_Has msk (s_Status r)) olds"
  have dts: "distinct (map s_IP ts)" "distinct ts" "set ts \<subseteq> set olds"
    using distinct_map_filter [OF d] d by (simp_all add: ts_def distinct_map)
  have old_ent: "oe_ip (old_ent E r) = s_IP r" "oe_status (old_ent E r) = s_Status r"
    "s_Status r = CodeHasPTR \<Longrightarrow> oe_hash (old_ent E r) = hashNames E (s_PTR r)" for r
    by (simp_all add: old_ent_def Let_def hash_twins)
  have st9: "\<forall>r\<in>set news. unat (s_Status r) \<le> 8" using st by (simp add: less_imp_le)
  obtain mt' res' tlds' T where run: "compare_shard E fs msk sid oldPath newPath mt res tlds = Inr (mt', res', tlds')"
    and T: "distinct (map oe_ip T)" "oe_ip ` set T = s_IP ` set ts" "\<forall>e\<in>set T. \<exists>r\<in>set olds. e = old_ent E r"
    and cells: "\<forall>c<8. \<forall>k<9. cell mt' c k = cell mt c k +
        of_nat (length (filter (\<lambda>e. unat (oe_status e) = c \<and> dest news e = k) T))"
    using compare_shard_exact [OF srt msk wf old new _ st9, of sid res tlds] by (auto simp: ts_def)
  have mT: "mset T = mset (map (old_ent E) ts)" by (rule table_mset [OF d dts(3,2) T])
  have cells': "cell mt' c k = cell mt c k + targets_with msk olds (\<lambda>r. unat (s_Status r) = c \<and> new_col news r = k)"
    if "c < 8" "k < 9" for c k
    using cells that unfolding length_filter_mset [OF mT]
    by (simp add: filter_map comp_def old_ent dest_def ts_def targets_with_def new_col_def conj_commute)
  obtain js res1 where j: "fold_err (join_fn E) news \<lparr>j_ents = old_table E ts, j_matrix = mt, j_res = res1, j_tlds = tlds\<rparr> = (js, None)"
    "res' = j_res js" "cr_Gained res1 = cr_Gained res" "cr_PTRUnchanged res1 = cr_PTRUnchanged res"
    "cr_PTRChanged res1 = cr_PTRChanged res" "cr_UnexpectedNew res1 = cr_UnexpectedNew res"
    using compare_shard_joined [OF run old new] unfolding ts_def by blast
  let ?js = "\<lparr>j_ents = old_table E ts, j_matrix = mt, j_res = res1, j_tlds = tlds\<rparr>"
  have srtT: "sorted_wrt (<) (map oe_ip (j_ents ?js))" using old_pass.sorted_build [OF srt] by simp
  note fold = join_fold_counter [OF _ srtT j(1), simplified, unfolded waits_old_ent [OF srt dts(1)]]
  have un: "cr_UnexpectedNew res' = cr_UnexpectedNew res +
       of_nat (length (filter (\<lambda>n. s_IP n \<notin> s_IP ` {r \<in> set olds. mask_Has msk (s_Status r)}) news))"
    using join_fold_unexpected [OF srtT j(1)] j(2,6) old_pass.keys_build [OF srt, of ts] by (simp add: ts_def)
  have conv: "of_nat (length (filter Q ts)) = targets_with msk olds Q" for Q
    by (simp add: ts_def targets_with_def conj_commute)
  have g: "(\<lambda>r. \<exists>n. find (\<lambda>n. s_IP n = s_IP r) news = Some n \<and> oe_status (old_ent E r) \<noteq> CodeHasPTR \<and> s_Status n = CodeHasPTR) = gained news"
    by (auto simp: fun_eq_iff gained_def old_ent)
  have k: "(\<lambda>r. \<exists>n. find (\<lambda>n. s_IP n = s_IP r) news = Some n \<and> oe_status (old_ent E r) = CodeHasPTR \<and> s_Status n = CodeHasPTR \<and>
        oe_hash (old_ent E r) = compare_hashNames E (s_PTR n)) = kept_name E True news"
    "(\<lambda>r. \<exists>n. find (\<lambda>n. s_IP n = s_IP r) news = Some n \<and> oe_status (old_ent E r) = CodeHasPTR \<and> s_Status n = CodeHasPTR \<and>
        oe_hash (old_ent E r) \<noteq> compare_hashNames E (s_PTR n)) = kept_name E False news"
    by (auto simp: fun_eq_iff kept_name_def old_ent hash_twins)
  show ?thesis
    using run cells' un fold [OF counts_gained, unfolded g conv] fold [OF counts_unchanged, unfolded k conv]
      fold [OF counts_changed, unfolded k conv] unfolding j(2-6) by blast
qed

section \<open>Merge and compare agree\<close>

lemma first_recs_id: "distinct (map s_IP rs) \<Longrightarrow> S \<inter> s_IP ` set rs = {} \<Longrightarrow> first_recs S rs = rs"
  by (induction rs arbitrary: S) auto

lemma effect_count_targets:
  assumes "\<And>r. r \<in> set olds \<Longrightarrow> effect E msk news r = k \<longleftrightarrow> mask_Has msk (s_Status r) \<and> P r"
  shows "effect_count (effect E msk news) olds k = targets_with msk olds P"
  using assms by (simp add: effect_count_def targets_with_def cong: filter_cong)

lemma effect_cases:
  fixes r :: Rec and news :: "Rec list"
  shows "effect E msk news r = Eff_Gained \<longleftrightarrow> mask_Has msk (s_Status r) \<and> gained news r"
    and "effect E msk news r = Eff_Unchanged \<longleftrightarrow> mask_Has msk (s_Status r) \<and> kept_name E True news r"
    and "effect E msk news r = Eff_Changed \<longleftrightarrow> mask_Has msk (s_Status r) \<and> kept_name E False news r"
    and "effect E msk news r = Eff_Missing \<longleftrightarrow> mask_Has msk (s_Status r) \<and> find (\<lambda>n. s_IP n = s_IP r) news = None"
    and "effect E msk news r = Eff_Removed \<longleftrightarrow> mask_Has msk (s_Status r) \<and> s_Status r = CodeHasPTR \<and>
      (\<exists>n. find (\<lambda>n. s_IP n = s_IP r) news = Some n \<and> s_Status n \<noteq> CodeHasPTR \<and> definitive (s_Status n))"
    and "effect E msk news r = Eff_Grace \<longleftrightarrow> mask_Has msk (s_Status r) \<and> s_Status r = CodeHasPTR \<and>
      (\<exists>n. find (\<lambda>n. s_IP n = s_IP r) news = Some n \<and> \<not> definitive (s_Status n))"
  by (cases "find (\<lambda>n. s_IP n = s_IP r) news";
      force simp: gained_def kept_name_def effect_def effect_of_def definitive_def)+

lemma status_classes:
  fixes c :: status_code
  shows "c = CodeHasPTR \<longleftrightarrow> unat c = 0" "definitive c \<longleftrightarrow> unat c \<in> {0, 1, 2}"
    "c \<noteq> CodeHasPTR \<and> definitive c \<longleftrightarrow> unat c \<in> {1, 2}"
  by (auto simp: definitive_def code_defs word_eq_iff_unsigned [where 'a = nat and v = c])

text \<open>The effects of a merge as sums of matrix cells.\<close>

lemma effect_sums:
  assumes msk: "msk < 256" and st: "\<forall>r\<in>set news. unat (s_Status r) < 8"
    and cells: "\<And>c k. c < 8 \<Longrightarrow> k < 9 \<Longrightarrow> cell mt c k = targets_with msk olds (\<lambda>r. unat (s_Status r) = c \<and> new_col news r = k)"
  shows "effect_count (effect E msk news) olds Eff_Removed = (\<Sum>k\<in>{1, 2}. cell mt 0 k)"
    and "effect_count (effect E msk news) olds Eff_Grace = (\<Sum>k\<in>{3..<8}. cell mt 0 k)"
    and "effect_count (effect E msk news) olds Eff_Missing = (\<Sum>c\<in>{..<8}. cell mt c missingCol)"
proof -
  have n8: "unat (s_Status n) < 8" if "find (\<lambda>n. s_IP n = s_IP r) news = Some n" for r n
    using that st by (auto simp: find_Some_iff)
  note col = new_col_def missingCol_def NumStatusCodes_def status_classes
  have row0: "(\<Sum>k\<in>S. cell mt 0 k) = targets_with msk olds (\<lambda>r. unat (s_Status r) = 0 \<and> new_col news r \<in> S)"
    if "finite S" "S \<subseteq> {..<9}" for S
    using that sum_by_class [OF that(1), of "\<lambda>r. mask_Has msk (s_Status r) \<and> unat (s_Status r) = 0" "new_col news" olds]
    by (simp add: cells subset_iff targets_with_def conj_assoc cong: sum.cong)
  show "effect_count (effect E msk news) olds Eff_Removed = (\<Sum>k\<in>{1, 2}. cell mt 0 k)"
    by (rule trans [OF effect_count_targets row0 [symmetric]]) (auto simp: effect_cases(5) col split: option.splits)
  show "effect_count (effect E msk news) olds Eff_Grace = (\<Sum>k\<in>{3..<8}. cell mt 0 k)"
    by (rule trans [OF effect_count_targets row0 [symmetric]])
      (use n8 in \<open>force simp: effect_cases(6) col split: option.splits\<close>)+
  have "(\<Sum>c\<in>{..<8}. cell mt c missingCol) =
      (\<Sum>c\<in>{..<8}. targets_with msk olds (\<lambda>r. unat (s_Status r) = c \<and> new_col news r = missingCol))"
    by (intro sum.cong refl cells) (simp_all add: missingCol_def NumStatusCodes_def)
  also have "\<dots> = targets_with msk olds (\<lambda>r. new_col news r = missingCol \<and> unat (s_Status r) < 8)"
    using sum_by_class [of "{..<8}" "\<lambda>r. mask_Has msk (s_Status r) \<and> new_col news r = missingCol" "\<lambda>r. unat (s_Status r)" olds]
    by (simp add: targets_with_def conj_ac)
  finally show "effect_count (effect E msk news) olds Eff_Missing = (\<Sum>c\<in>{..<8}. cell mt c missingCol)"
    by (simp only:) (rule effect_count_targets, use n8 mask_Has_small [OF msk] in \<open>force simp: effect_cases(4) col split: option.splits\<close>)
qed

lemma card_outside:
  "distinct (map s_IP news) \<Longrightarrow> card (s_IP ` set news - S) = length (filter (\<lambda>n. s_IP n \<notin> S) news)"
proof -
  assume d: "distinct (map s_IP news)"
  have "s_IP ` set news - S = set (map s_IP (filter (\<lambda>n. s_IP n \<notin> S) news))" by auto
  then show ?thesis using distinct_card [OF distinct_map_filter [OF d], of "\<lambda>n. s_IP n \<notin> S"] by simp
qed

text \<open>
  C11. Merge and compare tell the same story. For two complete passes over one shard, neither of
  which repeats an address, both tools succeed, and the figures of the merge report are the
  figures of the comparison: gained, changed and unchanged names, names removed by an
  authoritative answer, names kept through a transient failure, targets without an observation
  and unexpected records.
\<close>
theorem merge_compare_agree:
  fixes now :: u64
  assumes E: "zstd_ok E" "sorts_keys (env_sort_func E)" and msk: "o_Mask opts < 256"
    and hdrs: "ReadHeader fs oldPath = Inr oh" "ReadHeader fs newPath = Inr nh"
    and ids: "h_Shards nh = h_Shards oh" "h_ShardID nh = h_ShardID oh"
    and scans: "Scan E fs oldPath collect [] = (olds, None)" "Scan E fs newPath collect [] = (news, None)"
    and oks: "list_all rec_ok olds" "list_all rec_ok news" "sum_list (map names_size news) \<le> 4294967295"
    and d: "distinct (map s_IP olds)" "distinct (map s_IP news)"
    and paths: "newPath \<noteq> []" "merge_out_path opts oh \<noteq> oldPath"
      "is_dir fs (path_dir (merge_out_path opts oh))" "\<not> is_dir fs (merge_out_path opts oh)"
  shows "\<exists>fs' sr mres counts' mt cres tlds.
     mergeShard E now fs oldPath newPath opts zero_result counts = (fs', Inr (sr, mres, counts')) \<and>
     compare_shard E fs (o_Mask opts) sid oldPath newPath zero_matrix (zero_compare_Result i1 i2 st days) [] = Inr (mt, cres, tlds) \<and>
     res_Gained mres = g_Total (cr_Gained cres) \<and>
     res_PTRChanged mres = cr_PTRChanged cres \<and> res_PTRUnchanged mres = cr_PTRUnchanged cres \<and>
     res_RemovedAuth mres = (\<Sum>k\<in>{1, 2}. cell mt 0 k) \<and> res_GraceKept mres = (\<Sum>k\<in>{3..<8}. cell mt 0 k) \<and>
     res_MissingKept mres = (\<Sum>c\<in>{..<8}. cell mt c missingCol) \<and>
     res_UnexpectedNew mres = cr_UnexpectedNew cres"
proof -
  let ?effect_count = "effect_count (effect E (o_Mask opts) news) olds"
  let ?ips = "s_IP ` {r \<in> set olds. mask_Has (o_Mask opts) (s_Status r)}"
  have F: "first_recs {} olds = olds" by (rule first_recs_id) (simp_all add: d)
  obtain fs' sr mres counts' where m: "mergeShard E now fs oldPath newPath opts zero_result counts = (fs', Inr (sr, mres, counts'))"
    "res_Gained mres = ?effect_count Eff_Gained" "res_PTRChanged mres = ?effect_count Eff_Changed"
    "res_PTRUnchanged mres = ?effect_count Eff_Unchanged" "res_RemovedAuth mres = ?effect_count Eff_Removed"
    "res_GraceKept mres = ?effect_count Eff_Grace" "res_MissingKept mres = ?effect_count Eff_Missing"
    "res_UnexpectedNew mres = of_nat (length (filter (\<lambda>n. s_IP n \<notin> ?ips) news))"
    using merge_figures_spec [OF hdrs ids scans oks paths, of now zero_result counts]
    unfolding F card_outside [OF d(2)] by (fastforce simp: zero_result_def add_figures_def)
  have st: "\<forall>r\<in>set news. unat (s_Status r) < 8" using oks(2) by (auto simp: list_all_iff rec_ok_def NumStatusCodes_def)
  obtain mt cres tlds where c: "compare_shard E fs (o_Mask opts) sid oldPath newPath zero_matrix (zero_compare_Result i1 i2 st days) [] = Inr (mt, cres, tlds)"
    "\<And>c k. c < 8 \<Longrightarrow> k < 9 \<Longrightarrow> cell mt c k = targets_with (o_Mask opts) olds (\<lambda>r. unat (s_Status r) = c \<and> new_col news r = k)"
    "g_Total (cr_Gained cres) = targets_with (o_Mask opts) olds (gained news)"
    "cr_PTRUnchanged cres = targets_with (o_Mask opts) olds (kept_name E True news)"
    "cr_PTRChanged cres = targets_with (o_Mask opts) olds (kept_name E False news)"
    "cr_UnexpectedNew cres = of_nat (length (filter (\<lambda>n. s_IP n \<notin> ?ips) news))"
    using compare_shard_figures [OF E(2) msk scans st d(1) zero_matrix_wf, of sid "zero_compare_Result i1 i2 st days" "[]"]
    by (auto simp: zero_matrix_cell zero_compare_Result_def)
  note sums = effect_sums [OF msk st c(2), of E]
  have "?effect_count Eff_Gained = g_Total (cr_Gained cres)" "?effect_count Eff_Unchanged = cr_PTRUnchanged cres"
    "?effect_count Eff_Changed = cr_PTRChanged cres"
    unfolding c(3-5) by (rule effect_count_targets, simp only: effect_cases)+
  then show ?thesis
    using m c(1,6) sums by (intro exI conjI) (assumption | simp)+
qed

section \<open>Witnesses\<close>

theorem merge_compare_agree_witness:
  "\<exists>fs' sr mres counts' mt cres tlds.
     mergeShard test_env 7 fs_pair ''o/s.rdnsz'' ''n/s.rdnsz'' opts_example zero_result (replicate 8 0) = (fs', Inr (sr, mres, counts')) \<and>
     compare_shard test_env fs_pair 1 1 ''o/s.rdnsz'' ''n/s.rdnsz'' zero_matrix
       (zero_compare_Result info_example info_example [] 0) [] = Inr (mt, cres, tlds) \<and>
     res_GraceKept mres = (\<Sum>k\<in>{3..<8}. cell mt 0 k) \<and> res_Gained mres = g_Total (cr_Gained cres)"
proof -
  obtain oh nh where h: "ReadHeader fs_pair ''o/s.rdnsz'' = Inr oh" "ReadHeader fs_pair ''n/s.rdnsz'' = Inr nh"
    "h_Shards oh = 4" "h_Shards nh = 4" "h_ShardID oh = 1" "h_ShardID nh = 1"
    using fs_pair_headers by blast
  have out: "merge_out_path opts_example oh = ''m/shard-1.rdnsz''"
    using out_example [OF h(5)] by (simp only: show_nat_1) simp
  have "sum_list (map names_size [stored timeout_example]) \<le> 4294967295"
    by (simp add: names_size_def stored_examples CodeHasPTR_def)
  moreover have "is_dir fs_pair (path_dir ''m/shard-1.rdnsz'')" "\<not> is_dir fs_pair ''m/shard-1.rdnsz''"
    by (simp_all add: fs_pair_def shard_file_other is_dir_def dirs_example_def path_dir_def)
  moreover have "o_Mask opts_example = 1" by (simp add: opts_example_def)
  ultimately show ?thesis
    using merge_compare_agree [OF zstd_ok_test_env test_env_sorts(2) _ h(1,2) _ _ fs_pair_scans, where opts = opts_example and now = 7
        and counts = "replicate 8 0" and sid = 1 and ?i1.0 = info_example and ?i2.0 = info_example and st = "[]" and days = 0]
      h(3-6) out by fastforce
qed

end
