(* ===== verification/Cycle.thy ===== *)
theory Cycle
  imports Cli Merge_Compare
begin

unbundle bit_operations_syntax

text \<open>
  The passes of a dataset in sequence (\<^verbatim>\<open>cmd/rdns-crawler/main.go\<close> over the components): a re-crawl
  reads a previous shard, streams its targets through the pool and writes a new shard, and the
  merge folds the new shard into the previous one.
\<close>

section \<open>A re-crawl\<close>

lemma outPath_files: "outPath c mode ts fs = Inr (fs1, path) \<Longrightarrow> fs_read fs1 q = fs_read fs q"
  by (auto simp: outPath_def os_mkdir_all_def Let_def fs_read_def split: sum.splits if_splits)

lemma newSink_files:
  assumes "newSink c path shards shardID False now fs = Inr (fs1, wr)" and "k_format c \<noteq> ''jsonl''" and "q \<noteq> path"
  shows "fs_read fs1 q = fs_read fs q"
  using assms by (auto simp: newSink_def NewWriter_def Let_def fs_read_write dest!: os_create_read [where q = q] split: sum.splits)

lemma Scan_cong: "fs_read fs1 path = fs_read fs path \<Longrightarrow> Scan E fs1 path fn st = Scan E fs path fn st"
  by (simp add: Scan_def)

lemma recrawl_plan_Inr:
  assumes "recrawl_plan E fl ts now fs = Inr (fs1, crw, wr, msk, skip, expected, cursorPath)"
    and "k_out (rf_common fl) \<noteq> []" and "\<not> rf_resume fl" and "k_format (rf_common fl) \<noteq> ''jsonl''"
    and "rf_from fl \<noteq> k_out (rf_common fl)"
  shows "\<exists>res oldHdr. ParseStatuses (rf_statuses fl) = Inr msk \<and> ReadHeader fs (rf_from fl) = Inr oldHdr \<and>
     resolver_ok res \<and> crw = crawler_New (crawl_config (rf_common fl)) res \<and> skip = 0 \<and>
     wr = Rdnsz (newWriter (replicate headerSize 0) (k_out (rf_common fl)) (h_Shards oldHdr) (h_ShardID oldHdr) now) \<and>
     fs_read fs1 (rf_from fl) = fs_read fs (rf_from fl) \<and> cursorPath = k_out (rf_common fl) @ ''.cursor''"
proof -
  obtain oldHdr fs2 path servers res where st: "ParseStatuses (rf_statuses fl) = Inr msk" "ReadHeader fs (rf_from fl) = Inr oldHdr"
    "outPath (rf_common fl) ''recrawl'' ts fs = Inr (fs2, path)"
    "resolver_New servers (k_timeout (rf_common fl)) (k_retries (rf_common fl)) = Inr res"
    "newSink (rf_common fl) path (h_Shards oldHdr) (h_ShardID oldHdr) False now fs2 = Inr (fs1, wr)"
    "crw = crawler_New (crawl_config (rf_common fl)) res" "skip = 0" "cursorPath = path @ ''.cursor''"
    using assms(1,3) by (auto simp: recrawl_plan_def Let_def split: sum.splits if_splits prod.splits)
  have "path = k_out (rf_common fl)"
    using st(3) assms(2) by (auto simp: outPath_def Let_def split: sum.splits if_splits)
  then show ?thesis
    using st New_ok [OF st(4)] newSink_rdnsz [OF st(5) assms(4)] newSink_files [OF st(5) assms(4), of "rf_from fl"]
      outPath_files [OF st(3), of "rf_from fl"] assms(5) by auto
qed

lemma write_atomic_other: "q \<noteq> path \<Longrightarrow> q \<noteq> path @ ''.tmp'' \<Longrightarrow> fs_read (write_atomic fs path txt) q = fs_read fs q"
  by (auto simp: write_atomic_def os_write_file_def os_create_def os_rename_def fs_read_write fs_read_remove Let_def
      split: option.splits)

lemma count_cursors_other:
  assumes "q \<noteq> path" and "q \<noteq> path @ ''.tmp''"
  shows "fs_read (fold (\<lambda>n. writeCountCursor path n expected) written fs) q = fs_read fs q"
  using assms by (induction written arbitrary: fs) (simp_all add: writeCountCursor_def write_atomic_other)

text \<open>Everything a completed re-crawl leaves behind.\<close>

lemma recrawl_run:
  assumes run: "runRecrawl E D fl ts now fs s fs' err" and "\<not> pl_cancelled s"
    and E: "zstd_ok E" "sorts_keys (env_sort_slice E)"
    and fl: "k_out (rf_common fl) \<noteq> []" "\<not> rf_resume fl" "k_format (rf_common fl) \<noteq> ''jsonl''" "rf_limit fl = 0"
      "rf_from fl \<noteq> k_out (rf_common fl)"
    and old: "Scan E fs (rf_from fl) collect [] = (olds, None)" "length olds < 2 ^ 64"
    and names: "\<forall>nm\<in>dns_names D. set nm \<inter> markers = {} \<and> length nm \<le> 1004"
  shows "\<exists>msk rs h oldHdr cfg. err = None \<and> ParseStatuses (rf_statuses fl) = Inr msk \<and>
     Scan E fs' (k_out (rf_common fl)) collect [] = (rs, None) \<and>
     mset (map s_IP rs) = mset (map s_IP (targets msk olds)) \<and>
     ReadHeader fs (rf_from fl) = Inr oldHdr \<and> ReadHeader fs' (k_out (rf_common fl)) = Inr h \<and>
     h_Shards h = h_Shards oldHdr \<and> h_ShardID h = h_ShardID oldHdr \<and>
     mset rs = mset (map stored (pl_out s)) \<and> (\<forall>rec\<in>set (pl_out s). crawl_rec cfg rec \<and> set (r_PTR rec) \<subseteq> dns_names D) \<and>
     (rf_from fl \<notin> {k_out (rf_common fl) @ ''.cursor'', k_out (rf_common fl) @ ''.cursor.tmp''} \<longrightarrow>
        fs_read fs' (rf_from fl) = fs_read fs (rf_from fl))"
  using run
proof cases
  case (recrawl fs1 crw wr msk skip expected cursorPath sch ips curs written)
  obtain res oldHdr where pl: "ParseStatuses (rf_statuses fl) = Inr msk" "ReadHeader fs (rf_from fl) = Inr oldHdr"
    "resolver_ok res" "crw = crawler_New (crawl_config (rf_common fl)) res" "skip = 0"
    "fs_read fs1 (rf_from fl) = fs_read fs (rf_from fl)" "cursorPath = k_out (rf_common fl) @ ''.cursor''"
    and wr: "wr = Rdnsz (newWriter (replicate headerSize 0) (k_out (rf_common fl)) (h_Shards oldHdr) (h_ShardID oldHdr) now)"
    using recrawl_plan_Inr [OF recrawl(1) fl(1-3,5)] by blast
  have "length (targets msk olds) < 2 ^ 64"
    unfolding targets_def by (rule le_less_trans [OF length_filter_le old(2)])
  moreover have "sch_deliver sch = (\<lambda>_. True)" using recrawl(6) assms(2) by blast
  moreover have "Scan E fs1 (rf_from fl) collect [] = (olds, None)"
    by (rule trans [OF Scan_cong [OF pl(6)] old(1)])
  ultimately obtain cs where "StreamTargets E fs1 (rf_from fl) msk 0 0 0 sch = (map (\<lambda>r. intToIP (s_IP r)) (targets msk olds), cs, None)"
    using stream_targets_exact [of E fs1 "rf_from fl" olds msk sch 0 0 0] by auto
  then have ips: "err = None" "ips = map (\<lambda>r. IntToIP (s_IP r)) (targets msk olds)"
    using recrawl(2) [unfolded pl(5) fl(4)] by (simp_all add: intToIP_def IntToIP_def)
  let ?xs = "map s_IP (targets msk olds)"
  let ?fs2 = "fold (\<lambda>n. writeCountCursor cursorPath n expected) written fs1"
  from recrawl(4) obtain s0 where p: "pool_start (crawler_New (crawl_config (rf_common fl)) res) (map IntToIP ?xs) = Inr s0"
    "(pool_step D)\<^sup>*\<^sup>* s0 s" "pl_closed s" "fs' = sink_Close E (sink_Consume E (pl_out s) wr) ?fs2"
    by (rule pipelineE) (simp add: pl(4) ips(2) comp_def)
  have "fs_read fs' (rf_from fl) = fs_read fs (rf_from fl)"
    if "rf_from fl \<notin> {k_out (rf_common fl) @ ''.cursor'', k_out (rf_common fl) @ ''.cursor.tmp''}"
    using that fl(5) pl(6)
    by (simp add: p(4) wr Close_other Consume_frame newWriter_fresh(3) pl(7) count_cursors_other)
  then show ?thesis
    using stored_run [OF E pl(3) p(1-3) assms(2) names p(4) [unfolded wr]] ips(1) pl(1,2) by blast
qed

text \<open>
  C4. A re-crawl from end to end. When \<open>recrawl\<close> runs to its end without being cancelled and writes
  the compact format to a new file, that file scans without an error to exactly one record for
  every target of the previous shard (every record of it whose status was asked for), and its
  header carries the shard identity of the previous shard.
\<close>
theorem recrawl_end_to_end:
  assumes run: "runRecrawl E D fl ts now fs s fs' err" and "\<not> pl_cancelled s"
    and E: "zstd_ok E" "sorts_keys (env_sort_slice E)"
    and fl: "k_out (rf_common fl) \<noteq> []" "\<not> rf_resume fl" "k_format (rf_common fl) \<noteq> ''jsonl''" "rf_limit fl = 0"
      "rf_from fl \<noteq> k_out (rf_common fl)"
    and old: "Scan E fs (rf_from fl) collect [] = (olds, None)" "length olds < 2 ^ 64"
    and names: "\<forall>nm\<in>dns_names D. set nm \<inter> markers = {} \<and> length nm \<le> 1004"
  shows "\<exists>msk rs h oldHdr. err = None \<and> ParseStatuses (rf_statuses fl) = Inr msk \<and>
     Scan E fs' (k_out (rf_common fl)) collect [] = (rs, None) \<and>
     mset (map s_IP rs) = mset (map s_IP (targets msk olds)) \<and>
     ReadHeader fs (rf_from fl) = Inr oldHdr \<and> ReadHeader fs' (k_out (rf_common fl)) = Inr h \<and>
     h_Shards h = h_Shards oldHdr \<and> h_ShardID h = h_ShardID oldHdr"
  using recrawl_run [OF assms] by blast

section \<open>A re-crawl folded into its baseline\<close>

lemma rec_ok_stored:
  assumes "crawl_rec cfg rec" and "\<forall>nm\<in>set (r_PTR rec). set nm \<inter> markers = {} \<and> nameSep \<notin> set nm \<and> length nm \<le> 1004"
  shows "rec_ok (stored rec)"
proof -
  have "unat (Code (r_Status rec)) < NumStatusCodes" using Code_less by (simp add: NumStatusCodes_def)
  moreover have "HasPTR (r_Status rec) \<longleftrightarrow> Code (r_Status rec) = CodeHasPTR"
    by (simp add: HasPTR_iff_Code CodeHasPTR_def)
  ultimately show ?thesis
    using assms by (auto simp: rec_ok_def stored_def crawl_rec_def maxPTRNames_def list_all_iff dest: in_set_takeD)
qed

lemma length_go_join: "length (go_join xs [c]) \<le> sum_list (map (\<lambda>x. length x + 1) xs)"
  by (induction xs "[c]" rule: go_join.induct) simp_all

lemma names_size_le:
  assumes "rec_ok r"
  shows "names_size r \<le> 32160"
proof (cases "s_Status r = CodeHasPTR")
  case True
  then have r: "length (s_PTR r) \<le> 32" "\<forall>n\<in>set (s_PTR r). length n \<le> 1004"
    using assms by (auto simp: rec_ok_def maxPTRNames_def list_all_iff)
  have "sum_list (map (\<lambda>x. length x + 1) xs) \<le> length xs * 1005" if "\<forall>n\<in>set xs. length n \<le> 1004" for xs :: "string list"
    using that by (induction xs) auto
  from this [OF r(2)] r(1) length_go_join [of "s_PTR r" nameSep] show ?thesis using True by (simp add: names_size_def)
qed (simp add: names_size_def)

text \<open>
  C3. The monthly cycle. When an uncancelled re-crawl of a shard is merged into its baseline with the
  same status list, the merge succeeds and its report shows no target without an observation, no
  unexpected and no repeated record; the merged file holds exactly the addresses of the
  baseline, each once, and every record decided by the merge policy. (The names of the re-crawl must fit the 4 GiB
  arena of the merge.)
\<close>
theorem recrawl_merge_cycle:
  fixes now' :: u64
  assumes run: "runRecrawl E D fl ts now fs s fs' err" and "\<not> pl_cancelled s"
    and E: "zstd_ok E" "sorts_keys (env_sort_slice E)"
    and fl: "k_out (rf_common fl) \<noteq> []" "\<not> rf_resume fl" "k_format (rf_common fl) \<noteq> ''jsonl''" "rf_limit fl = 0"
    and base: "rf_from fl \<notin> {k_out (rf_common fl), k_out (rf_common fl) @ ''.cursor'', k_out (rf_common fl) @ ''.cursor.tmp''}"
    and old: "Scan E fs (rf_from fl) collect [] = (olds, None)" "ReadHeader fs (rf_from fl) = Inr oh"
      "length olds < 2 ^ 64" "list_all rec_ok olds" "distinct (map s_IP olds)"
    and names: "\<forall>nm\<in>dns_names D. set nm \<inter> markers = {} \<and> nameSep \<notin> set nm \<and> length nm \<le> 1004"
    and new: "Scan E fs' (k_out (rf_common fl)) collect [] = (news, e)" "sum_list (map names_size news) \<le> 4294967295"
    and opts: "ParseStatuses (rf_statuses fl) = Inr (o_Mask opts)" "merge_out_path opts oh \<noteq> rf_from fl"
      "is_dir fs' (path_dir (merge_out_path opts oh))" "\<not> is_dir fs' (merge_out_path opts oh)"
  shows "\<exists>fs'' sr mres counts' rs.
     mergeShard E now' fs' (rf_from fl) (k_out (rf_common fl)) opts zero_result (replicate 8 0) = (fs'', Inr (sr, mres, counts')) \<and>
     res_MissingKept mres = 0 \<and> res_UnexpectedNew mres = 0 \<and> res_OldDups mres = 0 \<and> res_NewDups mres = 0 \<and>
     Scan E fs'' (merge_out_path opts oh) collect [] = (rs, None) \<and>
     mset rs = mset (map (merge_rec (o_Mask opts) news) olds) \<and>
     distinct (map s_IP rs) \<and> s_IP ` set rs = s_IP ` set olds"
proof -
  let ?out = "k_out (rf_common fl)" and ?msk = "o_Mask opts"
  have names': "\<forall>nm\<in>dns_names D. set nm \<inter> markers = {} \<and> length nm \<le> 1004" using names by blast
  have from_out: "rf_from fl \<noteq> ?out" using base by blast
  obtain msk rs nh oldHdr cfg where q: "ParseStatuses (rf_statuses fl) = Inr msk" "Scan E fs' ?out collect [] = (rs, None)"
    "mset (map s_IP rs) = mset (map s_IP (targets msk olds))" "ReadHeader fs (rf_from fl) = Inr oldHdr"
    "ReadHeader fs' ?out = Inr nh" "h_Shards nh = h_Shards oldHdr" "h_ShardID nh = h_ShardID oldHdr"
    "mset rs = mset (map stored (pl_out s))"
    "\<forall>rec\<in>set (pl_out s). crawl_rec cfg rec \<and> set (r_PTR rec) \<subseteq> dns_names D"
    "fs_read fs' (rf_from fl) = fs_read fs (rf_from fl)"
    using recrawl_run [OF run assms(2) E fl from_out old(1,3) names'] base by blast
  have eq: "msk = ?msk" "rs = news" "e = None" "oldHdr = oh" using q(1,2,4) new(1) opts(1) old(2) by simp_all
  note r = eq(3) q(3,5-10) [unfolded eq]
  have oks: "list_all rec_ok news"
  proof -
    have "set news = stored ` set (pl_out s)" using r(6) by (metis mset_eq_setD set_map)
    moreover have "rec_ok (stored rec)" if "rec \<in> set (pl_out s)" for rec
      using r(7) that names by (intro rec_ok_stored [of cfg]) blast+
    ultimately show ?thesis by (auto simp: list_all_iff)
  qed
  have ips: "s_IP ` set news = s_IP ` {r \<in> set olds. mask_Has ?msk (s_Status r)}"
    using mset_eq_setD [OF r(2)] unfolding targets_def set_map set_filter .
  have "distinct (map s_IP news)"
    using mset_eq_imp_distinct_iff [OF r(2)] distinct_map_filter [OF old(5)] unfolding targets_def by blast
  then have len: "card (s_IP ` set news) = length news" using distinct_card by fastforce
  have F: "first_recs {} olds = olds" using old(5) by (intro first_recs_id) simp_all
  have scan: "Scan E fs' (rf_from fl) collect [] = (olds, None)" "ReadHeader fs' (rf_from fl) = Inr oh"
    by (rule trans [OF Scan_cong [OF r(8)] old(1)], rule trans [OF read_cong [OF r(8)] old(2)])
  note newS = new(1) [unfolded r(1)]
  have "effect E ?msk news x \<noteq> Eff_Missing" if "x \<in> set olds" for x
  proof
    assume m: "effect E ?msk news x = Eff_Missing"
    then have "s_IP x \<in> s_IP ` set news" unfolding ips effect_cases using that by blast
    then show False using m by (auto simp: effect_cases find_None_iff)
  qed
  then have miss: "effect_count (effect E ?msk news) olds Eff_Missing = 0" by (simp add: effect_count_def filter_empty_conv)
  obtain fs'' sr mres counts' where m: "mergeShard E now' fs' (rf_from fl) ?out opts zero_result (replicate 8 0) = (fs'', Inr (sr, mres, counts'))"
    "res_MissingKept mres = 0" "res_UnexpectedNew mres = 0" "res_OldDups mres = 0" "res_NewDups mres = 0"
    using merge_figures_spec [OF scan(2) r(3-5) scan(1) newS old(4) oks new(2) fl(1) opts(2-4), of now' zero_result "replicate 8 0"]
    unfolding F by (auto simp: ips len [unfolded ips] miss zero_result_def add_figures_def)
  show ?thesis
    using m merge_shard_spec [OF E scan(2) r(3-5) scan(1) newS old(4) oks new(2) fl(1) opts(2-4), of "replicate 8 0" now' zero_result]
    unfolding F by auto
qed

section \<open>Witnesses\<close>

definition fs_base :: fs where
  "fs_base = shard_file fs_example path_example 1 [rec_example]"

lemma fs_base_read: "q \<noteq> path_example \<Longrightarrow> fs_read fs_base q = None" "is_dir fs_base = is_dir fs_example"
  unfolding fs_base_def by (simp_all add: shard_file_other) (simp add: fs_example_def fs_read_def)

lemma fs_base_scan: "Scan test_env fs_base path_example collect [] = ([stored rec_example], None)"
  unfolding fs_base_def by (rule shard_file_scan) simp_all

definition recrawl_example :: recrawlFlags where
  "recrawl_example = \<lparr>rf_common = common_example\<lparr>k_out := ''d/t.rdnsz''\<rparr>, rf_from = path_example,
     rf_statuses = ''has_ptr'', rf_limit = 0, rf_resume = False\<rparr>"

lemma ParseStatuses_has_ptr: "ParseStatuses ''has_ptr'' = Inr 1"
  by code_simp

lemma outPath_ok:
  assumes "k_out c = p" "p \<noteq> []" "path_dir p = ''d''" "p \<noteq> ''OUTPUT''"
    and "fs_read fs ''OUTPUT'' = None" "fs_read fs ''d'' = None" "is_dir fs ''d''"
  shows "\<exists>fs1. outPath c mode ts fs = Inr (fs1, p) \<and> (\<forall>q. q \<noteq> ''OUTPUT'' \<longrightarrow> is_dir fs1 q = is_dir fs q)"
proof -
  define fs1 where "fs1 = (if is_dir fs ''OUTPUT'' then fs else fs\<lparr>fs_dirs := ''OUTPUT'' # fs_dirs fs\<rparr>)"
  have "os_mkdir_all fs ''OUTPUT'' = Inr fs1" using assms(5) by (simp add: os_mkdir_all_def fs1_def)
  moreover have d: "\<forall>q. q \<noteq> ''OUTPUT'' \<longrightarrow> is_dir fs1 q = is_dir fs q" "fs_read fs1 ''d'' = None"
    using assms(6) by (auto simp: fs1_def is_dir_def fs_read_def)
  moreover have "os_mkdir_all fs1 ''d'' = Inr fs1" using d assms(7) by (simp add: os_mkdir_all_def)
  ultimately show ?thesis using assms(1-3) by (simp add: outPath_def outputDir_def Let_def)
qed

lemma recrawl_plan_example:
  "\<exists>fs1 crw wr expected cp. recrawl_plan test_env recrawl_example [] 99 fs_base = Inr (fs1, crw, wr, 1, 0, expected, cp) \<and>
     is_dir fs1 ''d'' \<and> \<not> is_dir fs1 ''d/shard-1.rdnsz''"
proof -
  let ?c = "common_example\<lparr>k_out := ''d/t.rdnsz''\<rparr>"
  have t: "trim_space [] = []" by code_simp
  obtain h where h: "ReadHeader fs_base path_example = Inr h" unfolding fs_base_def shard_file_header by blast
  obtain n where n: "CountTargets test_env fs_base path_example 1 = Inr n"
    by (simp add: count_targets_exact fs_base_scan)
  have dirs: "fs_read fs_base ''OUTPUT'' = None" "fs_read fs_base ''d'' = None" "is_dir fs_base ''d''" "\<not> is_dir fs_base ''d/t.rdnsz''"
    "\<not> is_dir fs_base ''d/shard-1.rdnsz''"
    using fs_base_read by (simp_all add: path_example_def fs_example_def is_dir_def)
  have p: "path_dir ''d/t.rdnsz'' = ''d''" by (simp add: path_dir_def)
  obtain fs1 where f1: "outPath ?c ''recrawl'' [] fs_base = Inr (fs1, ''d/t.rdnsz'')" "is_dir fs1 ''d''" "\<not> is_dir fs1 ''d/t.rdnsz''"
    "\<not> is_dir fs1 ''d/shard-1.rdnsz''"
  proof -
    obtain fs1 where "outPath ?c ''recrawl'' [] fs_base = Inr (fs1, ''d/t.rdnsz'')" "\<forall>q. q \<noteq> ''OUTPUT'' \<longrightarrow> is_dir fs1 q = is_dir fs_base q"
      using outPath_ok [of ?c "''d/t.rdnsz''" fs_base "''recrawl''" "[]"] dirs p by auto
    then show ?thesis using dirs that [of fs1] by simp
  qed
  obtain res where "resolver_New DefaultResolvers (k_timeout ?c) (k_retries ?c) = Inr res"
    using norm_default by (simp add: resolver_New_def Let_def)
  moreover have "resolverList ?c fs1 = Inr DefaultResolvers" by (simp add: resolverList_def common_example_def t)
  moreover obtain fs3 w where "newSink ?c ''d/t.rdnsz'' (h_Shards h) (h_ShardID h) False 99 fs1 = Inr (fs3, w)" "is_dir fs3 = is_dir fs1"
    using NewWriter_ok [of fs1 "''d/t.rdnsz''" "h_Shards h" "h_ShardID h" 99] f1(2,3) p by (auto simp: newSink_def common_example_def)
  ultimately show ?thesis
    using f1 h n by (simp add: recrawl_plan_def recrawl_example_def ParseStatuses_has_ptr Let_def path_example_def)
qed

lemma dns_names_nosep: "\<forall>nm\<in>dns_names dns_example. set nm \<inter> markers = {} \<and> nameSep \<notin> set nm \<and> length nm \<le> 1004"
proof -
  have "nm = ''h.example''" if "nm \<in> dns_names dns_example" for nm
    using that by (auto simp: dns_names_def dns_example_def ptr_names_def trim_suffix_def suffix_def split: if_splits)
  moreover have "set ''h.example'' \<inter> markers = {} \<and> nameSep \<notin> set ''h.example'' \<and> length ''h.example'' \<le> 1004"
    by (simp add: markers_def marker_defs nameSep_def)
  ultimately show ?thesis by metis
qed

lemma recrawl_example_flags:
  "k_out (rf_common recrawl_example) = ''d/t.rdnsz''" "\<not> rf_resume recrawl_example"
  "k_format (rf_common recrawl_example) \<noteq> ''jsonl''" "rf_limit recrawl_example = 0" "rf_from recrawl_example = path_example"
  "rf_statuses recrawl_example = ''has_ptr''" "path_example \<noteq> ''d/t.rdnsz''"
  by (simp_all add: recrawl_example_def common_example_def path_example_def)

lemma recrawl_example_ok:
  "k_out (rf_common recrawl_example) \<noteq> []" "rf_from recrawl_example \<noteq> k_out (rf_common recrawl_example)"
  "Scan test_env fs_base (rf_from recrawl_example) collect [] = ([stored rec_example], None)"
  "length [stored rec_example] < 2 ^ 64"
  using recrawl_example_flags fs_base_scan by simp_all

lemma recrawl_example_run:
  "\<exists>s fs' err. runRecrawl test_env dns_example recrawl_example [] 99 fs_base s fs' err \<and> \<not> pl_cancelled s \<and>
     is_dir fs' ''d'' \<and> \<not> is_dir fs' ''d/shard-1.rdnsz''"
proof -
  obtain fs1 crw wr expected cp where pl: "recrawl_plan test_env recrawl_example [] 99 fs_base = Inr (fs1, crw, wr, 1, 0, expected, cp)"
    and dirs: "is_dir fs1 ''d''" "\<not> is_dir fs1 ''d/shard-1.rdnsz''"
    using recrawl_plan_example by blast
  note fl = recrawl_example_flags
  obtain res where r: "resolver_ok res" "crw = crawler_New (crawl_config (rf_common recrawl_example)) res"
    and wr: "\<exists>w. wr = Rdnsz w"
    using recrawl_plan_Inr [OF pl] fl by auto
  define sch where "sch = \<lparr>sch_deliver = \<lambda>_. True, sch_taken = \<lambda>_. True\<rparr>"
  obtain ips curs err where st: "StreamTargets test_env fs1 path_example 1 0 0 0 sch = (ips, curs, err)" by (metis prod_cases3)
  obtain s0 where s0: "pool_start crw ips = Inr s0"
    by (simp add: r(2) pool_start_def crawler_New_def Let_def crawl_config_def recrawl_example_def common_example_def)
  obtain s where s: "(pool_step dns_example)\<^sup>*\<^sup>* s0 s" "pl_closed s" "\<not> pl_cancelled s" "pl_unsent s = []"
    using complete_run [OF r(1) s0 [unfolded r(2)]] by (auto simp: crawl_config_def recrawl_example_def common_example_def)
  let ?fs' = "sink_Close test_env (sink_Consume test_env (pl_out s) wr) fs1"
  have "pipeline test_env dns_example crw ips wr [] [] fs1 s ?fs'"
    using pipeline.run [OF s0 s(1,2), of test_env wr "[]" "[]" fs1] by simp
  then have "runRecrawl test_env dns_example recrawl_example [] 99 fs_base s ?fs' err"
    using runRecrawl.recrawl [OF pl, of sch ips curs err "[]"] st s(3,4) fl by (auto simp: sch_def)
  moreover have "is_dir ?fs' = is_dir fs1" using wr by (auto simp: Close_def Let_def)
  ultimately show ?thesis using dirs s(3) by (intro exI [of _ s] exI [of _ ?fs']) auto
qed

lemma recrawl_example_news:
  assumes run: "runRecrawl test_env dns_example recrawl_example [] 99 fs_base s fs' err" and "\<not> pl_cancelled s"
  shows "\<exists>news. Scan test_env fs' ''d/t.rdnsz'' collect [] = (news, None) \<and> sum_list (map names_size news) \<le> 4294967295"
proof -
  note ok = recrawl_example_ok and fl = recrawl_example_flags
  obtain msk rs cfg where q: "ParseStatuses (rf_statuses recrawl_example) = Inr msk"
    "Scan test_env fs' (k_out (rf_common recrawl_example)) collect [] = (rs, None)"
    "mset rs = mset (map stored (pl_out s))"
    "\<forall>rec\<in>set (pl_out s). crawl_rec cfg rec \<and> set (r_PTR rec) \<subseteq> dns_names dns_example"
    "mset (map s_IP rs) = mset (map s_IP (targets msk [stored rec_example]))"
    using recrawl_run [OF run assms(2) zstd_ok_test_env test_env_sorts(1) ok(1) fl(2,3,4) ok(2,3,4) dns_example_names] by blast
  have "msk = 1" using q(1) by (simp add: fl(6) ParseStatuses_has_ptr)
  note r = q(2) [unfolded fl(1)] q(3,4) q(5) [unfolded \<open>msk = 1\<close>]
  have "rec_ok (stored rec)" if "rec \<in> set (pl_out s)" for rec
    using r(3) that dns_names_nosep by (intro rec_ok_stored [of cfg]) blast+
  moreover have "set rs = stored ` set (pl_out s)" using r(2) by (metis mset_eq_setD set_map)
  ultimately have "\<forall>x\<in>set rs. names_size x \<le> 32160" using names_size_le by auto
  moreover have "length rs = 1"
    using arg_cong [OF r(4), of size] unfolding targets_example by simp
  then obtain x where "rs = [x]" by (auto simp: length_Suc_conv)
  ultimately show ?thesis using r(1) by (auto intro: exI [of _ rs])
qed

theorem recrawl_end_to_end_witness:
  "\<exists>s fs' rs. runRecrawl test_env dns_example recrawl_example [] 99 fs_base s fs' None \<and>
     Scan test_env fs' ''d/t.rdnsz'' collect [] = (rs, None) \<and> map s_IP rs = [16909060]"
proof -
  obtain s fs' err where run: "runRecrawl test_env dns_example recrawl_example [] 99 fs_base s fs' err" "\<not> pl_cancelled s"
    using recrawl_example_run by blast
  note ok = recrawl_example_ok and fl = recrawl_example_flags
  obtain rs where rs: "err = None" "Scan test_env fs' ''d/t.rdnsz'' collect [] = (rs, None)"
     "mset (map s_IP rs) = mset (map s_IP (targets 1 [stored rec_example]))"
    using recrawl_end_to_end [OF run zstd_ok_test_env test_env_sorts(1) ok(1) fl(2,3,4) ok(2,3,4) dns_example_names]
    by (auto simp: fl ParseStatuses_has_ptr)
  then have "map s_IP rs = [16909060]"
    unfolding targets_example by (simp add: stored_example mset_singleton)
  then show ?thesis using run(1) [unfolded rs(1)] rs(2) by (intro exI conjI)
qed

theorem recrawl_merge_cycle_witness:
  "\<exists>s fs' fs'' sr mres counts' rs. runRecrawl test_env dns_example recrawl_example [] 99 fs_base s fs' None \<and>
     mergeShard test_env 7 fs' path_example ''d/t.rdnsz'' (opts_example\<lparr>o_OutDir := ''d''\<rparr>) zero_result (replicate 8 0) =
       (fs'', Inr (sr, mres, counts')) \<and>
     res_MissingKept mres = 0 \<and> Scan test_env fs'' ''d/shard-1.rdnsz'' collect [] = (rs, None) \<and> map s_IP rs = [16909060]"
proof -
  let ?opts = "opts_example\<lparr>o_OutDir := ''d''\<rparr>"
  note ok = recrawl_example_ok and fl = recrawl_example_flags
  obtain s fs' err where run: "runRecrawl test_env dns_example recrawl_example [] 99 fs_base s fs' err" "\<not> pl_cancelled s"
    and dirs: "is_dir fs' ''d''" "\<not> is_dir fs' ''d/shard-1.rdnsz''"
    using recrawl_example_run by blast
  have err: "err = None"
    using recrawl_run [OF run zstd_ok_test_env test_env_sorts(1) ok(1) fl(2,3,4) ok(2,3,4) dns_example_names] by blast
  obtain news where news: "Scan test_env fs' (k_out (rf_common recrawl_example)) collect [] = (news, None)"
     "sum_list (map names_size news) \<le> 4294967295"
    using recrawl_example_news [OF run] unfolding fl(1) by blast
  obtain oh where oh: "ReadHeader fs_base (rf_from recrawl_example) = Inr oh" "h_ShardID oh = 1"
    unfolding fl(5) fs_base_def shard_file_header by simp
  have out: "merge_out_path ?opts oh = ''d/shard-1.rdnsz''"
    by (simp only: merge_out_path_def oh(2) unat_1 show_nat_1) (simp add: opts_example_def path_join_def)
  have base: "rf_from recrawl_example \<notin> {k_out (rf_common recrawl_example), k_out (rf_common recrawl_example) @ ''.cursor'',
      k_out (rf_common recrawl_example) @ ''.cursor.tmp''}" by (simp add: fl path_example_def)
  have o: "ParseStatuses (rf_statuses recrawl_example) = Inr (o_Mask ?opts)" "merge_out_path ?opts oh \<noteq> rf_from recrawl_example"
    "is_dir fs' (path_dir (merge_out_path ?opts oh))" "\<not> is_dir fs' (merge_out_path ?opts oh)"
    using dirs unfolding out by (simp_all add: fl ParseStatuses_has_ptr opts_example_def path_example_def path_dir_def)
  obtain fs'' sr mres counts' rs where c: "mergeShard test_env 7 fs' path_example ''d/t.rdnsz'' ?opts zero_result (replicate 8 0) =
       (fs'', Inr (sr, mres, counts'))" "res_MissingKept mres = 0"
    "Scan test_env fs'' ''d/shard-1.rdnsz'' collect [] = (rs, None)"
    "distinct (map s_IP rs)" "s_IP ` set rs = s_IP ` set [stored rec_example]"
    using recrawl_merge_cycle [OF run zstd_ok_test_env test_env_sorts(1) ok(1) fl(2-4) base ok(3) oh(1) ok(4) _ _ dns_names_nosep news o,
        where now' = 7] unfolding out fl(1,5) by auto
  have "map s_IP rs = [16909060]"
  proof -
    have "length rs = 1" using distinct_card [OF c(4)] c(5) by (simp add: stored_example)
    then obtain x where "rs = [x]" by (auto simp: length_Suc_conv)
    then show ?thesis using c(5) by (simp add: stored_example)
  qed
  then show ?thesis using run(1) [unfolded err] c(1-3) by (intro exI conjI)
qed

end
