(* ===== verification/Go_Fmt.thy ===== *)
theory Go_Fmt
  imports Go_Json Complex_Main
begin

text \<open>
  Package \<open>fmt\<close> and the number types behind it, as far as the reports use them: padded columns,
  fixed-point rendering of \<open>float64\<close> values, durations and dates. The rounding of a real number to
  the nearest double is the parameter \<open>fl\<close> of the functions that compute with floats.
\<close>

section \<open>Text\<close>

text \<open>
  \<open>utf8.RuneCountInString\<close>: a byte that does not start a valid sequence counts as one rune.
\<close>

function rune_count :: "string \<Rightarrow> nat" where
  "rune_count s = (if s = [] then 0 else Suc (rune_count (drop (max 1 (rune_len s)) s)))"
  by pat_completeness auto
termination
  by (relation "measure length") auto

declare rune_count.simps [simp del]

text \<open>The verbs with a width: \<open>%14s\<close> pads on the left, \<open>%-14s\<close> on the right.\<close>

definition pad_left :: "nat \<Rightarrow> string \<Rightarrow> string" where
  "pad_left w s = replicate (w - rune_count s) (CHR '' '') @ s"

definition pad_right :: "nat \<Rightarrow> string \<Rightarrow> string" where
  "pad_right w s = s @ replicate (w - rune_count s) (CHR '' '')"

definition show_word :: "'a::len word \<Rightarrow> string" where
  "show_word w = show_nat (unat w)"

text \<open>\<open>%v\<close> of a slice of numbers.\<close>

definition show_ints :: "nat list \<Rightarrow> string" where
  "show_ints ns = ''['' @ go_join (map show_nat ns) '' '' @ '']''"

text \<open>A number in at least \<open>n\<close> digits.\<close>

definition zero_pad :: "nat \<Rightarrow> nat \<Rightarrow> string" where
  "zero_pad n v = replicate (n - length (show_nat v)) (CHR ''0'') @ show_nat v"

definition to_upper_ascii :: "string \<Rightarrow> string" where
  "to_upper_ascii s = map (\<lambda>c. let n = (of_char c :: nat) in if 97 \<le> n \<and> n \<le> 122 then char_of (n - 32) else c) s"

text \<open>Three non-ASCII characters of the reports: an arrow, a dash, and the almost-equal sign.\<close>

definition arrow :: string where "arrow = [CHR 0xE2, CHR 0x86, CHR 0x92]"
definition em_dash :: string where "em_dash = [CHR 0xE2, CHR 0x80, CHR 0x94]"
definition approx :: string where "approx = [CHR 0xE2, CHR 0x89, CHR 0x88]"

section \<open>Floating-point numbers\<close>

text \<open>
  A \<open>float64\<close> result: a real number (the rounding \<open>fl\<close> to the nearest double is a parameter), an
  infinity or not a number. Division by zero is the only source of the last two here.
\<close>

datatype float64 = Finite real | PosInf | NegInf | NaN

definition f64_div :: "(real \<Rightarrow> real) \<Rightarrow> real \<Rightarrow> real \<Rightarrow> float64" where
  "f64_div fl x y =
     (if y \<noteq> 0 then Finite (fl (x / y)) else if x = 0 then NaN else if 0 < x then PosInf else NegInf)"

definition round_half_even :: "real \<Rightarrow> int" where
  "round_half_even x =
     (let f = \<lfloor>x\<rfloor>; d = x - of_int f in if d < 1 / 2 \<or> d = 1 / 2 \<and> even f then f else f + 1)"

text \<open>The verb \<open>%.pf\<close>: the exact decimal expansion, rounded half to even at \<open>p\<close> digits.\<close>

definition fixed_digits :: "nat \<Rightarrow> nat \<Rightarrow> string" where
  "fixed_digits p n =
     show_nat (n div 10 ^ p) @ (if p = 0 then [] else CHR ''.'' # zero_pad p (n mod 10 ^ p))"

fun fmt_f :: "nat \<Rightarrow> float64 \<Rightarrow> string" where
  "fmt_f p (Finite x) =
     (if x < 0 then ''-'' else []) @ fixed_digits p (nat (round_half_even (\<bar>x\<bar> * 10 ^ p)))"
| "fmt_f p PosInf = ''+Inf''"
| "fmt_f p NegInf = ''-Inf''"
| "fmt_f p NaN = ''NaN''"

section \<open>Durations and dates\<close>

text \<open>
  Durations in nanoseconds, not negative (they are differences of the monotonic clock):
  \<open>Duration.Round\<close>, \<open>Duration.Seconds\<close> and \<open>Duration.String\<close>.
\<close>

definition duration_round :: "nat \<Rightarrow> nat \<Rightarrow> nat" where
  "duration_round m d = (let r = d mod m in if r + r < m then d - r else d + m - r)"

definition duration_seconds :: "(real \<Rightarrow> real) \<Rightarrow> nat \<Rightarrow> real" where
  "duration_seconds fl d =
     fl (fl (real (d div 1000000000)) + fl (fl (real (d mod 1000000000)) / 1000000000))"

definition fmt_frac :: "nat \<Rightarrow> nat \<Rightarrow> string" where
  "fmt_frac v p =
     (let ds = rev (dropWhile (\<lambda>c. c = CHR ''0'') (rev (zero_pad p (v mod 10 ^ p))))
      in if ds = [] then [] else CHR ''.'' # ds)"

definition duration_string :: "nat \<Rightarrow> string" where
  "duration_string u =
     (if u = 0 then ''0s''
      else if u < 1000 then show_nat u @ ''ns''
      else if u < 1000000 then show_nat (u div 1000) @ fmt_frac u 3 @ [CHR 0xC2, CHR 0xB5] @ ''s''
      else if u < 1000000000 then show_nat (u div 1000000) @ fmt_frac u 6 @ ''ms''
      else
        let s = u div 1000000000; m = s div 60; h = m div 60;
            sec = show_nat (s mod 60) @ fmt_frac u 9 @ ''s''
        in if m = 0 then sec
           else if h = 0 then show_nat m @ ''m'' @ sec
           else show_nat h @ ''h'' @ show_nat (m mod 60) @ ''m'' @ sec)"

text \<open>\<open>Time.Format("2006-01-02")\<close> of a time in UTC: the civil date of a day number since 1970.\<close>

definition civil :: "int \<Rightarrow> int \<times> int \<times> int" where
  "civil days =
     (let z = days + 719468; era = z div 146097; doe = z mod 146097;
          yoe = (doe - doe div 1460 + doe div 36524 - doe div 146096) div 365;
          doy = doe - (365 * yoe + yoe div 4 - yoe div 100);
          mp = (5 * doy + 2) div 153;
          d = doy - (153 * mp + 2) div 5 + 1;
          m = (if mp < 10 then mp + 3 else mp - 9)
      in (yoe + era * 400 + (if m \<le> 2 then 1 else 0), m, d))"

definition show_year :: "int \<Rightarrow> string" where
  "show_year y = (if y < 0 then CHR ''-'' # zero_pad 4 (nat (- y)) else zero_pad 4 (nat y))"

definition fmt_date :: "int \<Rightarrow> string" where
  "fmt_date unix =
     (case civil (unix div 86400) of (y, m, d) \<Rightarrow> show_year y @ ''-'' @ zero_pad 2 (nat m) @ ''-'' @ zero_pad 2 (nat d))"


lemma rune_count_ascii: "list_all (\<lambda>c. (of_char c :: nat) < 128) s \<Longrightarrow> rune_count s = length s"
proof (induction s)
  case (Cons c s)
  have "\<not> in_span 0xC2 0xDF c" "\<not> in_span 0xE0 0xE0 c" "\<not> in_span 0xE1 0xEC c" "\<not> in_span 0xED 0xED c" "\<not> in_span 0xEE 0xEF c"
    "\<not> in_span 0xF0 0xF0 c" "\<not> in_span 0xF1 0xF3 c" "\<not> in_span 0xF4 0xF4 c"
    using Cons.prems by (auto simp: in_span_def)
  then have "rune_len (c # s) = 0" by (auto simp: rune_len_def split: list.splits)
  then show ?case using Cons by (subst rune_count.simps) simp
qed (simp add: rune_count.simps)

text \<open>Rounding to \<open>p\<close> digits is off by at most half a unit of the last digit.\<close>

lemma round_half_even_error: "\<bar>real_of_int (round_half_even x) - x\<bar> \<le> 1 / 2"
proof -
  have "real_of_int \<lfloor>x\<rfloor> \<le> x" "x < real_of_int \<lfloor>x\<rfloor> + 1" by linarith+
  then show ?thesis by (auto simp: round_half_even_def Let_def abs_le_iff)
qed

lemma round_half_even_of_int [simp]: "round_half_even (of_int k) = k"
  by (simp add: round_half_even_def)

lemma civil_examples: "civil 0 = (1970, 1, 1)" "civil 19782 = (2024, 2, 29)"
  by code_simp+

end
