(* ===== verification/Go_Tabwriter.thy ===== *)
theory Go_Tabwriter
  imports Go_Fmt
begin

text \<open>
  Package \<open>text/tabwriter\<close> with the one configuration the reports use: left-aligned cells, columns
  separated by two blanks. Aligning adds blanks only, line by line.
\<close>

definition tab :: char where "tab = CHR 0x09"
definition blank :: char where "blank = CHR '' ''"

section \<open>Columns\<close>

text \<open>
  A line is its list of cells; every cell but the last is closed by a tab. \<open>ws\<close> are the widths of
  the columns to the left. Consecutive lines that have a cell in the next column form a block, whose
  column is as wide as its widest cell plus the padding (\<open>format\<close>, \<open>writeLines\<close>).
\<close>

definition in_column :: "nat list \<Rightarrow> string list \<Rightarrow> bool" where
  "in_column ws l \<longleftrightarrow> Suc (length ws) < length l"

definition column_width :: "nat list \<Rightarrow> string list list \<Rightarrow> nat" where
  "column_width ws blk = fold max (map (\<lambda>l. rune_count (l ! length ws) + 2) blk) 0"

fun write_cells :: "nat list \<Rightarrow> string list \<Rightarrow> string" where
  "write_cells (w # ws) (c # cs) = pad_right w c @ write_cells ws cs"
| "write_cells [] (c # cs) = c @ write_cells [] cs"
| "write_cells ws [] = []"

definition block_size :: "nat list \<Rightarrow> string list list \<Rightarrow> nat" where
  "block_size ws ls = sum_list (map (\<lambda>l. Suc (length l - length ws)) ls)"

lemma block_size_append: "block_size ws (xs @ ys) = block_size ws xs + block_size ws ys"
  by (simp add: block_size_def)

lemma block_size_Cons [simp]: "block_size ws (l # ls) = Suc (length l - length ws) + block_size ws ls"
  by (simp add: block_size_def)

lemma block_size_column: "list_all (in_column ws) blk \<Longrightarrow> blk \<noteq> [] \<Longrightarrow> block_size (ws @ [w]) blk < block_size ws blk"
proof (induction blk)
  case (Cons l blk)
  then show ?case by (cases "blk = []") (auto simp: in_column_def block_size_def)
qed simp

function format_block :: "nat list \<Rightarrow> string list list \<Rightarrow> string list" where
  "format_block ws [] = []"
| "format_block ws (l # ls) =
     (if \<not> in_column ws l then write_cells ws l # format_block ws ls
      else
        let blk = takeWhile (in_column ws) (l # ls)
        in format_block (ws @ [column_width ws blk]) blk @ format_block ws (dropWhile (in_column ws) (l # ls)))"
  by pat_completeness auto
termination
proof (relation "measure (\<lambda>(ws, ls). block_size ws ls)", goal_cases)
  case (3 ws l ls blk)
  have "block_size (ws @ [column_width ws blk]) blk < block_size ws blk"
    using 3 by (intro block_size_column) (auto simp: list_all_iff dest: set_takeWhileD)
  also have "\<dots> \<le> block_size ws (l # ls)"
    using 3(2) block_size_append [of ws blk "dropWhile (in_column ws) (l # ls)"] by (metis le_add1 takeWhile_dropWhile_id)
  finally show ?case by simp
next
  case (4 ws l ls blk)
  have "block_size ws (dropWhile (in_column ws) ls) \<le> block_size ws ls"
    using block_size_append [of ws "takeWhile (in_column ws) ls" "dropWhile (in_column ws) ls"] by simp
  then show ?case using 4 by simp
qed simp_all

text \<open>
  \<open>tabwriter.NewWriter(out, 0, 4, 2, ' ', 0)\<close>, written and flushed. The text has no vertical tab, form
  feed or escape byte, the other control characters of the package.
\<close>

definition tabwrite :: "string \<Rightarrow> string" where
  "tabwrite s = go_join (format_block [] (map (split_byte tab) (split_byte newline s))) [newline]"

section \<open>Alignment keeps the text\<close>

abbreviation ink :: "string \<Rightarrow> string" where
  "ink \<equiv> filter (\<lambda>c. c \<noteq> blank)"

lemma ink_pad [simp]: "ink (pad_right w s) = ink s" "ink (pad_left w s) = ink s"
  by (simp_all add: pad_right_def pad_left_def blank_def filter_replicate)

lemma ink_write_cells: "ink (write_cells ws cs) = ink (concat cs)"
  by (induction ws cs rule: write_cells.induct) simp_all

lemma ink_format_block: "map ink (format_block ws ls) = map (ink \<circ> concat) ls"
proof (induction ws ls rule: format_block.induct)
  case (2 ws l ls)
  show ?case
  proof (cases "in_column ws l")
    case True
    let ?blk = "takeWhile (in_column ws) (l # ls)"
    have "map ink (format_block ws (l # ls)) = map (ink \<circ> concat) (?blk @ dropWhile (in_column ws) (l # ls))"
      using 2(2,3) True by (simp add: Let_def del: takeWhile_dropWhile_id)
    then show ?thesis by (simp only: takeWhile_dropWhile_id)
  qed (use 2(1) in \<open>simp add: ink_write_cells\<close>)
qed simp

lemma length_format_block [simp]: "length (format_block ws ls) = length ls"
  using ink_format_block [of ws ls] by (metis length_map)

text \<open>Every cell of a column block starts its successor at the same place.\<close>

lemma column_width_ge: "l \<in> set blk \<Longrightarrow> rune_count (l ! length ws) + 2 \<le> column_width ws blk"
proof -
  have "x \<in> set xs \<Longrightarrow> x \<le> fold max xs (a :: nat)" "a \<le> fold max xs (a :: nat)" for x xs a
    by (induction xs arbitrary: a) (auto, (meson max.cobounded1 max.cobounded2 order_trans)+)
  then show "l \<in> set blk \<Longrightarrow> ?thesis" by (simp add: column_width_def)
qed

lemma tabwrite_example: "tabwrite (''  A'' @ [tab] @ ''1 x'' @ [newline] @ ''  BBB'' @ [tab] @ ''22'' @ [tab] @ ''z'' @ [newline]) = ''  A    1 x'' @ [newline] @ ''  BBB  22  z'' @ [newline]"
  by code_simp
end
