(* ===== verification/Summary_Report.thy ===== *)
theory Summary_Report
  imports Go_Tabwriter Output_Writer "HOL-Library.Signed_Division"
begin

text \<open>
  The reports that the two output backends print after a crawl: \<open>PrintSummary\<close> of the compact writer
  (\<^verbatim>\<open>src/internal/store/writer.go\<close>) and of the JSONL writer (\<^verbatim>\<open>src/internal/output/output.go\<close>), as
  functions to the text they print.
\<close>

section \<open>Shared formats\<close>

definition fprintln :: "string \<Rightarrow> string" where
  "fprintln s = s @ [newline]"

definition rule_line :: "nat \<Rightarrow> string" where
  "rule_line n = fprintln (replicate n (CHR ''=''))"

text \<open>\<open>float64(total) / elapsed.Seconds()\<close>, 0 when no time has passed.\<close>

definition crawl_rate :: "(real \<Rightarrow> real) \<Rightarrow> u64 \<Rightarrow> nat \<Rightarrow> float64" where
  "crawl_rate fl done_cnt elapsed =
     (let secs = duration_seconds fl elapsed in
      if 0 < secs then f64_div fl (fl (real (unat done_cnt))) secs else Finite 0)"

definition percent_of :: "(real \<Rightarrow> real) \<Rightarrow> u64 \<Rightarrow> u64 \<Rightarrow> float64" where
  "percent_of fl n totl = f64_div fl (fl (100 * fl (real (unat n)))) (fl (real (unat totl)))"

section \<open>The compact store\<close>

definition upct :: "(real \<Rightarrow> real) \<Rightarrow> u64 \<Rightarrow> u64 \<Rightarrow> string" where
  "upct fl n totl = (if totl = 0 then ''0.0%'' else fmt_f 1 (percent_of fl n totl) @ ''%'')"

text \<open>
  \<open>humanBytes\<close> of an \<open>int64\<close>. The loop variables are \<open>m\<close>, \<open>div\<close> and \<open>exp\<close>; indexing the string of
  unit letters panics past its end.
\<close>

lemma sdiv_1024: "1024 \<le> m \<Longrightarrow> m sdiv 1024 = m div (1024 :: int)"
  by (simp add: signed_divide_int_def)

function human_loop :: "int \<Rightarrow> int \<Rightarrow> nat \<Rightarrow> int \<times> nat" where
  "human_loop m dv ex = (if 1024 \<le> m then human_loop (m sdiv 1024) (dv * 1024) (ex + 1) else (dv, ex))"
  by pat_completeness auto
termination
proof (relation "measure (\<lambda>(m, _). nat m)", goal_cases)
  case (2 m dv ex)
  then show ?case by (simp add: sdiv_1024)
qed simp

declare human_loop.simps [simp del]

definition humanBytes :: "(real \<Rightarrow> real) \<Rightarrow> int \<Rightarrow> go_error + string" where
  "humanBytes fl n =
     (if n < 1024 then Inr (show_int n @ '' B'')
      else case human_loop (n sdiv 1024) 1024 0 of (dv, ex) \<Rightarrow>
        if ex < length ''KMGTPE'' then
          Inr (fmt_f 2 (f64_div fl (fl (real_of_int n)) (fl (real_of_int dv))) @ '' '' @ [''KMGTPE'' ! ex] @ ''B'')
        else Inl EPanic)"

definition status_rows :: "(real \<Rightarrow> real) \<Rightarrow> Writer \<Rightarrow> string" where
  "status_rows fl w = concat (map (\<lambda>c.
     let n = w_counts w ! unat c in
     if n = 0 then []
     else fprintln (''  '' @ StatusString c @ [tab] @ show_word n @ [tab] @ upct fl n (w_Total w)))
     (map of_nat [0..<NumStatusCodes]))"

definition tld_rows :: "counter \<Rightarrow> string" where
  "tld_rows m = concat (map (\<lambda>(k, v). fprintln (''    .'' @ pad_right 12 k @ '' '' @ show_nat v)) (topN m 10))"

definition disk_line :: "(real \<Rightarrow> real) \<Rightarrow> fs \<Rightarrow> Writer \<Rightarrow> go_error + string" where
  "disk_line fl fs w =
     (case os_stat fs (w_Path w) of
        StatFile n \<Rightarrow>
          (let size = sint (of_nat n :: 64 word);
               perRec = (if 0 < w_Total w then f64_div fl (fl (real_of_int size)) (fl (real (unat (w_Total w)))) else Finite 0)
           in map_sum id (\<lambda>hb. fprintln (newline # ''  On disk: '' @ hb @ '' ('' @ fmt_f 3 perRec @ '' bytes / queried IP)''))
                (humanBytes fl size))
      | _ \<Rightarrow> Inr [])"

text \<open>
  \<open>PrintSummary\<close>, \<open>elapsed\<close> nanoseconds after the writer was created. The path names a file: what
  \<open>os.Stat\<close> reports as the size of a directory is up to the system.
\<close>

definition summary_table :: "(real \<Rightarrow> real) \<Rightarrow> nat \<Rightarrow> Writer \<Rightarrow> string" where
  "summary_table fl elapsed w =
     fprintln (''  Crawled'' @ [tab] @ show_word (w_Total w) @ '' IPs in '' @
       duration_string (duration_round 1000000 elapsed) @ '' ('' @ fmt_f 0 (crawl_rate fl (w_Total w) elapsed) @ ''/s)'') @
     status_rows fl w @
     (if 0 < w_FCChecked w then
        fprintln (''  FCrDNS match'' @ [tab] @ show_word (w_FCMatch w) @ '' / '' @ show_word (w_FCChecked w) @ [tab] @
          upct fl (w_FCMatch w) (w_FCChecked w))
      else [])"

definition PrintSummary :: "(real \<Rightarrow> real) \<Rightarrow> fs \<Rightarrow> nat \<Rightarrow> Writer \<Rightarrow> go_error + string" where
  "PrintSummary fl fs elapsed w =
     map_sum id (\<lambda>disk.
       fprintln [] @ rule_line 68 @ fprintln (''  rDNS-Crawler '' @ em_dash @ '' results (.rdnsz v2)'') @ rule_line 68 @
       tabwrite (summary_table fl elapsed w) @ disk @
       (if w_tldCounts w \<noteq> [] then fprintln (newline # ''  Top TLDs (of PTR hostnames):'') @ tld_rows (w_tldCounts w) else []) @
       fprintln (newline # ''  Output: '' @ w_Path w) @ rule_line 68)
     (disk_line fl fs w)"

section \<open>The JSONL backend\<close>

definition out_pct :: "(real \<Rightarrow> real) \<Rightarrow> u64 \<Rightarrow> u64 \<Rightarrow> string" where
  "out_pct fl n totl = (if totl = 0 then ''0.0%'' else fmt_f 1 (percent_of fl n totl) @ ''%'')"

definition out_status_rows :: "(real \<Rightarrow> real) \<Rightarrow> out_Writer \<Rightarrow> string" where
  "out_status_rows fl w = concat (map (\<lambda>c.
     if ow_byCode w ! unat c = 0 then []
     else fprintln (''  '' @ StatusString c @ [tab] @ show_word (ow_byCode w ! unat c) @ [tab] @
            out_pct fl (ow_byCode w ! unat c) (ow_Total w)))
     (map of_nat [0..<NumStatusCodes]))"

definition out_tld_rows :: "counter \<Rightarrow> string" where
  "out_tld_rows m =
     concat (map (\<lambda>(k, v). fprintln (''    .'' @ pad_right 12 k @ '' '' @ show_nat v)) (output_topN m 10))"

definition sample_rows :: "Record list \<Rightarrow> string" where
  "sample_rows recs = concat (map (\<lambda>s.
     let fc = (case r_FCrDNS s of None \<Rightarrow> ''-'' | Some b \<Rightarrow> if b then ''match'' else ''no'')
     in fprintln (''    '' @ r_IP s @ [tab] @ go_join (r_PTR s) '', '' @ [tab] @ fc)) recs)"

definition out_summary_table :: "(real \<Rightarrow> real) \<Rightarrow> nat \<Rightarrow> out_Writer \<Rightarrow> string" where
  "out_summary_table fl elapsed w =
     fprintln (''  Crawled'' @ [tab] @ show_word (ow_Total w) @ '' IPs in '' @
       duration_string (duration_round 1000000 elapsed) @ '' ('' @ fmt_f 0 (crawl_rate fl (ow_Total w) elapsed) @ ''/s)'') @
     out_status_rows fl w @
     (if 0 < ow_FCChecked w then
        fprintln (''  FCrDNS match'' @ [tab] @ show_word (ow_FCMatch w) @ '' / '' @ show_word (ow_FCChecked w) @ '' checked'' @ [tab] @
          out_pct fl (ow_FCMatch w) (ow_FCChecked w))
      else [])"

definition output_PrintSummary :: "(real \<Rightarrow> real) \<Rightarrow> nat \<Rightarrow> out_Writer \<Rightarrow> string" where
  "output_PrintSummary fl elapsed w =
     fprintln [] @ rule_line 68 @ fprintln (''  rDNS-Crawler '' @ em_dash @ '' results'') @ rule_line 68 @
     tabwrite (out_summary_table fl elapsed w) @
     (if ow_tldCounts w \<noteq> [] then fprintln (newline # ''  Top TLDs (of PTR hostnames):'') @ out_tld_rows (ow_tldCounts w) else []) @
     (if ow_samples w \<noteq> [] then
        fprintln (newline # ''  Sample PTR records:'') @
        tabwrite (fprintln (''    IP'' @ [tab] @ ''PTR'' @ [tab] @ ''FCrDNS'') @ sample_rows (ow_samples w))
      else []) @
     fprintln (newline # ''  Output: '' @ ow_Path w) @ rule_line 68"

section \<open>Sizes\<close>

lemma div_1024_bounds: "1024 * (m div 1024) \<le> m" "m + 1 \<le> 1024 * (m div 1024 + 1)" "1024 \<le> m \<Longrightarrow> 0 < m div 1024" for m :: int
  by simp_all

lemma human_loop_spec:
  assumes "0 < m" "0 < dv" "m * dv \<le> n" "n < (m + 1) * dv" "human_loop m dv ex = (dv', ex')"
  shows "dv' = dv * 1024 ^ (ex' - ex) \<and> ex \<le> ex' \<and> dv' \<le> n \<and> n < 1024 * dv'"
  using assms
proof (induction m dv ex rule: human_loop.induct)
  case (1 m dv ex)
  show ?case
  proof (cases "1024 \<le> m")
    case False
    then have "dv' = dv" "ex' = ex" using 1(6) by (subst (asm) human_loop.simps, simp)+
    moreover have "(m + 1) * dv \<le> 1024 * dv" "1 * dv \<le> m * dv" using False 1(2,3) by (intro mult_right_mono; simp)+
    ultimately show ?thesis using 1(4,5) by auto
  next
    case True
    have q: "m sdiv 1024 = m div 1024" using True by (simp add: sdiv_1024)
    have pos: "0 < m div 1024" using True by (rule div_1024_bounds)
    have r: "human_loop (m div 1024) (dv * 1024) (ex + 1) = (dv', ex')"
      using 1(6) True q by (subst (asm) human_loop.simps) simp
    note b = div_1024_bounds [of m]
    then have "1024 * (m div 1024) * dv \<le> m * dv" "(m + 1) * dv \<le> 1024 * (m div 1024 + 1) * dv"
      using 1(3) by (intro mult_right_mono; simp)+
    moreover have "m div 1024 * (dv * 1024) = 1024 * (m div 1024) * dv"
      "(m div 1024 + 1) * (dv * 1024) = 1024 * (m div 1024 + 1) * dv" by simp_all
    ultimately have "m div 1024 * (dv * 1024) \<le> n" "n < (m div 1024 + 1) * (dv * 1024)" using 1(4,5) by linarith+
    then have "dv' = dv * 1024 * 1024 ^ (ex' - (ex + 1)) \<and> ex + 1 \<le> ex' \<and> dv' \<le> n \<and> n < 1024 * dv'"
      using 1(1) [OF True, unfolded q, OF pos _ _ _ r] 1(3) by simp
    moreover from this have "ex' - ex = Suc (ex' - (ex + 1))" by auto
    ultimately show ?thesis by simp
  qed
qed


lemma human_loop_bound: "n < 2 ^ 63 \<Longrightarrow> 1024 ^ (k + 1) \<le> n \<Longrightarrow> k < 6" for n :: int
proof (rule ccontr)
  assume a: "n < 2 ^ 63" "1024 ^ (k + 1) \<le> n" "\<not> k < 6"
  have "(1024 :: int) ^ 7 \<le> 1024 ^ (k + 1)" using a(3) by (intro power_increasing) auto
  then show False using a(1,2) by simp
qed

lemma human_bytes_spec:
  assumes "0 \<le> n" and "n < 2 ^ 63"
  shows "if n < 1024 then humanBytes fl n = Inr (show_nat (nat n) @ '' B'')
     else \<exists>ex<6. 1024 ^ (ex + 1) \<le> n \<and> n < 1024 ^ (ex + 2) \<and>
       humanBytes fl n = Inr (fmt_f 2 (f64_div fl (fl (real_of_int n)) (fl (1024 ^ (ex + 1)))) @ '' '' @ [''KMGTPE'' ! ex] @ ''B'')"
proof (cases "n < 1024")
  case True
  then show ?thesis using assms(1) by (simp add: humanBytes_def show_int_def)
next
  case False
  obtain dv ex where loop: "human_loop (n sdiv 1024) 1024 0 = (dv, ex)" by fastforce
  have q: "n sdiv 1024 = n div 1024" using False by (simp add: sdiv_1024)
  have "0 < n div 1024" "n div 1024 * 1024 \<le> n" "n < (n div 1024 + 1) * 1024" using False div_1024_bounds [of n] by linarith+
  from human_loop_spec [OF this(1) _ this(2,3) loop [unfolded q]]
  have dv: "dv = 1024 ^ (ex + 1)" "dv \<le> n" "n < 1024 * dv" by simp_all
  have "ex < 6" using human_loop_bound [OF assms(2)] dv(1,2) by simp
  then show ?thesis using False loop dv by (simp add: humanBytes_def exI [of _ ex])
qed

text \<open>
  C23. No file size breaks the summary. For every size that fits in an \<open>int64\<close>, \<open>humanBytes\<close> stays
  inside its string of unit letters (it never panics) and its divisor does not overflow: the unit
  it chooses is the largest power of 1024 that is not above the size, so the number printed before
  the unit is between 1 and 1024.
\<close>
theorem human_bytes_unit:
  assumes "0 \<le> n" and "n < 2 ^ 63"
  shows "if n < 1024 then humanBytes fl n = Inr (show_nat (nat n) @ '' B'')
     else \<exists>ex<6. 1024 ^ (ex + 1) \<le> n \<and> n < 1024 ^ (ex + 2) \<and>
       humanBytes fl n = Inr (fmt_f 2 (f64_div fl (fl (real_of_int n)) (fl (1024 ^ (ex + 1)))) @ '' '' @ [''KMGTPE'' ! ex] @ ''B'')"
  using human_bytes_spec [OF assms] .

section \<open>What the summaries say\<close>

text \<open>File sizes are \<open>int64\<close> values, so the summary is always printed.\<close>

lemma PrintSummary_total: "\<exists>disk. disk_line fl fs w = Inr disk" "\<exists>txt. PrintSummary fl fs elapsed w = Inr txt"
proof -
  have "\<exists>hb. humanBytes fl n = Inr hb" if "n < 2 ^ 63" for n
  proof (cases "n < 1024")
    case True
    then show ?thesis by (simp add: humanBytes_def)
  next
    case False
    then show ?thesis using human_bytes_spec [of n fl] that by (auto split: if_splits)
  qed
  moreover have "sint (of_nat n :: 64 word) < 2 ^ 63" for n
    using sint_less [of "of_nat n :: 64 word"] by simp
  ultimately have h: "\<exists>hb. humanBytes fl (sint (of_nat n :: 64 word)) = Inr hb" for n by blast
  show d: "\<exists>disk. disk_line fl fs w = Inr disk"
  proof (cases "os_stat fs (w_Path w)")
    case (StatFile n)
    then show ?thesis using h [of n] by (auto simp: disk_line_def Let_def)
  qed (simp_all add: disk_line_def)
  then show "\<exists>txt. PrintSummary fl fs elapsed w = Inr txt" by (auto simp: PrintSummary_def)
qed

definition crawled_row :: "(real \<Rightarrow> real) \<Rightarrow> nat \<Rightarrow> Record list \<Rightarrow> string" where
  "crawled_row fl elapsed recs =
     fprintln (''  Crawled'' @ [tab] @ show_nat (length recs) @ '' IPs in '' @
       duration_string (duration_round 1000000 elapsed) @ '' ('' @ fmt_f 0 (crawl_rate fl (of_nat (length recs)) elapsed) @ ''/s)'')"

definition exact_rows :: "(real \<Rightarrow> real) \<Rightarrow> Record list \<Rightarrow> string" where
  "exact_rows fl recs = concat (map (\<lambda>c.
     if status_count c recs = 0 then []
     else fprintln (''  '' @ StatusString (of_nat c) @ [tab] @ show_nat (status_count c recs) @ [tab] @
            upct fl (of_nat (status_count c recs)) (of_nat (length recs)))) [0..<NumStatusCodes])"

lemma status_count_le: "status_count c recs \<le> length recs"
  by (simp add: status_count_def)

lemma of_nat_u64_eq_0: "n < 2 ^ 64 \<Longrightarrow> (of_nat n :: u64) = 0 \<longleftrightarrow> n = 0"
  using unat_of_nat_u64 [of n] by (auto simp: word_unat_eq_iff)

definition fc_row :: "(real \<Rightarrow> real) \<Rightarrow> string \<Rightarrow> Record list \<Rightarrow> string" where
  "fc_row fl checked recs =
     (let n = length (filter (\<lambda>r. r_FCrDNS r \<noteq> None) recs); m = length (filter (\<lambda>r. r_FCrDNS r = Some True) recs)
      in if n = 0 then []
         else fprintln (''  FCrDNS match'' @ [tab] @ show_nat m @ '' / '' @ show_nat n @ checked @ [tab] @ upct fl (of_nat m) (of_nat n)))"

definition tld_section :: "env \<Rightarrow> Record list \<Rightarrow> string" where
  "tld_section E recs =
     (let m = fold (\<lambda>r m. if HasPTR (r_Status r) then fold (\<lambda>n. bump (tldOf E n)) (r_PTR r) m else m) recs []
      in if m = [] then [] else fprintln (newline # ''  Top TLDs (of PTR hostnames):'') @ tld_rows m)"

definition sample_section :: "Record list \<Rightarrow> string" where
  "sample_section recs =
     (let ss = take maxSamples (filter (\<lambda>r. HasPTR (r_Status r)) recs)
      in if ss = [] then []
         else fprintln (newline # ''  Sample PTR records:'') @
           tabwrite (fprintln (''    IP'' @ [tab] @ ''PTR'' @ [tab] @ ''FCrDNS'') @ sample_rows ss))"

lemma out_pct_upct: "out_pct = upct"
  by (simp add: fun_eq_iff out_pct_def upct_def)

lemma out_tld_rows_eq: "out_tld_rows m = tld_rows m"
  by (simp add: out_tld_rows_def tld_rows_def output_topN_def topN_def Let_def)

lemma summary_exact:
  assumes recs: "length recs < 2 ^ 64"
    and w: "w_Total w = of_nat (length recs)" "\<And>k. k < 8 \<Longrightarrow> w_counts w ! k = of_nat (status_count k recs)"
      "w_FCChecked w = of_nat (length (filter (\<lambda>r. r_FCrDNS r \<noteq> None) recs))"
      "w_FCMatch w = of_nat (length (filter (\<lambda>r. r_FCrDNS r = Some True) recs))"
  shows "summary_table fl elapsed w = crawled_row fl elapsed recs @ exact_rows fl recs @ fc_row fl [] recs"
proof -
  have c: "status_count k recs < 2 ^ 64" for k using status_count_le [of k recs] recs by linarith
  have f: "length (filter P recs) < 2 ^ 64" for P using length_filter_le [of P recs] recs by linarith
  have "status_rows fl w = exact_rows fl recs"
    unfolding status_rows_def exact_rows_def Let_def map_map
    using c w(1,2) by (intro arg_cong [where f = concat] map_cong)
      (auto simp: NumStatusCodes_def unat_of_nat of_nat_u64_eq_0 [OF c] show_word_def)
  moreover have "(if 0 < w_FCChecked w then
        fprintln (''  FCrDNS match'' @ [tab] @ show_word (w_FCMatch w) @ '' / '' @ show_word (w_FCChecked w) @ [tab] @
          upct fl (w_FCMatch w) (w_FCChecked w)) else []) = fc_row fl [] recs"
    unfolding w(3,4) fc_row_def Let_def word_neq_0_conv [symmetric] of_nat_u64_eq_0 [OF f] show_word_def unat_of_nat_u64 [OF f] by simp
  moreover have "show_word (w_Total w) = show_nat (length recs)" using recs by (simp add: w(1) show_word_def unat_of_nat_u64)
  ultimately show ?thesis unfolding summary_table_def crawled_row_def w(1) by simp
qed

lemma out_summary_exact:
  assumes recs: "length recs < 2 ^ 64"
    and w: "ow_Total w = of_nat (length recs)" "\<And>k. k < 8 \<Longrightarrow> ow_byCode w ! k = of_nat (status_count k recs)"
      "ow_FCChecked w = of_nat (length (filter (\<lambda>r. r_FCrDNS r \<noteq> None) recs))"
      "ow_FCMatch w = of_nat (length (filter (\<lambda>r. r_FCrDNS r = Some True) recs))"
  shows "out_summary_table fl elapsed w = crawled_row fl elapsed recs @ exact_rows fl recs @ fc_row fl '' checked'' recs"
proof -
  have c: "status_count k recs < 2 ^ 64" for k using status_count_le [of k recs] recs by linarith
  have f: "length (filter P recs) < 2 ^ 64" for P using length_filter_le [of P recs] recs by linarith
  have "out_status_rows fl w = exact_rows fl recs"
    unfolding out_status_rows_def exact_rows_def map_map out_pct_upct
    using c w(1,2) by (intro arg_cong [where f = concat] map_cong)
      (auto simp: NumStatusCodes_def unat_of_nat of_nat_u64_eq_0 [OF c] show_word_def)
  moreover have "(if 0 < ow_FCChecked w then
        fprintln (''  FCrDNS match'' @ [tab] @ show_word (ow_FCMatch w) @ '' / '' @ show_word (ow_FCChecked w) @ '' checked'' @ [tab] @
          out_pct fl (ow_FCMatch w) (ow_FCChecked w)) else []) = fc_row fl '' checked'' recs"
    unfolding w(3,4) fc_row_def Let_def word_neq_0_conv [symmetric] of_nat_u64_eq_0 [OF f] show_word_def unat_of_nat_u64 [OF f] out_pct_upct by simp
  moreover have "show_word (ow_Total w) = show_nat (length recs)" using recs by (simp add: w(1) show_word_def unat_of_nat_u64)
  ultimately show ?thesis unfolding out_summary_table_def crawled_row_def w(1) by simp
qed

text \<open>
  C18. Both backends print the true figures. A fresh writer of either kind that has drained a results
  channel prints the number of records, one row with the exact count for every status that occurred
  and no other row, the forward-confirmation figures, and the same table of top-level domains;
  the JSONL report adds the first records with names, the compact one the size on disk.
\<close>
theorem summaries_exact:
  assumes w: "output_New fs path now = Inr (fs1, w)" and v: "NewWriter fs' path' shards sid now' = Inr (fs2, v)"
    and recs: "length recs < 2 ^ 64"
  shows "\<exists>disk. PrintSummary fl fs3 elapsed (Consume E recs v) = Inr (
       fprintln [] @ rule_line 68 @ fprintln (''  rDNS-Crawler '' @ em_dash @ '' results (.rdnsz v2)'') @ rule_line 68 @
       tabwrite (crawled_row fl elapsed recs @ exact_rows fl recs @ fc_row fl [] recs) @ disk @
       tld_section E recs @ fprintln (newline # ''  Output: '' @ path') @ rule_line 68) \<and>
     output_PrintSummary fl elapsed (output_Consume E recs w) =
       fprintln [] @ rule_line 68 @ fprintln (''  rDNS-Crawler '' @ em_dash @ '' results'') @ rule_line 68 @
       tabwrite (crawled_row fl elapsed recs @ exact_rows fl recs @ fc_row fl '' checked'' recs) @
       tld_section E recs @ sample_section recs @ fprintln (newline # ''  Output: '' @ path) @ rule_line 68"
proof -
  have w: "ow_Total w = 0" "ow_byCode w = replicate 8 0" "ow_FCChecked w = 0" "ow_FCMatch w = 0" "ow_tldCounts w = []"
    "ow_samples w = []" "ow_Path w = path"
    using assms(1) by (auto simp: output_New_def NumStatusCodes_def split: sum.splits)
  have v: "w_Total v = 0" "w_counts v = replicate 8 0" "w_FCChecked v = 0" "w_FCMatch v = 0" "w_tldCounts v = []" "w_Path v = path'"
    using assms(2) by (auto simp: NewWriter_def newWriter_def NumStatusCodes_def Let_def split: sum.splits)
  have ow: "out_summary_table fl elapsed (output_Consume E recs w) = crawled_row fl elapsed recs @ exact_rows fl recs @ fc_row fl '' checked'' recs"
    using jsonl.total_fold [of E recs w] jsonl.by_code_fold [of w _ E recs] jsonl.fc_fold [of E recs w] w
    by (intro out_summary_exact recs) (simp_all add: output_Consume_def)
  have sw: "summary_table fl elapsed (Consume E recs v) = crawled_row fl elapsed recs @ exact_rows fl recs @ fc_row fl [] recs"
    using store_sink.total_fold [of E recs v] store_sink.by_code_fold [of v _ E recs] store_sink.fc_fold [of E recs v] v
    by (intro summary_exact recs) (simp_all add: Consume_def)
  obtain disk where "disk_line fl fs3 (Consume E recs v) = Inr disk" using PrintSummary_total(1) by blast
  moreover have "w_Path (Consume E recs v) = path'" using Consume_frame v(6) by simp
  ultimately show ?thesis
    using w v ow sw samples_fold [of E recs w] output_Consume_Path [of E recs w]
    unfolding PrintSummary_def output_PrintSummary_def tld_section_def sample_section_def Let_def out_tld_rows_eq
    by (simp add: tld_fold store_tld_fold)
qed

section \<open>Witnesses\<close>

lemma exact_rows_example: "exact_rows id [rec_example] = fprintln (''  has_ptr'' @ [tab] @ ''1'' @ [tab] @ ''100.0%'')"
proof -
  have c: "status_count k [rec_example] = (if k = 0 then 1 else 0)" for k
    by (simp add: rec_example_def Code_def statusToCode_def code_defs)
  have "round_half_even 1000 = 1000" using round_half_even_of_int [of 1000] by (simp del: round_half_even_of_int)
  then have "upct id 1 1 = fixed_digits 1 1000 @ ''%''"
    by (simp add: upct_def percent_of_def f64_div_def)
  moreover have "fixed_digits 1 1000 = ''100.0''" by code_simp
  moreover have "StatusString 0 = ''has_ptr''" "show_nat 1 = ''1''" by code_simp+
  ultimately show ?thesis unfolding exact_rows_def c by (simp add: NumStatusCodes_def upt_rec)
qed

theorem human_bytes_unit_witness:
  "\<exists>ex<6. (1024 :: int) ^ (ex + 1) \<le> 5368709120 \<and> (5368709120 :: int) < 1024 ^ (ex + 2) \<and>
     humanBytes id 5368709120 = Inr (fmt_f 2 (f64_div id 5368709120 (1024 ^ (ex + 1))) @ '' '' @ [''KMGTPE'' ! ex] @ ''B'')"
  using human_bytes_unit [of 5368709120 id] by simp

theorem summaries_exact_witness:
  "\<exists>fs1 w disk. output_New fs_example ''d/x.jsonl'' 5 = Inr (fs1, w) \<and>
     PrintSummary id fs1 0 (Consume test_env [rec_example] w_example) = Inr (
       fprintln [] @ rule_line 68 @ fprintln (''  rDNS-Crawler '' @ em_dash @ '' results (.rdnsz v2)'') @ rule_line 68 @
       tabwrite (crawled_row id 0 [rec_example] @ exact_rows id [rec_example] @ fc_row id [] [rec_example]) @ disk @
       tld_section test_env [rec_example] @ fprintln (newline # ''  Output: '' @ path_example) @ rule_line 68) \<and>
     exact_rows id [rec_example] = fprintln (''  has_ptr'' @ [tab] @ ''1'' @ [tab] @ ''100.0%'')"
proof -
  obtain fs1 w where w: "output_New fs_example ''d/x.jsonl'' 5 = Inr (fs1, w)" using output_New_example by blast
  obtain fs2 where v: "NewWriter fs_example path_example 4 1 99 = Inr (fs2, w_example)" using NewWriter_example by blast
  have "exact_rows id [rec_example] = fprintln (''  has_ptr'' @ [tab] @ ''1'' @ [tab] @ ''100.0%'')"
    by (rule exact_rows_example)
  then show ?thesis
    using summaries_exact [OF w v, of "[rec_example]" id fs1 0 test_env] w by auto
qed

end
