(* ===== verification/Crawler_Progress.thy ===== *)
theory Crawler_Progress
  imports Crawler Summary_Report
begin

text \<open>
  The live progress lines of a crawl (\<open>printProgress\<close> in \<^verbatim>\<open>src/internal/crawler/crawler.go\<close>). The printer
  runs beside the workers and loads the counters one by one, so the pool may take any number of steps
  between two loads of one line, as it may between the two additions of \<open>tally\<close>.
\<close>

section \<open>The progress lines\<close>

definition code_count :: "status_code \<Rightarrow> Crawler \<Rightarrow> u64" where
  "code_count k c = cw_byCode c ! unat k"

text \<open>The atomic loads of a line, in order.\<close>

definition progress_loads :: "(Crawler \<Rightarrow> u64) list" where
  "progress_loads =
     [cw_processed, code_count CodeHasPTR, code_count CodeNoErrorEmpty, code_count CodeNXDomain,
      code_count CodeServFail, code_count CodeRefused, code_count CodeTimeout, code_count CodeNetError]"

text \<open>A sequence of loads while the pool runs from one state to another.\<close>

inductive loads :: "dns_lib \<Rightarrow> pool \<Rightarrow> (Crawler \<Rightarrow> u64) list \<Rightarrow> u64 list \<Rightarrow> pool \<Rightarrow> bool" for D where
  no_load: "(pool_step D)\<^sup>*\<^sup>* s s' \<Longrightarrow> loads D s [] [] s'"
| load: "(pool_step D)\<^sup>*\<^sup>* s s1 \<Longrightarrow> loads D s1 fs vs s' \<Longrightarrow> loads D s (f # fs) (f (pl_crawler s1) # vs) s'"

inductive_cases loads_NilE: "loads D s [] vs s'"
inductive_cases loads_ConsE: "loads D s (f # fs) vs s'"

text \<open>The counters are \<open>int64\<close>.\<close>

definition show_i64 :: "u64 \<Rightarrow> string" where
  "show_i64 w = show_int (sint w)"

definition progress_rate :: "(real \<Rightarrow> real) \<Rightarrow> u64 \<Rightarrow> nat \<Rightarrow> float64" where
  "progress_rate fl done_cnt elapsed =
     (let secs = duration_seconds fl elapsed
      in if 0 < secs then f64_div fl (fl (real_of_int (sint done_cnt))) secs else Finite 0)"

definition progress_text :: "(real \<Rightarrow> real) \<Rightarrow> nat \<Rightarrow> u64 list \<Rightarrow> string" where
  "progress_text fl elapsed vs =
     (let done_cnt = vs ! 0; hits = vs ! 1; empty = vs ! 2; nx = vs ! 3; fails = vs ! 4 + vs ! 5 + vs ! 6 + vs ! 7
      in ''[rdns] '' @ show_i64 done_cnt @ '' done | '' @ show_i64 hits @ '' ptr | '' @ show_i64 empty @ '' empty | '' @
         show_i64 nx @ '' nxdomain | '' @ show_i64 fails @ '' fail | '' @ fmt_f 0 (progress_rate fl done_cnt elapsed) @ ''/s'')"

definition carriage_return :: char where "carriage_return = CHR 0x0D"

definition print_line :: "(real \<Rightarrow> real) \<Rightarrow> bool \<Rightarrow> nat \<times> u64 list \<Rightarrow> string" where
  "print_line fl isTTY l =
     (let line = progress_text fl (fst l) (snd l)
      in if isTTY then carriage_return # line @ ''   '' else fprintln line)"

text \<open>The interval between two lines, in nanoseconds: never below 30 seconds off a terminal.\<close>

definition progress_interval :: "Config \<Rightarrow> bool \<Rightarrow> int" where
  "progress_interval cfg isTTY =
     (if \<not> isTTY \<and> cf_ProgressInt cfg < 30000000000 then 30000000000 else cf_ProgressInt cfg)"

text \<open>
  A run of the printer beside the pool, with the time and the figures of each line: a line per tick
  and one after the workers have returned, before the output channel is closed.
\<close>

inductive printProgress :: "dns_lib \<Rightarrow> pool \<Rightarrow> (nat \<times> u64 list) list \<Rightarrow> pool \<Rightarrow> bool" for D where
  tick: "loads D s progress_loads vs s1 \<Longrightarrow> printProgress D s1 ls s' \<Longrightarrow> printProgress D s ((elapsed, vs) # ls) s'"
| stop: "(pool_step D)\<^sup>*\<^sup>* s s1 \<Longrightarrow> list_all ((=) W_Exit) (pl_workers s1) \<Longrightarrow> loads D s1 progress_loads vs s' \<Longrightarrow>
     \<not> pl_closed s' \<Longrightarrow> printProgress D s [(elapsed, vs)] s'"

definition progress_output :: "(real \<Rightarrow> real) \<Rightarrow> bool \<Rightarrow> (nat \<times> u64 list) list \<Rightarrow> string" where
  "progress_output fl isTTY ls = concat (map (print_line fl isTTY) ls) @ (if isTTY then [newline] else [])"

section \<open>The counters only grow\<close>

lemma statuses_codes: "st \<in> set codeToStatus - {StatusLameDelegation} \<Longrightarrow> unat (Code st) < 7"
  by (auto simp: codeToStatus_def status_defs Code_def statusToCode_def code_defs)

text \<open>Addresses received whose processing is not counted yet.\<close>

definition todo :: "worker \<Rightarrow> nat" where
  "todo w = (case w of W_Token _ \<Rightarrow> 1 | W_Got _ \<Rightarrow> 1 | W_Tally _ \<Rightarrow> 1 | _ \<Rightarrow> 0)"

text \<open>The counter of processed addresses is ahead of the status counters by the workers between the two.\<close>

definition tally_inv :: "string list \<Rightarrow> pool \<Rightarrow> bool" where
  "tally_inv ips s \<longleftrightarrow>
     unat (cw_processed (pl_crawler s)) + length (pl_in s) + total_of todo s \<le> length ips \<and>
     unat (cw_processed (pl_crawler s)) = (\<Sum>k<7. unat (cw_byCode (pl_crawler s) ! k)) + total_of coding s"

definition counters_le :: "Crawler \<Rightarrow> Crawler \<Rightarrow> bool" where
  "counters_le c c' \<longleftrightarrow> unat (cw_processed c) \<le> unat (cw_processed c') \<and>
     (\<forall>k<8. unat (cw_byCode c ! k) \<le> unat (cw_byCode c' ! k))"

lemma tally_worker:
  assumes "tally_inv ips s" and w: "worker_at s i w" and "pl_workers s1 = pl_workers s"
    and "cw_processed (pl_crawler s1) = cw_processed (pl_crawler s)" "cw_byCode (pl_crawler s1) = cw_byCode (pl_crawler s)"
    and "length (pl_in s1) + todo w' \<le> length (pl_in s) + todo w" and "coding w' = coding w"
  shows "tally_inv ips (set_worker i w' s1) \<and> counters_le (pl_crawler s) (pl_crawler (set_worker i w' s1))"
  using assms total_of_set_worker [OF assms(3) w, of todo w'] total_of_set_worker [OF assms(3) w, of coding w']
  by (simp add: tally_inv_def counters_le_def)

lemma tally_other:
  assumes "tally_inv ips s" and "pl_workers s' = pl_workers s" "pl_crawler s' = pl_crawler s" "length (pl_in s') \<le> length (pl_in s)"
  shows "tally_inv ips s' \<and> counters_le (pl_crawler s) (pl_crawler s')"
  using assms by (simp add: tally_inv_def counters_le_def total_of_def)

lemma unat_Suc_u64: "unat (w :: u64) + 1 < 2 ^ 64 \<Longrightarrow> unat (w + 1) = unat w + 1"
  using unat_of_nat_u64 [of "unat w + 1"] by (simp add: add.commute)

lemma step_tally:
  assumes "pool_step D s s'" and inv: "counted cfg s" "tally_inv ips s" and len: "length ips < 2 ^ 64"
  shows "tally_inv ips s' \<and> counters_le (pl_crawler s) (pl_crawler s')"
  using assms(1)
proof cases
  case (process i ip oth latency ts n rec c n')
  obtain r where "c = (pl_crawler s)\<lparr>cw_res := r\<rparr>" using process_out [OF process(3)] inv(1) by (auto simp: counted_def)
  then show ?thesis unfolding process(1)
    by (intro tally_worker [OF inv(2) process(2)]) (simp_all add: todo_def coding_def)
next
  case (processed i rec)
  let ?s1 = "s\<lparr>pl_crawler := tally_processed (pl_crawler s)\<rparr>"
  note t = total_of_set_worker [OF _ processed(2), of ?s1 _ "W_Code rec", folded processed(1)]
  have sums: "total_of todo s = total_of todo s' + 1" "total_of coding s' = total_of coding s + 1"
    using t [of todo] t [of coding] by (simp_all add: todo_def coding_def)
  then have "unat (cw_processed (pl_crawler s) + 1) = unat (cw_processed (pl_crawler s)) + 1"
    using inv(2) len by (intro unat_Suc_u64) (simp add: tally_inv_def)
  then show ?thesis using inv(2) sums processed(1) by (simp add: tally_inv_def counters_le_def tally_processed_def)
next
  case (coded i rec)
  let ?c = "pl_crawler s" and ?j = "unat (Code (r_Status rec))"
  let ?s1 = "s\<lparr>pl_crawler := tally_code (r_Status rec) ?c\<rparr>"
  note t = total_of_set_worker [OF _ coded(2), of ?s1 _ "W_Send rec", folded coded(1)]
  have sums: "total_of todo s' = total_of todo s" "total_of coding s = total_of coding s' + 1"
    "total_of tallying s = total_of tallying s' + {#rec#}"
    using t [of todo] t [of coding] t [of tallying] by (simp_all add: todo_def coding_def tallying_def)
  have "crawl_rec cfg rec" "length (cw_byCode ?c) = 8" using inv(1) sums(3) by (auto simp: counted_def)
  then have j: "?j < 7" "?j < length (cw_byCode ?c)" using statuses_codes Code_less by (simp_all add: crawl_rec_def)
  have "unat (cw_byCode ?c ! ?j) \<le> (\<Sum>k<7. unat (cw_byCode ?c ! k))"
    using j(1) by (intro member_le_sum) simp_all
  then have u: "unat (cw_byCode ?c ! ?j + 1) = unat (cw_byCode ?c ! ?j) + 1"
    using inv(2) sums(2) len by (intro unat_Suc_u64) (simp add: tally_inv_def)
  have c': "pl_crawler s' = tally_code (r_Status rec) ?c" by (simp add: coded(1))
  have cnt: "unat (cw_byCode (pl_crawler s') ! k) = unat (cw_byCode ?c ! k) + (if k = ?j then 1 else 0)" for k
    using u j(2) by (cases "k = ?j") (simp_all add: c' tally_code_def)
  have "(\<Sum>k<7. unat (cw_byCode (pl_crawler s') ! k)) = (\<Sum>k<7. unat (cw_byCode ?c ! k)) + 1"
    using j(1) by (simp add: cnt sum.distrib)
  moreover have "cw_processed (pl_crawler s') = cw_processed ?c" "pl_in s' = pl_in s" by (simp_all add: c' tally_code_def coded(1))
  ultimately show ?thesis using inv(2) sums by (simp add: tally_inv_def counters_le_def cnt)
next
  case (receive i ip rest)
  show ?thesis unfolding receive(1)
    by (rule tally_worker [OF inv(2) receive(2)]) (simp_all add: receive(3) todo_def coding_def)
next
  case (input_closed i)
  show ?thesis unfolding input_closed(1) by (rule tally_worker [OF inv(2) input_closed(2)]) (simp_all add: todo_def coding_def)
next
  case (token i ip)
  show ?thesis unfolding token(1) by (rule tally_worker [OF inv(2) token(2)]) (simp_all add: todo_def coding_def)
next
  case (token_cancelled i ip)
  show ?thesis unfolding token_cancelled(1) by (rule tally_worker [OF inv(2) token_cancelled(2)]) (simp_all add: todo_def coding_def)
next
  case (send i rec)
  show ?thesis unfolding send(1) by (rule tally_worker [OF inv(2) send(2)]) (simp_all add: todo_def coding_def)
next
  case (send_cancelled i rec)
  show ?thesis unfolding send_cancelled(1) by (rule tally_worker [OF inv(2) send_cancelled(2)]) (simp_all add: todo_def coding_def)
qed (use tally_other [OF inv(2), of s'] in auto)

lemma counters_le_trans: "counters_le c c' \<Longrightarrow> counters_le c' c'' \<Longrightarrow> counters_le c c''"
  by (auto simp: counters_le_def intro: order_trans)

text \<open>What holds of a reachable state.\<close>

definition live :: "string list \<Rightarrow> Config \<Rightarrow> pool \<Rightarrow> bool" where
  "live ips cfg s \<longleftrightarrow> length ips < 2 ^ 63 \<and> pool_inv ips cfg s \<and> tally_inv ips s"

lemma steps_live:
  assumes "(pool_step D)\<^sup>*\<^sup>* s s'" and "live ips cfg s"
  shows "live ips cfg s' \<and> counters_le (pl_crawler s) (pl_crawler s')"
  using assms
proof (induction rule: rtranclp_induct)
  case base
  then show ?case by (simp add: counters_le_def)
next
  case (step t u)
  then have l: "live ips cfg t" "counters_le (pl_crawler s) (pl_crawler t)" by simp_all
  then have "pool_inv ips cfg u" using pool_run.step_inv step(2) by (auto simp: live_def)
  moreover have "tally_inv ips u \<and> counters_le (pl_crawler t) (pl_crawler u)"
    using l(1) by (intro step_tally [OF step(2), of cfg]) (simp_all add: live_def pool_inv_def)
  ultimately show ?case using l counters_le_trans by (auto simp: live_def)
qed

text \<open>Each figure of a line lies between the values of its counter before and after the line.\<close>

definition grows :: "(Crawler \<Rightarrow> u64) \<Rightarrow> bool" where
  "grows f \<longleftrightarrow> (\<forall>c c'. counters_le c c' \<longrightarrow> unat (f c) \<le> unat (f c'))"

lemma progress_loads_grow: "list_all grows progress_loads"
  by (simp add: progress_loads_def grows_def counters_le_def code_count_def code_defs)

lemma loads_between:
  assumes "loads D s fs vs s'" and "live ips cfg s" and "list_all grows fs"
  shows "(pool_step D)\<^sup>*\<^sup>* s s' \<and> list_all2 (\<lambda>f v. unat (f (pl_crawler s)) \<le> unat v \<and> unat v \<le> unat (f (pl_crawler s'))) fs vs"
  using assms
proof (induction rule: loads.induct)
  case (load s s1 fs vs s' f)
  note l1 = steps_live [OF load.hyps(1) load.prems(1)]
  have ih: "(pool_step D)\<^sup>*\<^sup>* s1 s'"
    "list_all2 (\<lambda>f v. unat (f (pl_crawler s1)) \<le> unat v \<and> unat v \<le> unat (f (pl_crawler s'))) fs vs"
    using load.IH l1 load.prems(2) by simp_all
  have "list_all2 (\<lambda>f v. unat (f (pl_crawler s)) \<le> unat v \<and> unat v \<le> unat (f (pl_crawler s'))) fs vs"
  proof -
    have "unat ((fs ! i) (pl_crawler s)) \<le> unat ((fs ! i) (pl_crawler s1))" if "i < length fs" for i
      using load.prems(2) l1 that by (simp add: list_all_iff grows_def)
    then have "unat ((fs ! i) (pl_crawler s)) \<le> unat (vs ! i) \<and> unat (vs ! i) \<le> unat ((fs ! i) (pl_crawler s'))" if "i < length fs" for i
      using that list_all2_nthD [OF ih(2) that] by fastforce
    then show ?thesis using list_all2_lengthD [OF ih(2)] by (rule list_all2_all_nthI [rotated])
  qed
  then show ?case
    using load.hyps(1) ih(1) load.prems(2) l1 steps_live [OF ih(1)] by (auto simp: grows_def)
qed simp

text \<open>After the workers have returned the counters stand still.\<close>

lemma step_stopped:
  "pool_step D s s' \<Longrightarrow> list_all ((=) W_Exit) (pl_workers s) \<Longrightarrow>
     list_all ((=) W_Exit) (pl_workers s') \<and> pl_crawler s' = pl_crawler s \<and> pl_out s' = pl_out s"
  by (induction rule: pool_step.induct) (auto simp: list_all_iff dest!: worker_at_mem)

lemma steps_stopped:
  "(pool_step D)\<^sup>*\<^sup>* s s' \<Longrightarrow> list_all ((=) W_Exit) (pl_workers s) \<Longrightarrow>
     list_all ((=) W_Exit) (pl_workers s') \<and> pl_crawler s' = pl_crawler s \<and> pl_out s' = pl_out s"
  by (induction rule: rtranclp_induct) (auto dest: step_stopped)

lemma loads_stopped:
  "loads D s fs vs s' \<Longrightarrow> list_all ((=) W_Exit) (pl_workers s) \<Longrightarrow>
     (pool_step D)\<^sup>*\<^sup>* s s' \<and> vs = map (\<lambda>f. f (pl_crawler s)) fs"
  by (induction rule: loads.induct) (auto dest: steps_stopped intro: rtranclp_trans)

lemma coding_le: "total_of coding s \<le> length (pl_workers s)"
proof -
  have "sum_list (map coding ws) \<le> length ws" for ws by (induction ws) (auto simp: coding_def split: worker.split)
  then show ?thesis by (simp add: total_of_def)
qed

lemma sum_7: "(\<Sum>k<(7 :: nat). f k) = f 0 + f 1 + f 2 + f 3 + f 4 + f 5 + (f 6 :: nat)"
  by (simp add: eval_nat_numeral)

text \<open>The figures of one line.\<close>

definition groups :: "u64 list \<Rightarrow> nat" where
  "groups vs = sum_list (map unat (tl vs))"

lemma line_figures:
  assumes "loads D s progress_loads vs s'" and "live ips cfg s"
  shows "length vs = 8 \<and> unat (vs ! 0) \<le> groups vs + nat (cf_Concurrency cfg) \<and> groups vs \<le> length ips"
proof -
  obtain s1 ws where l: "(pool_step D)\<^sup>*\<^sup>* s s1" "vs = cw_processed (pl_crawler s1) # ws" "loads D s1 (tl progress_loads) ws s'"
  proof -
    have "loads D s (cw_processed # tl progress_loads) vs s'" using assms(1) by (simp add: progress_loads_def)
    then show thesis using that by (elim loads_ConsE) blast
  qed
  have l1: "live ips cfg s1" using steps_live [OF l(1) assms(2)] by simp
  have b: "(pool_step D)\<^sup>*\<^sup>* s1 s'"
    "list_all2 (\<lambda>f v. unat (f (pl_crawler s1)) \<le> unat v \<and> unat v \<le> unat (f (pl_crawler s'))) (tl progress_loads) ws"
    using loads_between [OF l(3) l1] progress_loads_grow by (simp_all add: progress_loads_def)
  then obtain a b c d e f g where ws: "ws = [a, b, c, d, e, f, g]"
    by (auto simp: progress_loads_def list_all2_Cons1)
  have "(\<Sum>k<7. unat (cw_byCode (pl_crawler s1) ! k)) \<le> groups vs" "groups vs \<le> (\<Sum>k<7. unat (cw_byCode (pl_crawler s') ! k))"
    using b(2) unfolding sum_7 by (simp_all add: ws l(2) groups_def progress_loads_def code_count_def code_defs)
  moreover have "total_of coding s1 \<le> nat (cf_Concurrency cfg)" using coding_le [of s1] l1 by (simp add: live_def pool_inv_def)
  moreover have "tally_inv ips s1" "tally_inv ips s'" using l1 steps_live [OF b(1) l1] by (simp_all add: live_def)
  ultimately show ?thesis by (simp add: tally_inv_def l(2) ws)
qed

lemma printProgress_lines:
  assumes "printProgress D s ls s'" and "live ips cfg s"
  shows "(pool_step D)\<^sup>*\<^sup>* s s' \<and>
     (\<forall>l\<in>set ls. length (snd l) = 8 \<and> unat (snd l ! 0) \<le> groups (snd l) + nat (cf_Concurrency cfg) \<and> groups (snd l) \<le> length ips \<and>
        (\<forall>j<8. unat ((progress_loads ! j) (pl_crawler s)) \<le> unat (snd l ! j))) \<and>
     (\<forall>j<8. sorted (map (\<lambda>l. unat (snd l ! j)) ls)) \<and>
     list_all ((=) W_Exit) (pl_workers s') \<and> ls \<noteq> [] \<and> snd (last ls) = map (\<lambda>f. f (pl_crawler s')) progress_loads \<and> \<not> pl_closed s'"
  using assms
proof (induction rule: printProgress.induct)
  case (tick s vs s1 ls s' elapsed)
  note b = loads_between [OF tick.hyps(1) tick.prems progress_loads_grow]
  have l8: "length progress_loads = 8" by (simp add: progress_loads_def)
  have low: "unat ((progress_loads ! j) (pl_crawler s)) \<le> unat (vs ! j) \<and> unat (vs ! j) \<le> unat ((progress_loads ! j) (pl_crawler s1))"
    if "j < 8" for j using b that l8 by (auto simp: list_all2_conv_all_nth)
  have st: "(pool_step D)\<^sup>*\<^sup>* s s1" "live ips cfg s1" using b steps_live [OF _ tick.prems] by auto
  note ih = tick.IH [OF st(2)]
  have up: "unat (vs ! j) \<le> unat (snd l ! j)" if "j < 8" "l \<in> set ls" for j l
    using low [OF that(1)] ih that by (meson order_trans)
  moreover have "unat ((progress_loads ! j) (pl_crawler s)) \<le> unat (snd l ! j)" if "j < 8" "l \<in> set ls" for j l
    using low [OF that(1)] up [OF that] by simp
  ultimately show ?case
    using ih st(1) low line_figures [OF tick.hyps(1) tick.prems] by (auto intro: rtranclp_trans)
next
  case (stop s s1 vs s' elapsed)
  note l1 = steps_live [OF stop.hyps(1) stop.prems]
  have v: "(pool_step D)\<^sup>*\<^sup>* s1 s'" "vs = map (\<lambda>f. f (pl_crawler s1)) progress_loads"
    using loads_stopped [OF stop.hyps(3,2)] by simp_all
  have low: "unat ((progress_loads ! j) (pl_crawler s)) \<le> unat (vs ! j)" if "j < 8" for j
  proof -
    have len: "j < length progress_loads" using that by (simp add: progress_loads_def)
    then have "grows (progress_loads ! j)" using progress_loads_grow by (simp add: list_all_length)
    then show ?thesis using l1 len by (simp add: v(2) grows_def)
  qed
  show ?case
    using line_figures [OF stop.hyps(3)] l1 low steps_stopped [OF v(1) stop.hyps(2)] v stop.hyps(1,4)
    by (auto intro: rtranclp_trans)
qed

lemma show_i64_of_nat: "n < 2 ^ 63 \<Longrightarrow> show_i64 (of_nat n) = show_nat n"
  by (simp add: show_i64_def sint_of_nat_u64 show_int_def)

lemma start_live:
  assumes "resolver_ok res" and "pool_start (crawler_New cfg res) ips = Inr s0" and "length ips < 2 ^ 63"
  shows "live ips (cw_cfg (crawler_New cfg res)) s0"
proof -
  have s0: "pl_crawler s0 = crawler_New cfg res" "pl_in s0 = ips"
    "pl_workers s0 = replicate (nat (cf_Concurrency (cw_cfg (crawler_New cfg res)))) W_Idle"
    using assms(2) by (auto simp: pool_start_def split: if_splits)
  have "total_of todo s0 = 0" "total_of coding s0 = 0"
    by (rule total_of_idle [OF s0(3)], simp add: todo_def coding_def)+
  then have "tally_inv ips s0" by (simp add: tally_inv_def s0(1,2) crawler_New_def Let_def NumStatusCodes_def)
  then show ?thesis using start_inv [OF assms(2,1)] assms(3) by (simp add: live_def)
qed

text \<open>The last line of a run that was not cancelled.\<close>

lemma last_line:
  assumes "resolver_ok res" and "pool_start (crawler_New cfg res) ips = Inr s0" and "(pool_step D)\<^sup>*\<^sup>* s0 s" and "length ips < 2 ^ 63"
    and ex: "list_all ((=) W_Exit) (pl_workers s)" and "\<not> pl_closed s" and "\<not> pl_cancelled s"
  shows "progress_text fl elapsed (map (\<lambda>f. f (pl_crawler s)) progress_loads) =
     ''[rdns] '' @ show_nat (length ips) @ '' done | '' @ show_nat (status_count 0 (pl_out s)) @ '' ptr | '' @
     show_nat (status_count 1 (pl_out s)) @ '' empty | '' @ show_nat (status_count 2 (pl_out s)) @ '' nxdomain | '' @
     show_nat (\<Sum>k\<in>{3..<7}. status_count k (pl_out s)) @ '' fail | '' @
     fmt_f 0 (progress_rate fl (of_nat (length ips)) elapsed) @ ''/s''"
proof -
  let ?n = "\<lambda>k. status_count k (pl_out s)"
  have "(pool_step D)\<^sup>*\<^sup>* s0 (s\<lparr>pl_closed := True\<rparr>)"
    using assms(3) pool_step.finish [OF assms(6,5)] by (rule rtranclp.rtrancl_into_rtrancl)
  from crawl_complete_run [OF assms(1,2) this] assms(7)
  have r: "mset (map r_IP (pl_out s)) = mset ips" "cw_processed (pl_crawler s) = of_nat (length ips)"
    "\<And>k. k < 8 \<Longrightarrow> cw_byCode (pl_crawler s) ! k = of_nat (?n k)" by simp_all
  have "length (pl_out s) = length ips" using r(1) by (metis length_map size_mset)
  moreover have "(\<Sum>k\<in>{0, 1, 2}. status_count k rs) + (\<Sum>k\<in>{3..<7}. status_count k rs) \<le> length rs" for rs
    by (induction rs) (auto simp: eval_nat_numeral)
  from this [of "pl_out s"] have "?n 0 + ?n 1 + ?n 2 + (\<Sum>k\<in>{3..<7}. ?n k) \<le> length (pl_out s)" by simp
  ultimately have b: "?n 0 < 2 ^ 63" "?n 1 < 2 ^ 63" "?n 2 < 2 ^ 63" "(\<Sum>k\<in>{3..<7}. ?n k) < 2 ^ 63"
    using assms(4) by linarith+
  let ?vs = "map (\<lambda>f. f (pl_crawler s)) progress_loads"
  have v: "?vs ! 0 = of_nat (length ips)" "?vs ! 1 = of_nat (?n 0)" "?vs ! 2 = of_nat (?n 1)" "?vs ! 3 = of_nat (?n 2)"
    "?vs ! 4 + ?vs ! 5 + ?vs ! 6 + ?vs ! 7 = of_nat (\<Sum>k\<in>{3..<7}. ?n k)"
    by (simp_all add: progress_loads_def r(2,3) code_count_def code_defs) (simp add: eval_nat_numeral add_ac)
  show ?thesis unfolding progress_text_def Let_def v by (simp only: show_i64_of_nat b assms(4))
qed

text \<open>
  C19. What a live progress line is worth. The counters are raised and loaded one by one while the
  workers run; still, every line of every run shows at most as many addresses as the input has in its four
  groups together (names, empty answers, non-existent names, failures), the number it shows as done
  exceeds their sum by at most the number of workers, and no figure goes down from one line
  to a later one. In the last line, printed when the workers have returned, the figures add up
  exactly; and if the run was not cancelled it shows the length of the input and the exact number of
  records of each group.
\<close>
theorem progress_adds_up:
  assumes "resolver_ok res" and "pool_start (crawler_New cfg res) ips = Inr s0"
    and "printProgress D s0 ls s" and "length ips < 2 ^ 63"
  shows "(\<forall>l\<in>set ls. groups (snd l) \<le> length ips \<and>
       unat (snd l ! 0) \<le> groups (snd l) + nat (cf_Concurrency (cw_cfg (crawler_New cfg res)))) \<and>
     (\<forall>j<8. sorted (map (\<lambda>l. unat (snd l ! j)) ls)) \<and>
     ls \<noteq> [] \<and> unat (snd (last ls) ! 0) = groups (snd (last ls)) \<and>
     (\<not> pl_cancelled s \<longrightarrow>
        progress_text fl elapsed (snd (last ls)) =
          ''[rdns] '' @ show_nat (length ips) @ '' done | '' @ show_nat (status_count 0 (pl_out s)) @ '' ptr | '' @
          show_nat (status_count 1 (pl_out s)) @ '' empty | '' @ show_nat (status_count 2 (pl_out s)) @ '' nxdomain | '' @
          show_nat (\<Sum>k\<in>{3..<7}. status_count k (pl_out s)) @ '' fail | '' @
          fmt_f 0 (progress_rate fl (of_nat (length ips)) elapsed) @ ''/s'')"
proof -
  note l0 = start_live [OF assms(1,2,4)]
  note P = printProgress_lines [OF assms(3) l0]
  then have ex: "list_all ((=) W_Exit) (pl_workers s)" and steps: "(pool_step D)\<^sup>*\<^sup>* s0 s" and open': "\<not> pl_closed s"
    and lst: "snd (last ls) = map (\<lambda>f. f (pl_crawler s)) progress_loads" by blast+
  have "total_of coding s = 0" using ex by (intro total_of_exit) (auto simp: list_all_iff coding_def)
  then have "unat (snd (last ls) ! 0) = groups (snd (last ls))"
    using steps_live [OF steps l0] sum_7 [of "\<lambda>k. unat (cw_byCode (pl_crawler s) ! k)"]
    by (simp add: live_def tally_inv_def lst groups_def progress_loads_def code_count_def code_defs)
  then show ?thesis
    using P last_line [OF assms(1,2) steps assms(4) ex open'] unfolding lst by blast
qed

lemma loads_here: "loads D s fs (map (\<lambda>f. f (pl_crawler s)) fs) s"
  by (induction fs) (auto intro: loads.intros)

theorem progress_adds_up_witness:
  "\<exists>s vs. printProgress dns_example (pool_example [''1.2.3.4'', ''5.6.7.8'']) [(0, vs)] s \<and>
     unat (vs ! 0) = groups vs \<and> prefix ''[rdns] 2 done | '' (progress_text id 0 vs)"
proof -
  obtain s where s: "(pool_step dns_example)\<^sup>*\<^sup>* (pool_example [''1.2.3.4'', ''5.6.7.8'']) s" "list_all ((=) W_Exit) (pl_workers s)"
    "\<not> pl_closed s" "\<not> pl_cancelled s"
    using stopped_run_example by blast
  define vs where "vs = map (\<lambda>f. f (pl_crawler s)) progress_loads"
  have run: "printProgress dns_example (pool_example [''1.2.3.4'', ''5.6.7.8'']) [(0, vs)] s"
    unfolding vs_def using printProgress.stop [OF s(1,2) loads_here s(3)] .
  note p = progress_adds_up [OF crawler_example_ok(1) pool_start_example run, of id 0]
  have "\<exists>rest. progress_text id 0 vs = ''[rdns] '' @ show_nat (length [''1.2.3.4'', ''5.6.7.8'']) @ '' done | '' @ rest"
    using p s(4) by auto
  moreover have "show_nat (length [''1.2.3.4'', ''5.6.7.8'']) = ''2''" by code_simp
  moreover have "unat (vs ! 0) = groups vs" using p by simp
  ultimately show ?thesis using run by (intro exI [of _ s] exI [of _ vs]) auto
qed

end
