(* ===== verification/Go_Flag.thy ===== *)
theory Go_Flag
  imports Go_Fmt "HOL-Library.AList"
begin

text \<open>
  Package \<open>flag\<close> and the number parsers of \<open>strconv\<close>, as far as the command line uses them: flag
  sets with the parsing rules of \<open>FlagSet.Parse\<close> under \<open>ExitOnError\<close>, and the round trip between
  the values of the flags and the arguments that set them.
\<close>

section \<open>Numbers\<close>

text \<open>The value of a digit or letter (of either case), as in \<open>strconv\<close>.\<close>

definition lower_code :: "char \<Rightarrow> nat" where
  "lower_code c = (let n = (of_char c :: nat) in if 65 \<le> n \<and> n \<le> 90 then n + 32 else n)"

definition digit_value :: "char \<Rightarrow> int option" where
  "digit_value c =
     (let n = (of_char c :: nat); l = lower_code c in
      if 48 \<le> n \<and> n \<le> 57 then Some (int n - 48) else if 97 \<le> l \<and> l \<le> 122 then Some (int l - 87) else None)"

text \<open>The digits of \<open>ParseUint\<close> after the prefix; underscores are skipped here and checked later.\<close>

fun parse_digits :: "int \<Rightarrow> string \<Rightarrow> int \<Rightarrow> int option" where
  "parse_digits b [] n = Some n"
| "parse_digits b (c # cs) n =
     (if c = CHR ''_'' then parse_digits b cs n
      else case digit_value c of
          None \<Rightarrow> None
        | Some d \<Rightarrow> if b \<le> d \<or> 2 ^ 64 \<le> n * b + d then None else parse_digits b cs (n * b + d))"

definition base_prefix :: "string \<Rightarrow> int \<times> string" where
  "base_prefix s =
     (case s of
        c # cs \<Rightarrow>
          if c = CHR ''0'' then
            (case cs of
               p # q # _ \<Rightarrow>
                 if lower_code p = 98 then (2, tl cs) else if lower_code p = 111 then (8, tl cs)
                 else if lower_code p = 120 then (16, tl cs) else (8, cs)
             | _ \<Rightarrow> (8, cs))
          else (10, s)
      | [] \<Rightarrow> (10, s))"

datatype saw = Saw_Start | Saw_Digit | Saw_Underscore | Saw_Other

fun underscore_loop :: "bool \<Rightarrow> saw \<Rightarrow> string \<Rightarrow> bool" where
  "underscore_loop hex w [] \<longleftrightarrow> w \<noteq> Saw_Underscore"
| "underscore_loop hex w (c # cs) \<longleftrightarrow>
     (if 48 \<le> (of_char c :: nat) \<and> (of_char c :: nat) \<le> 57 \<or> hex \<and> 97 \<le> lower_code c \<and> lower_code c \<le> 102
      then underscore_loop hex Saw_Digit cs
      else if c = CHR ''_'' then w = Saw_Digit \<and> underscore_loop hex Saw_Underscore cs
      else w \<noteq> Saw_Underscore \<and> underscore_loop hex Saw_Other cs)"

definition underscoreOK :: "string \<Rightarrow> bool" where
  "underscoreOK s =
     (let s = (if s \<noteq> [] \<and> hd s \<in> set ''+-'' then tl s else s) in
      case s of
        a # p # cs \<Rightarrow>
          if a = CHR ''0'' \<and> lower_code p \<in> {98, 111, 120} then underscore_loop (lower_code p = 120) Saw_Digit cs
          else underscore_loop False Saw_Start s
      | _ \<Rightarrow> underscore_loop False Saw_Start s)"

text \<open>\<open>ParseUint(s, 0, 64)\<close> and \<open>ParseInt(s, 0, 64)\<close>; syntax and range errors are the same to a flag.\<close>

definition ParseUint :: "string \<Rightarrow> int option" where
  "ParseUint s =
     (if s = [] then None
      else case base_prefix s of (b, ds) \<Rightarrow>
        (case parse_digits b ds 0 of
           None \<Rightarrow> None
         | Some n \<Rightarrow> if CHR ''_'' \<in> set ds \<and> \<not> underscoreOK s then None else Some n))"

definition ParseInt :: "string \<Rightarrow> int option" where
  "ParseInt s =
     (case s of
        [] \<Rightarrow> None
      | c # cs \<Rightarrow>
          (case ParseUint (if c \<in> set ''+-'' then cs else s) of
             None \<Rightarrow> None
           | Some n \<Rightarrow>
               if c = CHR ''-'' then (if n \<le> 2 ^ 63 then Some (- n) else None)
               else if n < 2 ^ 63 then Some n else None))"

definition ParseBool :: "string \<Rightarrow> bool option" where
  "ParseBool s =
     (if s \<in> set [''1'', ''t'', ''T'', ''TRUE'', ''true'', ''True''] then Some True
      else if s \<in> set [''0'', ''f'', ''F'', ''FALSE'', ''false'', ''False''] then Some False
      else None)"

section \<open>Flag sets\<close>

text \<open>
  A flag set maps names to values; the constructor is the type of the flag. \<open>time.ParseDuration\<close> and
  \<open>strconv.ParseFloat\<close> are the parameters \<open>pd\<close> and \<open>pf\<close> (the value as nanoseconds and as a number).
\<close>

datatype flag_val = F_Bool bool | F_Int int | F_Uint u64 | F_Float real | F_Duration int | F_String string

type_synonym flag_set = "(string \<times> flag_val) list"

fun set_value :: "(string \<Rightarrow> int option) \<Rightarrow> (string \<Rightarrow> real option) \<Rightarrow> flag_val \<Rightarrow> string \<Rightarrow> flag_val option" where
  "set_value pd pf (F_Bool _) s = map_option F_Bool (ParseBool s)"
| "set_value pd pf (F_Int _) s = map_option F_Int (ParseInt s)"
| "set_value pd pf (F_Uint _) s = map_option (\<lambda>n. F_Uint (word_of_int n)) (ParseUint s)"
| "set_value pd pf (F_Float _) s = map_option F_Float (pf s)"
| "set_value pd pf (F_Duration _) s = map_option F_Duration (pd s)"
| "set_value pd pf (F_String _) s = Some (F_String s)"

definition is_bool_flag :: "flag_val \<Rightarrow> bool" where
  "is_bool_flag v = (case v of F_Bool _ \<Rightarrow> True | _ \<Rightarrow> False)"

text \<open>\<open>name=value\<close>; the equals sign cannot be the first character.\<close>

definition split_value :: "string \<Rightarrow> string \<times> string option" where
  "split_value name =
     (case index_byte (tl name) (CHR ''='') of
        None \<Rightarrow> (name, None)
      | Some i \<Rightarrow> (take (i + 1) name, Some (drop (i + 2) name)))"

datatype flag_error = Help | Bad_Flag

text \<open>
  \<open>Parse\<close>, one \<open>parseOne\<close> per call: the remaining arguments, or the error that ends the program.
\<close>

fun parse_flags ::
  "(string \<Rightarrow> int option) \<Rightarrow> (string \<Rightarrow> real option) \<Rightarrow> flag_set \<Rightarrow> string list \<Rightarrow> flag_error + (flag_set \<times> string list)" where
  "parse_flags pd pf fl [] = Inr (fl, [])"
| "parse_flags pd pf fl (s # args) =
     (if length s < 2 \<or> hd s \<noteq> CHR ''-'' then Inr (fl, s # args)
      else if s = ''--'' then Inr (fl, args)
      else
        let name = (if s ! 1 = CHR ''-'' then drop 2 s else drop 1 s) in
        if name = [] \<or> hd name \<in> set ''-='' then Inl Bad_Flag
        else case split_value name of (name, val) \<Rightarrow>
          (case map_of fl name of
             None \<Rightarrow> Inl (if name \<in> set [''help'', ''h''] then Help else Bad_Flag)
           | Some old \<Rightarrow>
               if is_bool_flag old then
                 (case set_value pd pf old (case val of None \<Rightarrow> ''true'' | Some v \<Rightarrow> v) of
                    None \<Rightarrow> Inl Bad_Flag
                  | Some new \<Rightarrow> parse_flags pd pf (AList.update name new fl) args)
               else
                 (case val of
                    Some v \<Rightarrow>
                      (case set_value pd pf old v of
                         None \<Rightarrow> Inl Bad_Flag
                       | Some new \<Rightarrow> parse_flags pd pf (AList.update name new fl) args)
                  | None \<Rightarrow>
                      (case args of
                         [] \<Rightarrow> Inl Bad_Flag
                       | v # rest \<Rightarrow>
                           (case set_value pd pf old v of
                              None \<Rightarrow> Inl Bad_Flag
                            | Some new \<Rightarrow> parse_flags pd pf (AList.update name new fl) rest)))))"

text \<open>With \<open>ExitOnError\<close>, help ends the program with code 0 and every other error with code 2.\<close>

definition flag_exit_code :: "flag_error \<Rightarrow> nat" where
  "flag_exit_code e = (case e of Help \<Rightarrow> 0 | Bad_Flag \<Rightarrow> 2)"


section \<open>Round trips\<close>

lemma parse_digits_append: "parse_digits b (xs @ ys) n = (case parse_digits b xs n of None \<Rightarrow> None | Some m \<Rightarrow> parse_digits b ys m)"
  by (induction b xs n rule: parse_digits.induct) (simp_all split: option.split)

lemma digit_char_simps: "d < 10 \<Longrightarrow> digit_value (digit_char d) = Some (int d)" "d < 10 \<Longrightarrow> digit_char d \<noteq> CHR ''_''"
proof -
  assume d: "d < 10"
  then show "digit_value (digit_char d) = Some (int d)" by (simp add: digit_value_def lower_code_def Let_def)
  have "(of_char (digit_char d) :: nat) \<noteq> of_char (CHR ''_'')" using d by simp
  then show "digit_char d \<noteq> CHR ''_''" by metis
qed

lemma parse_digits_show: "n < 2 ^ 64 \<Longrightarrow> parse_digits 10 (show_nat n) 0 = Some (int n)"
proof (induction n rule: show_nat.induct)
  case (1 n)
  show ?case
  proof (cases "n < 10")
    case True
    then show ?thesis by (subst show_nat.simps) (simp add: digit_char_simps)
  next
    case False
    then have "parse_digits 10 (show_nat (n div 10)) 0 = Some (int (n div 10))" using 1 by simp
    moreover have "int (n div 10) * 10 + int (n mod 10) = int n"
      by (metis div_mult_mod_eq of_nat_add of_nat_mult of_nat_numeral)
    moreover have "int n < 2 ^ 64" using "1.prems" by (metis of_nat_less_iff of_nat_numeral of_nat_power)
    ultimately show ?thesis using False by (subst show_nat.simps) (simp add: parse_digits_append digit_char_simps)
  qed
qed

lemma hd_show_nat: "0 < n \<Longrightarrow> \<exists>d c. show_nat n = digit_char d # c \<and> 0 < d \<and> d < 10"
proof (induction n rule: show_nat.induct)
  case (1 n)
  show ?case
  proof (cases "n < 10")
    case True
    then show ?thesis using "1.prems" by (subst show_nat.simps) auto
  next
    case False
    then have "0 < n div 10" by (simp add: div_greater_zero_iff)
    then obtain d c where "show_nat (n div 10) = digit_char d # c" "0 < d" "d < 10" using "1.IH" [OF False] by blast
    then show ?thesis using False by (subst show_nat.simps) auto
  qed
qed

lemma digit_char_neq: "d < 10 \<Longrightarrow> (of_char c :: nat) < 48 \<or> 57 < (of_char c :: nat) \<Longrightarrow> digit_char d \<noteq> c"
proof -
  assume "d < 10" "(of_char c :: nat) < 48 \<or> 57 < (of_char c :: nat)"
  then have "(of_char (digit_char d) :: nat) \<noteq> of_char c" by auto
  then show ?thesis by metis
qed

lemma show_nat_not_mem: "(of_char c :: nat) < 48 \<or> 57 < (of_char c :: nat) \<Longrightarrow> c \<notin> set (show_nat n)"
  using show_nat_digits [of c n] by auto

lemma ParseUint_show: "n < 2 ^ 64 \<Longrightarrow> ParseUint (show_nat n) = Some (int n)"
proof (cases "n = 0")
  case True
  have "show_nat 0 = ''0''" by code_simp
  moreover have "ParseUint ''0'' = Some 0" by code_simp
  ultimately show ?thesis using True by simp
next
  case False
  then obtain d c where d: "show_nat n = digit_char d # c" "0 < d" "d < 10" using hd_show_nat by blast
  have "(of_char (digit_char d) :: nat) \<noteq> of_char (CHR ''0'')" using d by simp
  then have "digit_char d \<noteq> CHR ''0''" by metis
  then have "base_prefix (show_nat n) = (10, show_nat n)" by (simp add: base_prefix_def d(1))
  moreover have "CHR ''_'' \<notin> set (show_nat n)" by (rule show_nat_not_mem) simp
  ultimately show "n < 2 ^ 64 \<Longrightarrow> ?thesis" using parse_digits_show [of n] by (simp add: ParseUint_def)
qed

lemma ParseInt_show: "- (2 ^ 63) \<le> i \<Longrightarrow> i < 2 ^ 63 \<Longrightarrow> ParseInt (show_int i) = Some i"
proof (cases "i < 0")
  case True
  assume "- (2 ^ 63) \<le> i"
  then have "nat (- i) < 2 ^ 64" "nat (- i) \<le> 2 ^ 63" using True by auto
  then show ?thesis using True ParseUint_show [of "nat (- i)"] by (simp add: ParseInt_def show_int_def)
next
  case False
  assume "i < 2 ^ 63"
  then have n: "nat i < 2 ^ 64" by simp
  obtain c cs where s: "show_nat (nat i) = c # cs" by (cases "show_nat (nat i)") auto
  have "CHR ''+'' \<notin> set (show_nat (nat i))" "CHR ''-'' \<notin> set (show_nat (nat i))" by (rule show_nat_not_mem, simp)+
  then have "c \<notin> set ''+-''" "c \<noteq> CHR ''-''" using s by auto
  then show ?thesis using False \<open>i < 2 ^ 63\<close> ParseUint_show [OF n] s by (simp add: ParseInt_def show_int_def)
qed

text \<open>A flag written as \<open>--name=value\<close>.\<close>

fun flag_text :: "(int \<Rightarrow> string) \<Rightarrow> (real \<Rightarrow> string) \<Rightarrow> flag_val \<Rightarrow> string" where
  "flag_text sd sf (F_Bool b) = (if b then ''true'' else ''false'')"
| "flag_text sd sf (F_Int i) = show_int i"
| "flag_text sd sf (F_Uint u) = show_nat (unat u)"
| "flag_text sd sf (F_Float x) = sf x"
| "flag_text sd sf (F_Duration d) = sd d"
| "flag_text sd sf (F_String s) = s"

definition flag_arg :: "(int \<Rightarrow> string) \<Rightarrow> (real \<Rightarrow> string) \<Rightarrow> string \<times> flag_val \<Rightarrow> string" where
  "flag_arg sd sf nv = ''--'' @ fst nv @ ''='' @ flag_text sd sf (snd nv)"

text \<open>The values that the text of a flag can carry, given how the duration and number parsers treat it.\<close>

fun flag_ok :: "(string \<Rightarrow> int option) \<Rightarrow> (string \<Rightarrow> real option) \<Rightarrow> (int \<Rightarrow> string) \<Rightarrow> (real \<Rightarrow> string) \<Rightarrow> flag_val \<Rightarrow> flag_val \<Rightarrow> bool" where
  "flag_ok pd pf sd sf (F_Bool _) (F_Bool _) \<longleftrightarrow> True"
| "flag_ok pd pf sd sf (F_Int _) (F_Int i) \<longleftrightarrow> - (2 ^ 63) \<le> i \<and> i < 2 ^ 63"
| "flag_ok pd pf sd sf (F_Uint _) (F_Uint _) \<longleftrightarrow> True"
| "flag_ok pd pf sd sf (F_Float _) (F_Float x) \<longleftrightarrow> pf (sf x) = Some x"
| "flag_ok pd pf sd sf (F_Duration _) (F_Duration d) \<longleftrightarrow> pd (sd d) = Some d"
| "flag_ok pd pf sd sf (F_String _) (F_String _) \<longleftrightarrow> True"
| "flag_ok pd pf sd sf _ _ \<longleftrightarrow> False"

lemma set_value_text: "flag_ok pd pf sd sf old new \<Longrightarrow> set_value pd pf old (flag_text sd sf new) = Some new"
proof (induction pd pf sd sf old new rule: flag_ok.induct)
  case (3 pd pf sd sf a u)
  have "ParseUint (show_nat (unat u)) = Some (int (unat u))" using unsigned_less [where ?'a = nat, of u] by (intro ParseUint_show) simp
  then show ?case by simp
qed (simp_all add: ParseBool_def ParseInt_show)

definition flag_name :: "string \<Rightarrow> bool" where
  "flag_name n \<longleftrightarrow> n \<noteq> [] \<and> hd n \<noteq> CHR ''-'' \<and> CHR ''='' \<notin> set n"

lemma split_value_arg: "flag_name n \<Longrightarrow> split_value (n @ ''='' @ v) = (n, Some v)"
proof -
  assume n: "flag_name n"
  then obtain a m where m: "n = a # m" "CHR ''='' \<notin> set m" by (cases n) (auto simp: flag_name_def)
  have i: "index_byte (m @ CHR ''='' # v) (CHR ''='') = Some (length m)" using m(2) by (induction m) auto
  show ?thesis by (simp add: split_value_def m(1) i)
qed

text \<open>Parsing a list of written flags applies them in order, and stops where they end.\<close>

lemma parse_flags_args:
  assumes "list_all (\<lambda>nv. flag_name (fst nv) \<and> (\<exists>old. map_of fl (fst nv) = Some old \<and> flag_ok pd pf sd sf old (snd nv))) nvs"
    and "rest = [] \<or> length (hd rest) < 2 \<or> hd (hd rest) \<noteq> CHR ''-''" and "distinct (map fst nvs)"
  shows "parse_flags pd pf fl (map (flag_arg sd sf) nvs @ rest) = Inr (fold (\<lambda>nv. AList.update (fst nv) (snd nv)) nvs fl, rest)"
  using assms
proof (induction nvs arbitrary: fl)
  case Nil
  then show ?case by (cases rest) auto
next
  case (Cons nv nvs)
  obtain n v where nv: "nv = (n, v)" by fastforce
  obtain old where old: "map_of fl n = Some old" "flag_ok pd pf sd sf old v" and n: "flag_name n" using Cons.prems(1) nv by auto
  obtain a m where m: "n = a # m" "a \<noteq> CHR ''-''" "a \<noteq> CHR ''=''" using n by (cases n) (auto simp: flag_name_def)
  have arg: "flag_arg sd sf nv = CHR ''-'' # CHR ''-'' # n @ ''='' @ flag_text sd sf v" by (simp add: flag_arg_def nv)
  have step: "parse_flags pd pf fl (flag_arg sd sf nv # args) = parse_flags pd pf (AList.update n v fl) args" for args
    using split_value_arg [OF n, of "flag_text sd sf v"] m set_value_text [OF old(2)] old(1)
    by (simp add: arg Let_def split: option.splits)
  have "list_all (\<lambda>nv. flag_name (fst nv) \<and> (\<exists>old. map_of (AList.update n v fl) (fst nv) = Some old \<and> flag_ok pd pf sd sf old (snd nv))) nvs"
    using Cons.prems(1,3) by (auto simp: list_all_iff nv update_conv' rev_image_eqI)
  then show ?case using Cons.IH Cons.prems(2,3) step by (simp add: nv)
qed

end
