(* ===== verification/Cli_Flags.thy ===== *)
theory Cli_Flags
  imports Cli Go_Flag Summary_Report
begin

text \<open>
  The command line (\<^verbatim>\<open>src/cmd/rdns-crawler/main.go\<close>): the flags of every mode with their defaults, the
  dispatch on the first argument and the usage text. Any configuration of the crawling modes and of
  \<open>merge\<close> can be written on the command line, and the parser reads it back.
\<close>

section \<open>The flags of the modes\<close>

definition registerCommon :: "string \<Rightarrow> flag_set" where
  "registerCommon defFormat =
     [(''concurrency'', F_Int 512), (''timeout'', F_Duration 3000000000), (''retries'', F_Int 2), (''fcrdns'', F_Bool True),
      (''qps'', F_Int 0), (''resolvers'', F_String []), (''resolvers-file'', F_String []), (''out'', F_String []),
      (''format'', F_String defFormat)]"

definition flag_int :: "flag_set \<Rightarrow> string \<Rightarrow> int" where
  "flag_int fl n = (case map_of fl n of Some (F_Int i) \<Rightarrow> i | Some (F_Duration d) \<Rightarrow> d | _ \<Rightarrow> 0)"

definition flag_uint :: "flag_set \<Rightarrow> string \<Rightarrow> u64" where
  "flag_uint fl n = (case map_of fl n of Some (F_Uint u) \<Rightarrow> u | _ \<Rightarrow> 0)"

definition flag_bool :: "flag_set \<Rightarrow> string \<Rightarrow> bool" where
  "flag_bool fl n = (case map_of fl n of Some (F_Bool b) \<Rightarrow> b | _ \<Rightarrow> False)"

definition flag_string :: "flag_set \<Rightarrow> string \<Rightarrow> string" where
  "flag_string fl n = (case map_of fl n of Some (F_String s) \<Rightarrow> s | _ \<Rightarrow> [])"

definition flag_float :: "flag_set \<Rightarrow> string \<Rightarrow> real" where
  "flag_float fl n = (case map_of fl n of Some (F_Float x) \<Rightarrow> x | _ \<Rightarrow> 0)"

definition read_common :: "flag_set \<Rightarrow> commonFlags" where
  "read_common fl =
     \<lparr>k_concurrency = flag_int fl ''concurrency'', k_timeout = flag_int fl ''timeout'', k_retries = flag_int fl ''retries'',
      k_fcrdns = flag_bool fl ''fcrdns'', k_qps = flag_int fl ''qps'', k_resolvers = flag_string fl ''resolvers'',
      k_resolversFile = flag_string fl ''resolvers-file'', k_out = flag_string fl ''out'', k_format = flag_string fl ''format''\<rparr>"

text \<open>The default seed of \<open>test\<close> is the time in nanoseconds.\<close>

definition test_flags :: "int \<Rightarrow> flag_set" where
  "test_flags now_nano = registerCommon ''jsonl'' @ [(''count'', F_Int 1000), (''seed'', F_Int now_nano)]"

definition crawl_flags :: flag_set where
  "crawl_flags = registerCommon ''rdnsz'' @
     [(''shards'', F_Uint 1), (''shard-id'', F_Uint 0), (''start'', F_String ''0.0.0.0''), (''limit'', F_Uint 0),
      (''sample-percent'', F_Float 100), (''resume'', F_Bool False)]"

definition recrawl_flags :: flag_set where
  "recrawl_flags = registerCommon ''rdnsz'' @
     [(''from'', F_String []), (''statuses'', F_String ''has_ptr,timeout''), (''limit'', F_Uint 0), (''resume'', F_Bool False)]"

definition compare_flags :: flag_set where
  "compare_flags =
     [(''old'', F_String []), (''new'', F_String []), (''statuses'', F_String ''has_ptr,timeout''), (''json'', F_String []),
      (''top-tlds'', F_Int 20)]"

definition merge_flags :: flag_set where
  "merge_flags =
     [(''old'', F_String []), (''new'', F_String []), (''out'', F_String []), (''statuses'', F_String ''has_ptr,timeout''),
      (''json'', F_String []), (''allow-partial'', F_Bool False)]"

definition sweep_flags :: flag_set where
  "sweep_flags = registerCommon ''jsonl'' @ [(''start'', F_String ''1.0.0.0''), (''count'', F_Uint 100000)]"

definition dump_flags :: flag_set where
  "dump_flags = [(''text'', F_Bool False), (''compact'', F_Bool False)]"

section \<open>Dispatch\<close>

definition usage_text :: string where
  "usage_text =
     fprintln (''rDNS-Crawler '' @ em_dash @ '' reverse-DNS crawler for the IPv4 address space'') @
     fprintln [] @
     fprintln (''Usage:'') @
     fprintln (''  rdns-crawler test    [flags]              Sample random non-reserved IPv4 '' @ arrow @ '' resolve PTR'') @
     fprintln (''  rdns-crawler crawl   [flags]              Distributed, sharded, resumable full-space crawl'') @
     fprintln (''  rdns-crawler recrawl [flags]              Re-crawl a previous shard's has_ptr/timeout IPs'') @
     fprintln (''  rdns-crawler compare [flags]              Statistics: previous pass vs re-crawl pass'') @
     fprintln (''  rdns-crawler merge   [flags]              Fold a re-crawl pass into its baseline (updated dataset)'') @
     fprintln (''  rdns-crawler info    <file|dir> ...       Print .rdnsz header summaries'') @
     fprintln (''  rdns-crawler sweep   [flags]              (legacy) crawl a contiguous IPv4 block'') @
     fprintln (''  rdns-crawler dump    <file.rdnsz> [flags] Decode a .rdnsz file to JSONL/text'') @
     fprintln [] @
     fprintln (''Run '' @ [dquote] @ ''rdns-crawler <mode> -h'' @ [dquote] @ '' for flags.'')"

text \<open>What the command line asks for: print the usage, end at the flags, or run a mode.\<close>

datatype command =
    Cmd_Usage nat
  | Cmd_Exit nat
  | Cmd_Test commonFlags int int
  | Cmd_Crawl crawlFlags
  | Cmd_Recrawl recrawlFlags
  | Cmd_Compare string string string string int
  | Cmd_Merge string string string string string bool
  | Cmd_Info "string list"
  | Cmd_Sweep commonFlags string u64
  | Cmd_Dump string bool bool

definition with_flags ::
  "(string \<Rightarrow> int option) \<Rightarrow> (string \<Rightarrow> real option) \<Rightarrow> flag_set \<Rightarrow> string list \<Rightarrow> (flag_set \<Rightarrow> command) \<Rightarrow> command" where
  "with_flags pd pf fl args k =
     (case parse_flags pd pf fl args of
        Inl e \<Rightarrow> Cmd_Exit (flag_exit_code e)
      | Inr (fl, _) \<Rightarrow> k fl)"

text \<open>The arguments of \<open>dump\<close>: flags in any position, and the first other argument as the path.\<close>

fun dump_split :: "string list \<Rightarrow> string list \<times> string \<Rightarrow> string list \<times> string" where
  "dump_split [] acc = acc"
| "dump_split (a # args) (flagArgs, path) =
     (if prefix ''-'' a then dump_split args (flagArgs @ [a], path)
      else if path = [] then dump_split args (flagArgs, a)
      else dump_split args (flagArgs, path))"

definition read_crawl :: "flag_set \<Rightarrow> crawlFlags" where
  "read_crawl fl =
     \<lparr>fl_common = read_common fl, fl_shards = flag_uint fl ''shards'', fl_shardID = flag_uint fl ''shard-id'',
      fl_start = flag_string fl ''start'', fl_limit = flag_uint fl ''limit'', fl_samplePct = flag_float fl ''sample-percent'',
      fl_resume = flag_bool fl ''resume''\<rparr>"

definition read_recrawl :: "flag_set \<Rightarrow> recrawlFlags" where
  "read_recrawl fl =
     \<lparr>rf_common = read_common fl, rf_from = flag_string fl ''from'', rf_statuses = flag_string fl ''statuses'',
      rf_limit = flag_uint fl ''limit'', rf_resume = flag_bool fl ''resume''\<rparr>"

definition parse_command ::
  "(string \<Rightarrow> int option) \<Rightarrow> (string \<Rightarrow> real option) \<Rightarrow> int \<Rightarrow> string list \<Rightarrow> command" where
  "parse_command pd pf now_nano argv =
     (case argv of
        prog # mode # args \<Rightarrow>
          if mode = ''test'' then
            with_flags pd pf (test_flags now_nano) args (\<lambda>fl. Cmd_Test (read_common fl) (flag_int fl ''count'') (flag_int fl ''seed''))
          else if mode = ''crawl'' then with_flags pd pf crawl_flags args (\<lambda>fl. Cmd_Crawl (read_crawl fl))
          else if mode = ''recrawl'' then with_flags pd pf recrawl_flags args (\<lambda>fl. Cmd_Recrawl (read_recrawl fl))
          else if mode = ''compare'' then
            with_flags pd pf compare_flags args (\<lambda>fl. Cmd_Compare (flag_string fl ''old'') (flag_string fl ''new'')
              (flag_string fl ''statuses'') (flag_string fl ''json'') (flag_int fl ''top-tlds''))
          else if mode = ''merge'' then
            with_flags pd pf merge_flags args (\<lambda>fl. Cmd_Merge (flag_string fl ''old'') (flag_string fl ''new'')
              (flag_string fl ''out'') (flag_string fl ''statuses'') (flag_string fl ''json'') (flag_bool fl ''allow-partial''))
          else if mode = ''info'' then Cmd_Info args
          else if mode = ''sweep'' then
            with_flags pd pf sweep_flags args (\<lambda>fl. Cmd_Sweep (read_common fl) (flag_string fl ''start'') (flag_uint fl ''count''))
          else if mode = ''dump'' then
            (case dump_split args ([], []) of (flagArgs, path) \<Rightarrow>
               with_flags pd pf dump_flags flagArgs (\<lambda>fl. Cmd_Dump path (flag_bool fl ''compact'') (flag_bool fl ''text'')))
          else if mode = ''-h'' \<or> mode = ''--help'' \<or> mode = ''help'' then Cmd_Usage 0
          else Cmd_Usage 2
      | _ \<Rightarrow> Cmd_Usage 2)"

section \<open>Every configuration can be written\<close>

definition common_assign :: "commonFlags \<Rightarrow> flag_set" where
  "common_assign c =
     [(''concurrency'', F_Int (k_concurrency c)), (''timeout'', F_Duration (k_timeout c)), (''retries'', F_Int (k_retries c)),
      (''fcrdns'', F_Bool (k_fcrdns c)), (''qps'', F_Int (k_qps c)), (''resolvers'', F_String (k_resolvers c)),
      (''resolvers-file'', F_String (k_resolversFile c)), (''out'', F_String (k_out c)), (''format'', F_String (k_format c))]"

definition crawl_assign :: "crawlFlags \<Rightarrow> flag_set" where
  "crawl_assign f = common_assign (fl_common f) @
     [(''shards'', F_Uint (fl_shards f)), (''shard-id'', F_Uint (fl_shardID f)), (''start'', F_String (fl_start f)),
      (''limit'', F_Uint (fl_limit f)), (''sample-percent'', F_Float (fl_samplePct f)), (''resume'', F_Bool (fl_resume f))]"

definition recrawl_assign :: "recrawlFlags \<Rightarrow> flag_set" where
  "recrawl_assign r = common_assign (rf_common r) @
     [(''from'', F_String (rf_from r)), (''statuses'', F_String (rf_statuses r)), (''limit'', F_Uint (rf_limit r)),
      (''resume'', F_Bool (rf_resume r))]"

definition merge_assign :: "string \<Rightarrow> string \<Rightarrow> string \<Rightarrow> string \<Rightarrow> string \<Rightarrow> bool \<Rightarrow> flag_set" where
  "merge_assign old new out statuses json partial =
     [(''old'', F_String old), (''new'', F_String new), (''out'', F_String out), (''statuses'', F_String statuses),
      (''json'', F_String json), (''allow-partial'', F_Bool partial)]"

definition common_ok :: "(string \<Rightarrow> int option) \<Rightarrow> (int \<Rightarrow> string) \<Rightarrow> commonFlags \<Rightarrow> bool" where
  "common_ok pd sd c \<longleftrightarrow> pd (sd (k_timeout c)) = Some (k_timeout c) \<and>
     list_all (\<lambda>i. - (2 ^ 63) \<le> i \<and> i < 2 ^ 63) [k_concurrency c, k_retries c, k_qps c]"

lemma map_of_fold_update:
  "map_of (fold (\<lambda>nv. AList.update (fst nv) (snd nv)) nvs fl) n = (case map_of (rev nvs) n of None \<Rightarrow> map_of fl n | Some v \<Rightarrow> Some v)"
proof (induction nvs arbitrary: fl)
  case (Cons nv nvs)
  then show ?case by (auto simp: update_conv' map_of_append map_add_def split: option.splits)
qed simp

lemma map_of_assigned:
  assumes "distinct (map fst nvs)" "(n, v) \<in> set nvs"
  shows "map_of (fold (\<lambda>nv. AList.update (fst nv) (snd nv)) nvs fl) n = Some v"
proof -
  have "map_of (rev nvs) n = Some v" using assms by (simp add: rev_map [symmetric])
  then show ?thesis by (simp add: map_of_fold_update)
qed

lemma with_flags_args:
  assumes "list_all (\<lambda>nv. flag_name (fst nv) \<and> (\<exists>old. map_of fl (fst nv) = Some old \<and> flag_ok pd pf sd sf old (snd nv))) nvs"
    and "distinct (map fst nvs)"
  shows "with_flags pd pf fl (map (flag_arg sd sf) nvs) k = k (fold (\<lambda>nv. AList.update (fst nv) (snd nv)) nvs fl)"
  using parse_flags_args [OF assms(1) _ assms(2), of "[]"] by (simp add: with_flags_def)

lemma crawl_assigned:
  assumes "common_ok pd sd (fl_common f)" "pf (sf (fl_samplePct f)) = Some (fl_samplePct f)"
  shows "parse_command pd pf now (prog # ''crawl'' # map (flag_arg sd sf) (crawl_assign f)) = Cmd_Crawl f"
proof -
  have d: "distinct (map fst (crawl_assign f))" by (simp add: crawl_assign_def common_assign_def)
  have ok: "list_all (\<lambda>nv. flag_name (fst nv) \<and> (\<exists>old. map_of crawl_flags (fst nv) = Some old \<and> flag_ok pd pf sd sf old (snd nv))) (crawl_assign f)"
    using assms by (simp add: crawl_assign_def common_assign_def crawl_flags_def registerCommon_def flag_name_def common_ok_def)
  have "read_crawl (fold (\<lambda>nv. AList.update (fst nv) (snd nv)) (crawl_assign f) crawl_flags) = f"
    using map_of_assigned [OF d, of _ _ crawl_flags]
    by (simp add: read_crawl_def read_common_def flag_int_def flag_uint_def flag_bool_def flag_string_def flag_float_def
        crawl_assign_def common_assign_def)
  then show ?thesis using with_flags_args [OF ok d] by (simp add: parse_command_def)
qed

lemma recrawl_assigned:
  assumes "common_ok pd sd (rf_common r)"
  shows "parse_command pd pf now (prog # ''recrawl'' # map (flag_arg sd sf) (recrawl_assign r)) = Cmd_Recrawl r"
proof -
  have d: "distinct (map fst (recrawl_assign r))" by (simp add: recrawl_assign_def common_assign_def)
  have ok: "list_all (\<lambda>nv. flag_name (fst nv) \<and> (\<exists>old. map_of recrawl_flags (fst nv) = Some old \<and> flag_ok pd pf sd sf old (snd nv))) (recrawl_assign r)"
    using assms by (simp add: recrawl_assign_def common_assign_def recrawl_flags_def registerCommon_def flag_name_def common_ok_def)
  have "read_recrawl (fold (\<lambda>nv. AList.update (fst nv) (snd nv)) (recrawl_assign r) recrawl_flags) = r"
    using map_of_assigned [OF d, of _ _ recrawl_flags]
    by (simp add: read_recrawl_def read_common_def flag_int_def flag_uint_def flag_bool_def flag_string_def
        recrawl_assign_def common_assign_def)
  then show ?thesis using with_flags_args [OF ok d] by (simp add: parse_command_def)
qed

lemma merge_assigned:
  "parse_command pd pf now (prog # ''merge'' # map (flag_arg sd sf) (merge_assign old new out statuses json partial)) =
     Cmd_Merge old new out statuses json partial"
proof -
  let ?a = "merge_assign old new out statuses json partial"
  have d: "distinct (map fst ?a)" by (simp add: merge_assign_def)
  have ok: "list_all (\<lambda>nv. flag_name (fst nv) \<and> (\<exists>old. map_of merge_flags (fst nv) = Some old \<and> flag_ok pd pf sd sf old (snd nv))) ?a"
    by (simp add: merge_assign_def merge_flags_def flag_name_def)
  note m = map_of_assigned [OF d, of _ _ merge_flags]
  show ?thesis using with_flags_args [OF ok d] m
    by (simp add: parse_command_def flag_bool_def flag_string_def merge_assign_def)
qed

text \<open>Flags and the path of \<open>dump\<close> can come in any order.\<close>

lemma dump_split_spec: "dump_split args (fa, path) =
    (fa @ filter (prefix ''-'') args,
     if path \<noteq> [] then path else (case filter (\<lambda>a. \<not> prefix ''-'' a \<and> a \<noteq> []) args of [] \<Rightarrow> [] | p # _ \<Rightarrow> p))"
  by (induction args arbitrary: fa path) auto

text \<open>
  C17. The command line can express every configuration, and the parser returns it. For each value of
  the flags of \<open>crawl\<close>, \<open>recrawl\<close> and \<open>merge\<close>, writing every flag as \<open>--name=value\<close> and parsing
  the result gives back exactly that configuration (durations and fractions up to the library parsers
  of those types), and for \<open>dump\<close> the path may stand anywhere among the flags.
\<close>
theorem command_line_roundtrip:
  assumes "common_ok pd sd (fl_common f)" and "pf (sf (fl_samplePct f)) = Some (fl_samplePct f)" and "common_ok pd sd (rf_common r)"
    and "list_all (prefix ''-'') (xs @ ys)" and "path \<noteq> []" and "\<not> prefix ''-'' path"
  shows "parse_command pd pf now (prog # ''crawl'' # map (flag_arg sd sf) (crawl_assign f)) = Cmd_Crawl f \<and>
     parse_command pd pf now (prog # ''recrawl'' # map (flag_arg sd sf) (recrawl_assign r)) = Cmd_Recrawl r \<and>
     parse_command pd pf now (prog # ''merge'' # map (flag_arg sd sf) (merge_assign old new out statuses json partial)) =
       Cmd_Merge old new out statuses json partial \<and>
     parse_command pd pf now (prog # ''dump'' # xs @ path # ys) = parse_command pd pf now (prog # ''dump'' # path # xs @ ys)"
proof -
  have f: "filter (prefix ''-'') xs = xs" "filter (prefix ''-'') ys = ys" using assms(4) by (auto simp: list_all_iff filter_id_conv)
  have e: "filter (\<lambda>a. \<not> prefix ''-'' a \<and> a \<noteq> []) zs = []" if "list_all (prefix ''-'') zs" for zs
    using that by (auto simp: list_all_iff filter_empty_conv)
  have "dump_split (xs @ path # ys) ([], []) = dump_split (path # xs @ ys) ([], [])"
    using f e [of xs] e [of ys] assms(4-6) by (simp add: dump_split_spec)
  then show ?thesis
    using crawl_assigned [where pf = pf and sf = sf, OF assms(1,2)] recrawl_assigned [OF assms(3)] merge_assigned by (simp add: parse_command_def)
qed

theorem command_line_roundtrip_witness:
  "parse_command (\<lambda>_. Some 3000000000) (\<lambda>_. Some 100) 7
     (''rdns'' # ''crawl'' # map (flag_arg (\<lambda>_. ''3s'') (\<lambda>_. ''100'')) (crawl_assign crawl_example)) = Cmd_Crawl crawl_example \<and>
   parse_command (\<lambda>_. Some 3000000000) (\<lambda>_. Some 100) 7 [''rdns'', ''dump'', ''--text'', ''f'', ''-compact''] =
     parse_command (\<lambda>_. Some 3000000000) (\<lambda>_. Some 100) 7 [''rdns'', ''dump'', ''f'', ''--text'', ''-compact'']"
  using command_line_roundtrip [where pd = "\<lambda>_. Some 3000000000" and pf = "\<lambda>_. Some 100" and sd = "\<lambda>_. ''3s''" and sf = "\<lambda>_. ''100''"
      and f = crawl_example and r = "\<lparr>rf_common = common_example, rf_from = [], rf_statuses = [], rf_limit = 0, rf_resume = False\<rparr>"
      and xs = "[''--text'']" and ys = "[''-compact'']" and path = "''f''" and prog = "''rdns''" and now = 7]
  by (simp add: common_ok_def crawl_example_def common_example_def)

end
