(* ===== verification/Merge_Output.thy ===== *)
theory Merge_Output
  imports Merge_Figures
begin

text \<open>
  What a successful merge has written (\<^verbatim>\<open>src/internal/merge/merge.go\<close>), whichever files of the new pass are
  missing or cut short: the output file of a shard, read back, against its baseline file and the figures of
  the shard, and then the output files of a whole run.
\<close>

section \<open>What a baseline record leaves alone\<close>

text \<open>The fields that only \<open>Run\<close> itself sets.\<close>

definition run_fields :: "Result \<Rightarrow> string \<times> string \<times> ShardResult list \<times> u64 \<times> (string \<times> u64) list" where
  "run_fields res = (res_OutDir res, res_TargetStatuses res, res_Shards res, res_MergedTotal res, res_MergedCounts res)"

lemma bump_res_simps [simp]:
  "ms_counts (bump_res f ms) = ms_counts ms" "ms_sr (bump_res f ms) = ms_sr ms" "ms_ents (bump_res f ms) = ms_ents ms"
  "ms_seen (bump_res f ms) = ms_seen ms" "ms_w (bump_res f ms) = ms_w ms" "ms_res (bump_res f ms) = f (ms_res ms)"
  by (simp_all add: bump_res_def)

lemma put_merged_fields:
  "put_merged E rec c ms = (ms', None) \<Longrightarrow> run_fields (ms_res ms') = run_fields (ms_res ms) \<and>
     sr_Shard (ms_sr ms') = sr_Shard (ms_sr ms) \<and> sr_OutFile (ms_sr ms') = sr_OutFile (ms_sr ms)"
  by (auto simp: put_merged_def Let_def split: if_splits)

lemma old_fn_fields:
  assumes "old_fn E msk arena r ms = (ms', None)"
    and "run_fields (ms_res ms) = F \<and> sr_Shard (ms_sr ms) = sid \<and> sr_OutFile (ms_sr ms) = out"
  shows "run_fields (ms_res ms') = F \<and> sr_Shard (ms_sr ms') = sid \<and> sr_OutFile (ms_sr ms') = out"
  using assms unfolding old_fn_def merge_found_def Let_def writeOld_def
  by (auto dest!: put_merged_fields simp: run_fields_def split: if_splits option.splits)

lemma fold_err_inv:
  assumes "\<And>x s s'. f x s = (s', None) \<Longrightarrow> P s \<Longrightarrow> P s'" "fold_err f xs s = (s', None)" "P s"
  shows "P s'"
  using assms(2,3)
proof (induction xs arbitrary: s)
  case (Cons x xs)
  then show ?case using assms(1) by (auto split: prod.splits option.splits)
qed simp

section \<open>One shard\<close>

lemma load_fn_size: "load_fn r (ents, arena) = ((ents', arena'), None) \<Longrightarrow> length arena' = length arena + names_size r \<and>
     (names_size r = 0 \<or> length arena' \<le> 4294967295)"
  by (auto simp: load_fn_def names_size_def Let_def split: if_splits)

lemma load_fold_size:
  "fold_err load_fn rs (ents, arena) = ((ents', arena'), None) \<Longrightarrow> length arena \<le> 4294967295 \<Longrightarrow>
     length arena + sum_list (map names_size rs) \<le> 4294967295"
proof (induction rs arbitrary: ents arena)
  case (Cons r rs)
  obtain e1 a1 where l: "load_fn r (ents, arena) = ((e1, a1), None)" "fold_err load_fn rs (e1, a1) = ((ents', arena'), None)"
    using Cons.prems(1) by (auto split: prod.splits option.splits)
  then show ?case using Cons.IH [OF l(2)] load_fn_size [OF l(1)] Cons.prems(2) by auto
qed simp

text \<open>A new pass that could be loaded, complete or cut short.\<close>

lemma loadNewShard_view:
  assumes ld: "loadNewShard E fs path res = Inr (ents, arena, nh, tr, res1)"
    and ok: "list_all rec_ok (fst (Scan E fs path collect []))"
  shows "arena_ok (fst (Scan E fs path collect [])) \<and> map (view arena) ents = new_table (fst (Scan E fs path collect []))"
proof -
  obtain news err where sc: "Scan E fs path collect [] = (news, err)" by fastforce
  obtain h ents0 arena0 serr where h: "ReadHeader fs path = Inr h"
    and s0: "Scan E fs path load_fn ([], []) = ((ents0, arena0), serr)" and e0: "serr = None \<or> serr = Some ErrTruncatedTail"
    using ld by (auto simp: loadNewShard_def Let_def split: sum.splits prod.splits if_splits)
  obtain st le where f: "fold_err load_fn news ([], []) = (st, le)" by fastforce
  have "\<exists>e1 a1. fold_err load_fn news ([], []) = ((e1, a1), None) \<and> serr = err"
  proof (cases le)
    case None
    then show ?thesis using s0 sc f by (cases st) (auto simp: Scan_fold [of E fs path load_fn] Scan_collect)
  next
    case (Some e)
    have "e \<noteq> ErrTruncatedTail" if "fold_err load_fn rs a = (st, Some e)" for rs a
      using that by (induction rs arbitrary: a) (auto simp: load_fn_def Let_def split: prod.splits option.splits if_splits)
    then show ?thesis using s0 sc f Some e0 by (auto simp: Scan_fold [of E fs path load_fn] Scan_collect)
  qed
  then obtain e1 a1 where fl: "fold_err load_fn news ([], []) = ((e1, a1), None)" "serr = err" by blast
  have "unat (s_Status n) < 16" if "n \<in> set news" for n
    using ok that by (auto simp: sc list_all_iff rec_ok_def NumStatusCodes_def)
  then have aok: "arena_ok news" using load_fold_size [OF fl(1)] by (simp add: arena_ok_def list_all_iff)
  obtain es a dups where "loadNewShard E fs path res = Inr (es, a, h, err \<noteq> None, res\<lparr>res_NewDups := dups\<rparr>)" "map (view a) es = new_table news"
    using loadNewShard_ok [OF h sc _ aok, of res] e0 fl(2) by auto
  then show ?thesis using ld aok by (simp add: sc)
qed

definition out_file :: "Options \<Rightarrow> nat \<Rightarrow> string" where
  "out_file opts sid = path_join (o_OutDir opts) (''shard-'' @ show_nat sid @ ''.rdnsz'')"

lemma out_file_inj [simp]: "out_file opts a = out_file opts b \<longleftrightarrow> a = b"
  by (simp add: out_file_def path_join_def)

lemma merge_out_file: "merge_out_path opts h = out_file opts (unat (h_ShardID h))"
  by (simp add: merge_out_path_def out_file_def)

text \<open>The output file of a shard holds one record per address of the baseline file, and the report says how many.\<close>

definition shard_written :: "env \<Rightarrow> fs \<Rightarrow> fs \<Rightarrow> Options \<Rightarrow> nat \<Rightarrow> string \<Rightarrow> ShardResult \<Rightarrow> Rec list \<Rightarrow> bool" where
  "shard_written E fs fs' opts sid oldPath sr rs \<longleftrightarrow>
     (\<exists>olds. Scan E fs oldPath collect [] = (olds, None) \<and> s_IP ` set rs = s_IP ` set olds) \<and>
     Scan E fs' (out_file opts sid) collect [] = (rs, None) \<and> distinct (map s_IP rs) \<and> list_all rec_ok rs \<and>
     sr_Shard sr = sid \<and> sr_OutFile sr = out_file opts sid \<and>
     sr_Merged sr = of_nat (length rs) \<and> sr_OldTotal sr = of_nat (length rs)"

abbreviation with_status :: "nat \<Rightarrow> Rec list \<Rightarrow> Rec list" where
  "with_status c rs \<equiv> filter (\<lambda>r. unat (s_Status r) = c) rs"

text \<open>The steps of a successful \<open>mergeShard\<close>: loading the new shard, scanning the baseline, what the writer got.\<close>

definition new_recs :: "env \<Rightarrow> fs \<Rightarrow> string \<Rightarrow> Rec list" where
  "new_recs E fs newPath = (if newPath = [] then [] else fst (Scan E fs newPath collect []))"

lemma loaded_view:
  assumes ld: "(if newPath = [] then Inr ([], [], zero_header, False, res) else loadNewShard E fs newPath res) =
      Inr (ents, arena, nh, tr, res1)"
    and ok: "list_all rec_ok (new_recs E fs newPath)"
  shows "arena_ok (new_recs E fs newPath) \<and> map (view arena) ents = new_table (new_recs E fs newPath) \<and>
     run_fields res1 = run_fields res"
proof (cases "newPath = []")
  case True
  then show ?thesis using ld by (simp add: new_recs_def arena_ok_def new_table_def)
next
  case False
  then have "run_fields res1 = run_fields res"
    using ld by (auto simp: run_fields_def loadNewShard_def Let_def split: if_splits sum.splits prod.splits)
  then show ?thesis using False ld ok loadNewShard_view [of E fs newPath res ents arena nh tr res1] by (simp add: new_recs_def)
qed

lemma old_scanned:
  assumes run: "Scan E fs oldPath (old_fn E msk arena) ms0 = (ms, None)"
    and sc: "Scan E fs oldPath collect [] = (olds, oe)" and ok: "list_all rec_ok olds"
    and T: "table_inv arena T ms0" and seen0: "ms_seen ms0 = seen_empty"
  shows "oe = None \<and> ms_w ms = Consume E (map (choice msk T) (first_recs {} olds)) (ms_w ms0) \<and>
     ms_counts ms = bump_counts (map (choice msk T) (first_recs {} olds)) (ms_counts ms0) \<and>
     sr_Merged (ms_sr ms) = sr_Merged (ms_sr ms0) + of_nat (length (first_recs {} olds)) \<and>
     sr_OldTotal (ms_sr ms) = sr_OldTotal (ms_sr ms0) + of_nat (length (first_recs {} olds)) \<and>
     run_fields (ms_res ms) = run_fields (ms_res ms0) \<and>
     sr_Shard (ms_sr ms) = sr_Shard (ms_sr ms0) \<and> sr_OutFile (ms_sr ms) = sr_OutFile (ms_sr ms0)"
proof -
  have S: "{ip. seen_test ip (ms_seen ms0)} = {}" by (simp add: seen0 seen.mem_empty)
  have "list_all (\<lambda>r. unat (s_Status r) < NumStatusCodes) olds" using ok by (auto simp: list_all_iff rec_ok_def)
  from old_fn_fold [OF T this, of E msk] obtain ms' where m: "fold_err (old_fn E msk arena) olds ms0 = (ms', None)"
    "ms_w ms' = Consume E (map (choice msk T) (first_recs {} olds)) (ms_w ms0)"
    "ms_counts ms' = bump_counts (map (choice msk T) (first_recs {} olds)) (ms_counts ms0)"
    "sr_Merged (ms_sr ms') = sr_Merged (ms_sr ms0) + of_nat (length (first_recs {} olds))"
    "sr_OldTotal (ms_sr ms') = sr_OldTotal (ms_sr ms0) + of_nat (length (first_recs {} olds))" unfolding S by blast
  have "ms = ms'" "oe = None"
    using run m(1) sc by (auto simp: Scan_fold [of E fs oldPath "old_fn E msk arena"] Scan_collect)
  moreover have "run_fields (ms_res ms') = run_fields (ms_res ms0) \<and>
      sr_Shard (ms_sr ms') = sr_Shard (ms_sr ms0) \<and> sr_OutFile (ms_sr ms') = sr_OutFile (ms_sr ms0)"
    by (rule fold_err_inv [where P = "\<lambda>ms. run_fields (ms_res ms) = run_fields (ms_res ms0) \<and>
        sr_Shard (ms_sr ms) = sr_Shard (ms_sr ms0) \<and> sr_OutFile (ms_sr ms) = sr_OutFile (ms_sr ms0)", OF old_fn_fields m(1)]) simp_all
  ultimately show ?thesis using m(2-5) by simp
qed

lemma merged_rec_ok:
  assumes "mset rs = mset (map (merge_rec msk news) (first_recs {} olds))" and "list_all rec_ok olds" "list_all rec_ok news"
  shows "list_all rec_ok rs"
proof -
  have "rec_ok (merge_rec msk news r)" if "r \<in> set (first_recs {} olds)" for r
    using that assms(2,3) first_recs_subset [of "{}" olds]
    by (auto simp: merge_rec_def list_all_iff find_Some_iff split: option.splits)
  moreover have "set rs = merge_rec msk news ` set (first_recs {} olds)" using mset_eq_setD [OF assms(1)] by simp
  ultimately show ?thesis by (auto simp: list_all_iff)
qed

lemma mergeShard_Inr:
  assumes "mergeShard E now fs oldPath newPath opts res counts = (fs', Inr (sr, res', counts'))" and "ReadHeader fs oldPath = Inr oh"
  obtains ents arena nh tr res1 fs1 w ms where "(if newPath = [] then Inr ([], [], zero_header, False, res)
        else loadNewShard E fs newPath res) = Inr (ents, arena, nh, tr, res1)"
    and "fs1 = fs_write (fs_write fs (merge_out_path opts oh) []) (merge_out_path opts oh) (replicate headerSize 0)"
    and "w = newWriter (replicate headerSize 0) (merge_out_path opts oh) (h_Shards oh) (h_ShardID oh) now"
    and "Scan E fs1 oldPath (old_fn E (o_Mask opts) arena) (merge_init opts oh newPath ents nh tr res1 counts w) = (ms, None)"
    and "merge_finish E fs1 ms = (fs', (sr, res', counts'))"
  using assms unfolding mergeShard_def NewWriter_def os_create_def
  by (auto simp: Let_def split: sum.splits prod.splits option.splits if_splits go_error.splits)

lemma mergeShard_written:
  fixes now :: u64
  assumes E: "zstd_ok E" "sorts_keys (env_sort_slice E)"
    and run: "mergeShard E now fs oldPath newPath opts res counts = (fs', Inr (sr, res', counts'))"
    and oh: "ReadHeader fs oldPath = Inr oh"
    and oks: "list_all rec_ok (fst (Scan E fs oldPath collect []))" "list_all rec_ok (new_recs E fs newPath)"
    and other: "merge_out_path opts oh \<noteq> oldPath" and len: "length counts = 8"
  shows "(\<exists>rs. shard_written E fs fs' opts (unat (h_ShardID oh)) oldPath sr rs \<and>
       counts' = map (\<lambda>c. counts ! c + of_nat (length (with_status c rs))) [0..<8]) \<and>
     (\<forall>p. p \<noteq> merge_out_path opts oh \<longrightarrow> fs_read fs' p = fs_read fs p) \<and> run_fields res' = run_fields res"
proof -
  let ?out = "merge_out_path opts oh" and ?news = "new_recs E fs newPath"
  obtain olds oe where sc: "Scan E fs oldPath collect [] = (olds, oe)" by fastforce
  then have ok: "list_all rec_ok olds" using oks(1) by simp
  obtain ents arena nh tr res1 fs1 w0 ms where ld: "(if newPath = [] then Inr ([], [], zero_header, False, res)
        else loadNewShard E fs newPath res) = Inr (ents, arena, nh, tr, res1)"
    and fs1: "fs1 = fs_write (fs_write fs ?out []) ?out (replicate headerSize 0)"
    and w0: "w0 = newWriter (replicate headerSize 0) ?out (h_Shards oh) (h_ShardID oh) now"
    and run1: "Scan E fs1 oldPath (old_fn E (o_Mask opts) arena) (merge_init opts oh newPath ents nh tr res1 counts w0) = (ms, None)"
    and fin: "merge_finish E fs1 ms = (fs', (sr, res', counts'))"
    using mergeShard_Inr [OF run oh] by metis
  define ms0 where "ms0 = merge_init opts oh newPath ents nh tr res1 counts w0"
  define R where "R = map (choice (o_Mask opts) (new_table ?news)) (first_recs {} olds)"
  define t where "t = (if newPath \<noteq> [] then h_Created nh else h_Created oh)"
  define w where "w = newWriter (replicate headerSize 0) ?out (h_Shards oh) (h_ShardID oh) now\<lparr>w_Start := t\<rparr>"
  note v = loaded_view [OF ld oks(2)]
  have init: "ms_w ms0 = w" "ms_counts ms0 = counts" "ms_seen ms0 = seen_empty" "run_fields (ms_res ms0) = run_fields res"
    "sr_Merged (ms_sr ms0) = 0" "sr_OldTotal (ms_sr ms0) = 0" "sr_Shard (ms_sr ms0) = unat (h_ShardID oh)" "sr_OutFile (ms_sr ms0) = ?out"
    using v by (simp_all add: ms0_def merge_init_def w_def w0 t_def run_fields_def)
  have sc1: "Scan E fs1 oldPath collect [] = (olds, oe)"
    using Scan_fs_cong [of fs1 oldPath fs E collect "[]"] other sc by (simp add: fs1 fs_read_write)
  have "table_inv arena (new_table ?news) ms0" using v oks(2) by (intro new_table_inv) (simp_all add: ms0_def merge_init_def)
  note o = old_scanned [OF run1 [folded ms0_def] sc1 ok this init(3), folded R_def, unfolded init]
  obtain rs where rs: "Scan E (Close E (Consume E R w) fs1) ?out collect [] = (rs, None)"
    "mset rs = mset (map (merge_rec (o_Mask opts) ?news) (first_recs {} olds))"
    "\<And>c. status_count c R = length (with_status c rs)"
    using merged_file [OF E conjunct1 [OF v] ok oks(2), where msk = "o_Mask opts" and out = ?out and shards = "h_Shards oh"
      and shardID = "h_ShardID oh" and now = now and t = t and ?fs1.0 = fs1] unfolding R_def w_def by blast
  have f: "fs' = Close E (Consume E R w) fs1" "counts' = bump_counts R counts" "sr = ms_sr ms" "run_fields res' = run_fields res"
    using fin o by (auto simp: merge_finish_def run_fields_def)
  have "length rs = length (first_recs {} olds)" using rs(2) by (metis length_map size_mset)
  then have "shard_written E fs fs' opts (unat (h_ShardID oh)) oldPath sr rs"
    using sc rs(1) merged_ips [OF rs(2)] merged_rec_ok [OF rs(2) ok oks(2)] o
    by (simp add: shard_written_def f(1,3) merge_out_file [symmetric])
  moreover have "counts' = map (\<lambda>c. counts ! c + of_nat (length (with_status c rs))) [0..<8]"
    by (simp add: f(2) bump_counts_eq [OF len] rs(3))
  moreover have "fs_read fs' p = fs_read fs p" if "p \<noteq> ?out" for p
    using that Close_other [of p "Consume E R w" E fs1] by (simp add: f(1) Consume_frame w_def newWriter_def fs1 fs_read_write)
  ultimately show ?thesis using f(4) by blast
qed

section \<open>A whole run\<close>

lemma shard_written_cong:
  assumes "fs_read g oldPath = fs_read fs oldPath" and "fs_read g' (out_file opts sid) = fs_read fs' (out_file opts sid)"
  shows "shard_written E g g' opts sid oldPath sr rs = shard_written E fs fs' opts sid oldPath sr rs"
  using Scan_fs_cong [OF assms(1), of E collect "[]"] Scan_fs_cong [OF assms(2), of E collect "[]"]
  by (simp add: shard_written_def)

text \<open>No input file in \<open>P\<close> is one of the files that the merge writes.\<close>

definition inputs_ok :: "env \<Rightarrow> fs \<Rightarrow> Options \<Rightarrow> string set \<Rightarrow> bool" where
  "inputs_ok E fs opts P \<longleftrightarrow> (\<forall>p\<in>P. list_all rec_ok (fst (Scan E fs p collect [])) \<and> (\<forall>sid. out_file opts sid \<noteq> p))"

lemma inputs_ok_cong:
  assumes "inputs_ok E fs opts P" and "\<And>p. p \<in> P \<Longrightarrow> fs_read fs' p = fs_read fs p"
  shows "inputs_ok E fs' opts P"
  using assms(1) Scan_fs_cong [OF assms(2), of _ E collect "[]"] by (simp add: inputs_ok_def)

lemma run_shards_written:
  assumes E: "zstd_ok E" "sorts_keys (env_sort_slice E)"
    and "run_shards E now opts olds news sids fs res counts = (fs', Inr (res', counts'))"
    and "distinct sids" and "length counts = 8" and "inputs_ok E fs opts P" and "ran (map_of news) \<subseteq> P"
    and "\<forall>sid\<in>set sids. the (map_of olds sid) \<in> P \<and> (\<exists>h. ReadHeader fs (the (map_of olds sid)) = Inr h \<and> unat (h_ShardID h) = sid)"
  shows "\<exists>srs rss. res_Shards res' = res_Shards res @ srs \<and> length srs = length sids \<and> length rss = length sids \<and>
     (\<forall>i<length sids. shard_written E fs fs' opts (sids ! i) (the (map_of olds (sids ! i))) (srs ! i) (rss ! i)) \<and>
     counts' = map (\<lambda>c. counts ! c + of_nat (length (with_status c (concat rss)))) [0..<8] \<and>
     (\<forall>p. p \<notin> out_file opts ` set sids \<longrightarrow> fs_read fs' p = fs_read fs p) \<and>
     (res_OutDir res', res_TargetStatuses res', res_MergedTotal res', res_MergedCounts res') =
     (res_OutDir res, res_TargetStatuses res, res_MergedTotal res, res_MergedCounts res)"
  using assms(3-)
proof (induction sids arbitrary: fs res counts)
  case Nil
  then show ?case using map_nth [of counts] by (intro exI [of _ "[]"]) simp
next
  case (Cons sid sids)
  let ?old = "\<lambda>sid. the (map_of olds sid)"
  define newPath where "newPath = (case map_of news sid of None \<Rightarrow> [] | Some p \<Rightarrow> p)"
  obtain fs1 sr res1 counts1 where
    m: "mergeShard E now fs (?old sid) newPath opts res counts = (fs1, Inr (sr, res1, counts1))"
    and r: "run_shards E now opts olds news sids fs1 (res1\<lparr>res_Shards := res_Shards res1 @ [sr]\<rparr>) counts1 = (fs', Inr (res', counts'))"
    using Cons.prems(1) by (auto simp: Let_def newPath_def split: if_splits prod.splits sum.splits)
  obtain oh where oh: "ReadHeader fs (?old sid) = Inr oh" "unat (h_ShardID oh) = sid" and oldP: "?old sid \<in> P" using Cons.prems(6) by auto
  have "newPath \<in> P" if "newPath \<noteq> []"
  proof (cases "map_of news sid")
    case (Some p)
    then show ?thesis using Cons.prems(5) by (auto simp: newPath_def ran_def)
  qed (use that in \<open>simp add: newPath_def\<close>)
  then have "list_all rec_ok (new_recs E fs newPath)" using Cons.prems(4) by (simp add: inputs_ok_def new_recs_def)
  then obtain rs where w: "shard_written E fs fs1 opts sid (?old sid) sr rs"
    "counts1 = map (\<lambda>c. counts ! c + of_nat (length (with_status c rs))) [0..<8]"
    "\<And>p. p \<noteq> out_file opts sid \<Longrightarrow> fs_read fs1 p = fs_read fs p" "run_fields res1 = run_fields res"
    using mergeShard_written [OF E m oh(1)] Cons.prems(3,4) oldP by (auto simp: inputs_ok_def oh(2) merge_out_file)
  have same: "fs_read fs1 p = fs_read fs p" if "p \<in> P" for p using w(3) that Cons.prems(4) by (metis inputs_ok_def)
  have "\<forall>sid\<in>set sids. ?old sid \<in> P \<and> (\<exists>h. ReadHeader fs1 (?old sid) = Inr h \<and> unat (h_ShardID h) = sid)"
    using Cons.prems(6) read_cong [OF same] by simp
  then obtain srs rss where t: "res_Shards res' = res_Shards res1 @ [sr] @ srs" "length srs = length sids" "length rss = length sids"
    "\<forall>i<length sids. shard_written E fs1 fs' opts (sids ! i) (?old (sids ! i)) (srs ! i) (rss ! i)"
    "counts' = map (\<lambda>c. counts1 ! c + of_nat (length (with_status c (concat rss)))) [0..<8]"
    "\<And>p. p \<notin> out_file opts ` set sids \<Longrightarrow> fs_read fs' p = fs_read fs1 p"
    "(res_OutDir res', res_TargetStatuses res', res_MergedTotal res', res_MergedCounts res') =
     (res_OutDir res1, res_TargetStatuses res1, res_MergedTotal res1, res_MergedCounts res1)"
    using Cons.IH [OF r _ _ inputs_ok_cong [OF Cons.prems(4) same] Cons.prems(5)] Cons.prems(2) by (auto simp: w(2))
  have first: "shard_written E fs fs' opts sid (?old sid) sr rs"
  proof -
    have "out_file opts sid \<notin> out_file opts ` set sids" using Cons.prems(2) by (auto simp: image_iff)
    from shard_written_cong [OF refl t(6) [OF this]] show ?thesis using w(1) by simp
  qed
  have rest: "shard_written E fs fs' opts (sids ! i) (?old (sids ! i)) (srs ! i) (rss ! i)" if "i < length sids" for i
    using t(4) that Cons.prems(6) shard_written_cong [OF same refl] by simp
  show ?case
  proof (intro exI [of _ "sr # srs"] exI [of _ "rs # rss"] conjI)
    show "\<forall>i<length (sid # sids). shard_written E fs fs' opts ((sid # sids) ! i) (?old ((sid # sids) ! i)) ((sr # srs) ! i) ((rs # rss) ! i)"
      using first rest by (simp add: nth_Cons split: nat.split)
    show "counts' = map (\<lambda>c. counts ! c + of_nat (length (with_status c (concat (rs # rss))))) [0..<8]"
      by (simp add: t(5) w(2) add.assoc)
    show "\<forall>p. p \<notin> out_file opts ` set (sid # sids) \<longrightarrow> fs_read fs' p = fs_read fs p" using t(6) w(3) by simp
  qed (use t(1-3,7) w(4) in \<open>auto simp: run_fields_def\<close>)
qed

end
