(* ===== verification/Merge_Report.thy ===== *)
theory Merge_Report
  imports Merge_Output Summary_Report
begin

text \<open>
  The text report of a merge (\<open>RenderText\<close> of \<^verbatim>\<open>src/internal/merge/merge.go\<close>), and what the
  figures it prints say of the files that the merge has written.
\<close>

section \<open>The report\<close>

definition merged_count :: "Result \<Rightarrow> string \<Rightarrow> u64" where
  "merged_count res k = (case map_of (res_MergedCounts res) k of None \<Rightarrow> 0 | Some n \<Rightarrow> n)"

definition merged_rows :: "(real \<Rightarrow> real) \<Rightarrow> Result \<Rightarrow> string" where
  "merged_rows fl res = concat (map (\<lambda>c.
     let n = merged_count res (StatusString c) in
     if n = 0 then []
     else fprintln (''    '' @ pad_right 16 (StatusString c) @ '' '' @ pad_left 14 (group n) @ ''  '' @
            pad_left 6 (fmt_f 2 (percent_of fl n (res_MergedTotal res))) @ ''%''))
     (map of_nat [0..<NumStatusCodes]))"

text \<open>The date of the internal seconds count of a \<open>time.Time\<close>.\<close>

definition date_of :: "u64 \<Rightarrow> string" where
  "date_of created = fmt_date (sint created - 62135596800)"

definition merge_updates :: "Result \<Rightarrow> string" where
  "merge_updates res =
     fprintln (newline # ''  Applied updates (relative to the baseline):'') @
     fprintln (''    + '' @ group (res_Gained res) @ '' PTRs gained (previously non-resolving)'') @
     fprintln (''    ~ '' @ group (res_PTRChanged res) @ '' PTRs changed, '' @ group (res_PTRUnchanged res) @ '' unchanged'') @
     fprintln (''    - '' @ group (res_RemovedAuth res) @ '' PTRs authoritatively removed (nxdomain/noerror_empty)'') @
     fprintln (''    = '' @ group (res_GraceKept res) @ '' PTRs kept through transient failures (grace policy)'') @
     (if 0 < res_MissingKept res then
        fprintln (''    ! '' @ group (res_MissingKept res) @ '' targets had no new observation (baseline kept)'') else []) @
     (if 0 < res_OldDups res + res_NewDups res + res_UnexpectedNew res then
        fprintln (newline # ''  Bookkeeping: '' @ group (res_OldDups res) @ '' dup old | '' @ group (res_NewDups res) @ '' dup new | '' @
          group (res_UnexpectedNew res) @ '' unexpected new (all skipped)'') else [])"

definition merge_RenderText :: "(real \<Rightarrow> real) \<Rightarrow> Result \<Rightarrow> string" where
  "merge_RenderText fl res =
     rule_line 72 @ fprintln (''  rDNS merge '' @ em_dash @ '' re-crawl folded into baseline'') @ rule_line 72 @
     fprintln (''  merged '' @ show_nat (length (res_Shards res)) @ '' shard pairs '' @ arrow @ '' '' @ res_OutDir res @
       '' ('' @ group (res_MergedTotal res) @ '' records)'') @
     fprintln (''  target set: '' @ res_TargetStatuses res @ '' | dataset timestamp: '' @ date_of (res_Created res) @ [newline]) @
     fprintln ''  Merged dataset by status:'' @ merged_rows fl res @
     merge_updates res @ rule_line 72"

section \<open>The figures are those of the files\<close>

lemma StatusString_inj: "a < 8 \<Longrightarrow> b < 8 \<Longrightarrow> StatusString (of_nat a) = StatusString (of_nat b) \<Longrightarrow> a = b"
proof -
  assume *: "a < 8" "b < 8" and eq: "StatusString (of_nat a) = StatusString (of_nat b)"
  have u: "unat (of_nat n :: status_code) = n" if "n < 8" for n using that by (simp add: unat_of_nat)
  have "Code (StatusString (of_nat a)) = of_nat a" "Code (StatusString (of_nat b)) = of_nat b"
    using * by (auto intro!: Code_StatusString_id simp: u NumStatusCodes_def)
  then show "a = b" using eq u [OF *(1)] u [OF *(2)] by metis
qed

lemma sum_counts_spec:
  assumes "\<forall>c\<in>set cs. c < 8" "distinct cs" "\<forall>c\<in>set cs. merged_count res (StatusString (of_nat c)) = 0"
  shows "res_MergedTotal (sum_counts cs counts res) = res_MergedTotal res + sum_list (map ((!) counts) cs) \<and>
     (\<forall>c<8. merged_count (sum_counts cs counts res) (StatusString (of_nat c)) =
        (if c \<in> set cs then counts ! c else merged_count res (StatusString (of_nat c)))) \<and>
     (res_Shards (sum_counts cs counts res), res_OutDir (sum_counts cs counts res), res_TargetStatuses (sum_counts cs counts res)) =
     (res_Shards res, res_OutDir res, res_TargetStatuses res)"
  using assms
proof (induction cs arbitrary: res)
  case (Cons c cs)
  define R where "R = (if 0 < counts ! c
      then res\<lparr>res_MergedCounts := AList.update (StatusString (of_nat c)) (counts ! c) (res_MergedCounts res)\<rparr>
      else res)\<lparr>res_MergedTotal := res_MergedTotal res + counts ! c\<rparr>"
  have mc: "merged_count R (StatusString (of_nat d)) =
      (if d = c then counts ! c else merged_count res (StatusString (of_nat d)))" if "d < 8" for d
    using that Cons.prems StatusString_inj [of d c] by (auto simp: R_def merged_count_def update_conv' word_gt_0)
  have R: "res_MergedTotal R = res_MergedTotal res + counts ! c" "res_Shards R = res_Shards res"
    "res_OutDir R = res_OutDir res" "res_TargetStatuses R = res_TargetStatuses res"
    by (simp_all add: R_def)
  have eq: "sum_counts (c # cs) counts res = sum_counts cs counts R" by (simp add: Let_def R_def)
  have "\<forall>d\<in>set cs. merged_count R (StatusString (of_nat d)) = 0" using mc Cons.prems by auto
  with Cons.IH [of R] Cons.prems(1,2) show ?case unfolding eq R using mc by (auto simp: ac_simps)
qed simp


lemma discovered:
  assumes "discover fs path = Inr m"
  shows "distinct (sortedKeys m) \<and> (\<forall>sid\<in>set (sortedKeys m). the (map_of m sid) \<in> snd ` set m \<and>
     (\<exists>h. ReadHeader fs (the (map_of m sid)) = Inr h \<and> unat (h_ShardID h) = sid))"
proof -
  note s = discover_sound [OF assms]
  have "the (map_of m sid) \<in> snd ` set m \<and> (\<exists>h. ReadHeader fs (the (map_of m sid)) = Inr h \<and> unat (h_ShardID h) = sid)"
    if mem: "sid \<in> set (sortedKeys m)" for sid
  proof -
    obtain f where f: "(sid, f) \<in> set m" using mem by (force simp: sortedKeys_def)
    then have "map_of m sid = Some f" using s by simp
    then show ?thesis using s f by (force simp: list_all_iff)
  qed
  then show ?thesis using s by (simp add: sortedKeys_def)
qed

lemma length_by_status: "list_all (\<lambda>r. unat (s_Status r) < 8) rs \<Longrightarrow> length rs = (\<Sum>c\<leftarrow>[0..<8]. length (with_status c rs))"
proof (induction rs)
  case (Cons r rs)
  have "(\<Sum>c\<leftarrow>[0..<8]. length (with_status c (r # rs))) = (\<Sum>c\<leftarrow>[0..<8]. length (with_status c rs) + (if unat (s_Status r) = c then 1 else 0))"
    by (rule arg_cong [of _ _ sum_list], rule map_cong) simp_all
  also have "\<dots> = (\<Sum>c\<leftarrow>[0..<8]. length (with_status c rs)) + (\<Sum>c\<leftarrow>[0..<8]. if unat (s_Status r) = c then 1 else 0)"
    by (rule sum_list_addf)
  also have "(\<Sum>c\<leftarrow>[0..<8]. if unat (s_Status r) = c then 1 else 0) = (1 :: nat)"
    using Cons.prems by (simp add: interv_sum_list_conv_sum_set_nat)
  finally show ?case using Cons by simp
qed simp

text \<open>
  C16. A merge report tells what the output files hold. When a merge succeeds, whatever shards of the new
  pass were missing or cut short, there is one entry and one output file per baseline shard, and
  this file reads back without an error, with exactly one record for every address of its baseline file; the
  entry gives the number of these records, both as the number of distinct baseline addresses and as the
  number of records written. The total of the report and its figure for each status are the number of
  records, and of those with that status, in all output files. The input files are as the
  crawler writes them, and none of them is itself an output file of the merge (for that case see C39).
\<close>
theorem merge_report_exact:
  assumes "zstd_ok E" and "sorts_keys (env_sort_slice E)"
    and "Run E now fs opts = (fs', Inr res)"
    and "discover fs (o_OldPath opts) = Inr olds" and "discover fs (o_NewPath opts) = Inr news"
    and "inputs_ok E fs opts (snd ` set olds \<union> snd ` set news)"
  shows "\<exists>rss. length rss = length (sortedKeys olds) \<and> length (res_Shards res) = length (sortedKeys olds) \<and>
     (\<forall>i<length (sortedKeys olds). shard_written E fs fs' opts (sortedKeys olds ! i)
        (the (map_of olds (sortedKeys olds ! i))) (res_Shards res ! i) (rss ! i)) \<and>
     res_MergedTotal res = of_nat (length (concat rss)) \<and>
     (\<forall>c<8. merged_count res (StatusString (of_nat c)) = of_nat (length (with_status c (concat rss)))) \<and>
     res_OutDir res = o_OutDir opts \<and> res_TargetStatuses res = mask_String (o_Mask opts)"
proof -
  let ?r0 = "zero_result\<lparr>res_OutDir := o_OutDir opts, res_TargetStatuses := mask_String (o_Mask opts)\<rparr>"
  let ?P = "snd ` set olds \<union> snd ` set news"
  obtain fs1 res1 counts where mk: "os_mkdir_all fs (o_OutDir opts) = Inr fs1"
    and run: "run_shards E now opts olds news (sortedKeys olds) fs1 ?r0 (replicate 8 0) = (fs', Inr (res1, counts))"
    and res: "res = sum_counts [0..<8] counts res1"
    using assms(3-5) unfolding Run_def NumStatusCodes_def by (auto split: sum.splits prod.splits)
  have same: "fs_read fs1 p = fs_read fs p" for p
    using mk by (auto simp: os_mkdir_all_def fs_read_def split: if_splits)
  have d: "distinct (sortedKeys olds)" "\<forall>sid\<in>set (sortedKeys olds). the (map_of olds sid) \<in> ?P \<and>
      (\<exists>h. ReadHeader fs1 (the (map_of olds sid)) = Inr h \<and> unat (h_ShardID h) = sid)"
    using discovered [OF assms(4)] read_cong [OF same] by auto
  have rn: "ran (map_of news) \<subseteq> ?P" by (force simp: ran_def dest: map_of_SomeD)
  note R = run_shards_written [OF assms(1,2) run d(1) _ inputs_ok_cong [OF assms(6) same] rn d(2)]
  obtain srs rss where w: "res_Shards res1 = srs" "length srs = length (sortedKeys olds)" "length rss = length (sortedKeys olds)"
    "\<forall>i<length (sortedKeys olds). shard_written E fs1 fs' opts (sortedKeys olds ! i)
        (the (map_of olds (sortedKeys olds ! i))) (srs ! i) (rss ! i)"
    "counts = map (\<lambda>c. replicate 8 0 ! c + of_nat (length (with_status c (concat rss)))) [0..<8]"
    "res_OutDir res1 = o_OutDir opts" "res_TargetStatuses res1 = mask_String (o_Mask opts)" "res_MergedTotal res1 = 0"
    "res_MergedCounts res1 = []"
  proof -
    have "length (replicate 8 (0 :: u64)) = 8" by simp
    from R [OF this] show ?thesis using that by (elim exE conjE) (simp add: zero_result_def)
  qed
  have counts: "counts ! c = of_nat (length (with_status c (concat rss)))" if "c < 8" for c using that by (simp add: w(5))
  have z: "merged_count res1 k = 0" for k by (simp add: merged_count_def w(9))
  note sums = sum_counts_spec [of "[0..<8]" res1 counts]
  have t: "res_MergedTotal res = sum_list (map ((!) counts) [0..<8])"
    and m: "\<And>c. c < 8 \<Longrightarrow> merged_count res (StatusString (of_nat c)) = counts ! c"
    and f: "res_Shards res = srs" "res_OutDir res = o_OutDir opts" "res_TargetStatuses res = mask_String (o_Mask opts)"
    using sums z w by (auto simp: res)
  have "list_all (\<lambda>r. unat (s_Status r) < 8) (concat rss)"
  proof -
    have "list_all rec_ok rs" if "rs \<in> set rss" for rs
      using that w(3,4) by (fastforce simp: in_set_conv_nth shard_written_def)
    then show ?thesis by (fastforce simp: list_all_iff rec_ok_def NumStatusCodes_def)
  qed
  then have "res_MergedTotal res = of_nat (length (concat rss))"
  proof -
    have "[0..<8] = [0, 1, 2, 3, 4, 5, 6, 7 :: nat]" by code_simp
    then show ?thesis using length_by_status [OF \<open>list_all _ (concat rss)\<close>] by (simp add: t counts)
  qed
  moreover have "shard_written E fs fs' opts sid p sr rs" if "shard_written E fs1 fs' opts sid p sr rs" for sid p sr rs
    using that shard_written_cong [OF same refl] by simp
  ultimately show ?thesis using w(2-4) m counts f by (intro exI [of _ rss]) simp
qed

lemma fs_pair_discover:
  "discover fs_pair ''o/s.rdnsz'' = Inr [(1, ''o/s.rdnsz'')]" "discover fs_pair ''n/s.rdnsz'' = Inr [(1, ''n/s.rdnsz'')]"
  using fs_pair_headers discover_one [of fs_pair "''o/s.rdnsz''"] discover_one [of fs_pair "''n/s.rdnsz''"] by force+

lemma run_example: "\<exists>fs' res. Run test_env 7 fs_pair opts_example = (fs', Inr res)"
proof -
  obtain oh nh where h: "ReadHeader fs_pair ''o/s.rdnsz'' = Inr oh" "ReadHeader fs_pair ''n/s.rdnsz'' = Inr nh"
    "h_Shards oh = 4" "h_Shards nh = 4" "h_ShardID oh = 1" "h_ShardID nh = 1"
    using fs_pair_headers by blast
  note d = fs_pair_discover
  have out: "merge_out_path opts_example oh = ''m/shard-1.rdnsz''"
    using out_example [OF h(5)] by (simp only: show_nat_1) simp
  have dir: "is_dir fs_pair ''m''" "fs_read fs_pair ''m'' = None"
    by (simp_all add: fs_pair_def shard_file_other is_dir_def dirs_example_def) (simp add: fs_read_def)
  have sz: "sum_list (map names_size [stored timeout_example]) \<le> 4294967295"
    by (simp add: names_size_def stored_examples CodeHasPTR_def)
  have ok: "list_all rec_ok [stored rec_example]" "list_all rec_ok [stored timeout_example]" "''n/s.rdnsz'' \<noteq> []"
    "merge_out_path opts_example oh \<noteq> ''o/s.rdnsz''" by (simp_all add: out)
  have paths: "is_dir fs_pair (path_dir (merge_out_path opts_example oh))" "\<not> is_dir fs_pair (merge_out_path opts_example oh)"
    unfolding out by (simp_all add: fs_pair_def shard_file_other is_dir_def dirs_example_def path_dir_def)
  obtain fs' sr res' cs where
    "mergeShard test_env 7 fs_pair ''o/s.rdnsz'' ''n/s.rdnsz'' opts_example
       (zero_result\<lparr>res_OutDir := ''m'', res_TargetStatuses := mask_String 1\<rparr>) (replicate NumStatusCodes 0) = (fs', Inr (sr, res', cs))"
    using merge_figures_spec [OF h(1,2) trans [OF h(4) h(3) [symmetric]] trans [OF h(6) h(5) [symmetric]] fs_pair_scans ok(1,2) sz ok(3,4) paths,
        where res = "zero_result\<lparr>res_OutDir := ''m'', res_TargetStatuses := mask_String 1\<rparr>" and now = 7
          and counts = "replicate NumStatusCodes 0"] by blast
  then show ?thesis
    using d dir by (simp add: Run_def opts_example_def os_mkdir_all_def sortedKeys_def)
qed

theorem merge_report_exact_witness:
  "\<exists>fs' res rss. Run test_env 7 fs_pair opts_example = (fs', Inr res) \<and> length rss = 1 \<and>
     shard_written test_env fs_pair fs' opts_example 1 ''o/s.rdnsz'' (res_Shards res ! 0) (rss ! 0) \<and>
     res_MergedTotal res = of_nat (length (rss ! 0))"
proof -
  obtain fs' res where run: "Run test_env 7 fs_pair opts_example = (fs', Inr res)" using run_example by blast
  have ne: "out_file opts_example sid \<noteq> ''o/s.rdnsz''" "out_file opts_example sid \<noteq> ''n/s.rdnsz''" for sid
    by (simp_all add: out_file_def path_join_def opts_example_def)
  have "inputs_ok test_env fs_pair opts_example (snd ` set [(1 :: nat, ''o/s.rdnsz'')] \<union> snd ` set [(1 :: nat, ''n/s.rdnsz'')])"
    using fs_pair_scans ne by (simp add: inputs_ok_def)
  moreover have "o_OldPath opts_example = ''o/s.rdnsz''" "o_NewPath opts_example = ''n/s.rdnsz''" by (simp_all add: opts_example_def)
  moreover have "sortedKeys [(1, ''o/s.rdnsz'')] = [1]" by (simp add: sortedKeys_def)
  ultimately obtain rss where "length rss = 1" "shard_written test_env fs_pair fs' opts_example 1 ''o/s.rdnsz'' (res_Shards res ! 0) (rss ! 0)"
    "res_MergedTotal res = of_nat (length (concat rss))"
    using merge_report_exact [OF zstd_ok_test_env test_env_sorts(1) run, of "[(1, ''o/s.rdnsz'')]" "[(1, ''n/s.rdnsz'')]"] fs_pair_discover
    by auto
  then show ?thesis using run by (intro exI [of _ fs'] exI [of _ res] exI [of _ rss]) (auto simp: length_Suc_conv)
qed

end
