(* ===== verification/Compare_Report.thy ===== *)
theory Compare_Report
  imports Compare Summary_Report
begin

text \<open>
  The text report of a comparison (\<open>RenderText\<close> and its helpers in
  \<^verbatim>\<open>src/internal/compare/compare.go\<close>), and its independence of the iteration order of Go's maps.
\<close>

section \<open>Numbers\<close>

function compare_group_loop :: "string \<Rightarrow> string \<Rightarrow> string" where
  "compare_group_loop b s =
     (if s = [] then b
      else compare_group_loop ((if b \<noteq> [] then b @ '','' else b) @ take 3 s) (drop 3 s))"
  by pat_completeness auto
termination
  by (relation "measure (\<lambda>(b, s). length s)") auto

declare compare_group_loop.simps [simp del]

definition compare_group :: "u64 \<Rightarrow> string" where
  "compare_group n =
     (let s = show_word n in
      if length s \<le> 3 then s
      else let pre = length s mod 3 in compare_group_loop (take pre s) (drop pre s))"

definition pctOf :: "(real \<Rightarrow> real) \<Rightarrow> u64 \<Rightarrow> u64 \<Rightarrow> string" where
  "pctOf fl n totl = (if totl = 0 then ''-'' else fmt_f 2 (percent_of fl n totl) @ ''%'')"

section \<open>The report\<close>

text \<open>
  A Go map is an association list with distinct keys; the order of the list is the order in which
  the runtime happens to iterate over the map.
\<close>

definition row_of :: "compare_Result \<Rightarrow> string \<Rightarrow> ucounter" where
  "row_of res st = (case map_of (cr_Transitions res) st of None \<Rightarrow> [] | Some row \<Rightarrow> row)"

definition sortedStatusKeys :: "ucounter \<Rightarrow> string list" where
  "sortedStatusKeys m = filter (\<lambda>k. map_of m k \<noteq> None) (map (\<lambda>c. StatusString (of_nat c)) [0..<NumStatusCodes])"

definition row_items :: "ucounter \<Rightarrow> ucounter" where
  "row_items row = sort_key (\<lambda>kv. (- int (unat (snd kv)), fst kv)) (filter (\<lambda>kv. fst kv \<noteq> ''missing'') row)"

definition renderRow :: "(real \<Rightarrow> real) \<Rightarrow> ucounter \<Rightarrow> u64 \<Rightarrow> string" where
  "renderRow fl row crawled = tabwrite
     (concat (map (\<lambda>(k, v). fprintln (''    now '' @ k @ [tab] @ compare_group v @ [tab] @ pctOf fl v crawled)) (row_items row)) @
      (if 0 < ucount row ''missing'' then fprintln (''    not crawled yet'' @ [tab] @ compare_group (ucount row ''missing'') @ [tab])
       else []))"

definition row_crawled :: "ucounter \<Rightarrow> u64" where
  "row_crawled row = fold (\<lambda>(k, v) n. if k \<noteq> ''missing'' then n + v else n) row 0"

definition pass_lines :: "string \<Rightarrow> PassInfo \<Rightarrow> string" where
  "pass_lines label p =
     fprintln (''  '' @ label @ '' pass: '' @ pi_Path p @ newline # ''            '' @ show_nat (pi_Files p) @ '' files | '' @
       show_word (pi_Shards p) @ '' shards | '' @ fmt_date (pi_Created p) @ '' | '' @ compare_group (pi_TotalQueried p) @ '' IPs queried'')"

definition render_heading :: "compare_Result \<Rightarrow> string" where
  "render_heading r =
     rule_line 72 @ fprintln ''  rDNS re-crawl comparison'' @ rule_line 72 @
     pass_lines ''old'' (cr_Old r) @ pass_lines ''new'' (cr_New r) @
     fprintln (''  passes are '' @ fmt_f 1 (Finite (cr_DaysBetween r)) @ '' days apart | target set: '' @ cr_TargetStatuses r) @
     (if cr_MissingNewShards r \<noteq> [] then
        fprintln (''  WARNING: no new file for old shards '' @ show_ints (cr_MissingNewShards r) @ '' '' @ em_dash @
          '' their targets are excluded'') else []) @
     (if cr_TruncatedNewShards r \<noteq> [] then
        fprintln (''  NOTE: new shards '' @ show_ints (cr_TruncatedNewShards r) @
          '' were truncated (collected mid-crawl); partial data compared'') else [])"

definition previously :: "(real \<Rightarrow> real) \<Rightarrow> string \<Rightarrow> u64 \<Rightarrow> u64 \<Rightarrow> string" where
  "previously fl name targets crawled =
     fprintln (newline # ''  Previously '' @ name @ '' ('' @ compare_group targets @ '' targets, '' @ compare_group crawled @
       '' crawled '' @ em_dash @ '' '' @ pctOf fl crawled targets @ ''):'')"

definition render_timeout :: "(real \<Rightarrow> real) \<Rightarrow> compare_Result \<Rightarrow> string" where
  "render_timeout fl r =
     (let h = cr_Headline r; g = cr_Gained r in
      if 0 < hl_TimeoutTargets h then
        previously fl ''TIMEOUT'' (hl_TimeoutTargets h) (hl_TimeoutCrawled h) @
        renderRow fl (row_of r StatusTimeout) (hl_TimeoutCrawled h) @
        fprintln (''    '' @ arrow @ '' '' @ fmt_f 2 (Finite (hl_TimeoutNowPTRPct h)) @
          ''% of the crawled timeout set now yields a PTR hostname'') @
        fprintln (''    '' @ arrow @ '' '' @ fmt_f 2 (Finite (hl_TimeoutNowDefinitive h)) @
          ''% now gives a definitive answer (has_ptr / nxdomain / noerror_empty)'') @
        (if 0 < g_FCChecked g then
           fprintln (''    '' @ arrow @ '' recovered PTRs forward-confirm (FCrDNS) at '' @ pctOf fl (g_FCMatch g) (g_FCChecked g) @
             '' ('' @ compare_group (g_FCMatch g) @ '' of '' @ compare_group (g_FCChecked g) @ '' checked)'')
         else [])
      else [])"

definition render_other :: "(real \<Rightarrow> real) \<Rightarrow> compare_Result \<Rightarrow> string" where
  "render_other fl r =
     concat (map (\<lambda>st.
       if st = StatusHasPTR \<or> st = StatusTimeout then []
       else
         let targets = ucount (cr_Targets r) st; row = row_of r st; crawled = row_crawled row in
         previously fl (to_upper_ascii st) targets crawled @ renderRow fl row crawled @
         fprintln (''    '' @ arrow @ '' '' @ pctOf fl (ucount row StatusHasPTR) crawled @ '' of the crawled '' @ st @
           '' set now yields a PTR hostname''))
       (sortedStatusKeys (cr_Targets r)))"

definition render_has_ptr :: "(real \<Rightarrow> real) \<Rightarrow> compare_Result \<Rightarrow> string" where
  "render_has_ptr fl r =
     (let h = cr_Headline r; fc = cr_FC r in
      if 0 < hl_HasPTRTargets h then
        previously fl ''HAS_PTR'' (hl_HasPTRTargets h) (hl_HasPTRCrawled h) @
        renderRow fl (row_of r StatusHasPTR) (hl_HasPTRCrawled h) @
        fprintln (''    '' @ arrow @ '' unchanged PTR    '' @ compare_group (cr_PTRUnchanged r) @ '' ('' @
          fmt_f 2 (Finite (hl_PTRUnchangedPct h)) @ ''%)'') @
        fprintln (''    '' @ arrow @ '' changed PTR      '' @ compare_group (cr_PTRChanged r) @ '' ('' @
          fmt_f 2 (Finite (hl_PTRChangedPct h)) @ ''%)  '' @ approx @ '' '' @ fmt_f 4 (Finite (hl_ChangedPerDayPct h)) @ ''%/day churn'') @
        fprintln (''    '' @ arrow @ '' PTR removed      '' @ fmt_f 2 (Finite (hl_PTRRemovedPct h)) @
          ''% (authoritative nxdomain/noerror_empty)'') @
        fprintln (''    '' @ arrow @ '' transient fail   '' @ fmt_f 2 (Finite (hl_PTRTransientPct h)) @
          ''% (timeout/servfail/refused/net_error)'') @
        (if 0 < fc_BothChecked fc then
           fprintln (''    '' @ arrow @ '' FCrDNS (both passes checked, '' @ compare_group (fc_BothChecked fc) @ '' IPs): '' @
             pctOf fl (fc_MatchBoth fc) (fc_BothChecked fc) @ '' stayed confirmed, '' @
             pctOf fl (fc_MatchOldOnly fc) (fc_BothChecked fc) @ '' lost, '' @
             pctOf fl (fc_MatchNewOnly fc) (fc_BothChecked fc) @ '' gained confirmation'')
         else [])
      else [])"

definition render_net :: "compare_Result \<Rightarrow> string" where
  "render_net r =
     (let gained = g_Total (cr_Gained r);
          lostAuth = ucount (row_of r StatusHasPTR) StatusNXDomain + ucount (row_of r StatusHasPTR) StatusNoErrorEmpty in
      fprintln (newline # ''  Net PTR movement (crawled targets only):'') @
      fprintln (''    + '' @ compare_group gained @ '' PTRs gained from previously non-resolving targets'') @
      fprintln (''    - '' @ compare_group lostAuth @ '' PTRs authoritatively removed from the has_ptr set'') @
      (if lostAuth \<le> gained then fprintln (''    = net +'' @ compare_group (gained - lostAuth))
       else fprintln (''    = net -'' @ compare_group (lostAuth - gained))))"

definition compare_RenderText :: "(real \<Rightarrow> real) \<Rightarrow> compare_Result \<Rightarrow> string" where
  "compare_RenderText fl r =
     render_heading r @ render_timeout fl r @ render_other fl r @ render_has_ptr fl r @ render_net r @
     (if g_TopTLDs (cr_Gained r) \<noteq> [] then
        fprintln (newline # ''  Top TLDs of gained PTRs:'') @
        tabwrite (concat (map (\<lambda>(t, n). fprintln (''    .'' @ t @ [tab] @ compare_group n)) (g_TopTLDs (cr_Gained r))))
      else []) @
     (if 0 < cr_OldDupTargets r + cr_NewDupRecords r + cr_UnexpectedNew r then
        fprintln (newline # ''  Bookkeeping: '' @ compare_group (cr_OldDupTargets r) @ '' dup old targets | '' @
          compare_group (cr_NewDupRecords r) @ '' dup new records | '' @
          compare_group (cr_UnexpectedNew r) @ '' new records outside target set'')
      else []) @
     rule_line 72"

section \<open>Map iteration order\<close>

lemma sorted_mset_unique: "sorted xs \<Longrightarrow> sorted ys \<Longrightarrow> mset xs = mset ys \<Longrightarrow> xs = (ys :: 'a::linorder list)"
  by (metis properties_for_sort sorted_sort_id)

lemma sorted_fst_of_pair: "sorted (map (\<lambda>x. (f x :: int, g x :: string)) xs) \<Longrightarrow> sorted (map f xs)"
  by (induction xs) (auto simp: less_eq_prod_def)

lemma sort_key_mset_eq:
  assumes "mset xs = mset ys" "inj_on f (set xs)"
  shows "sort_key f xs = sort_key f ys"
proof -
  have "map f (sort_key f xs) = map f (sort_key f ys)"
    by (intro sorted_mset_unique) (simp_all add: assms(1))
  moreover have "set ys = set xs" using assms(1) by (metis set_mset_mset)
  ultimately show ?thesis using assms(2) by (intro map_inj_on [where f = f]) simp_all
qed

lemma row_items_order:
  assumes "mset row = mset row'" "distinct (map fst row)"
  shows "row_items row = row_items row'"
proof -
  have "inj_on (\<lambda>kv. (- int (unat (snd kv)), fst kv)) (set row)"
    using assms(2) by (auto simp: inj_on_def distinct_map)
  then show ?thesis
    unfolding row_items_def by (intro sort_key_mset_eq) (auto intro: inj_on_subset simp: assms(1))
qed

lemma row_crawled_sum: "row_crawled row = sum_list (map snd (filter (\<lambda>kv. fst kv \<noteq> ''missing'') row))"
proof -
  have "fold (\<lambda>(k, v) n. if k \<noteq> ''missing'' then n + v else n) row n =
      n + sum_list (map snd (filter (\<lambda>kv. fst kv \<noteq> ''missing'') row))" for n
    by (induction row arbitrary: n) (auto simp: ac_simps)
  then show ?thesis by (simp add: row_crawled_def)
qed

lemma row_crawled_order: "mset row = mset row' \<Longrightarrow> row_crawled row = row_crawled row'"
  unfolding row_crawled_sum by (simp flip: sum_mset_sum_list)

lemma ucount_order: "mset row = mset row' \<Longrightarrow> distinct (map fst row) \<Longrightarrow> ucount row k = ucount row' k"
  unfolding ucount_def by (metis map_of_inject_set mset_eq_setD mset_map mset_eq_imp_distinct_iff)

lemma renderRow_order:
  "mset row = mset row' \<Longrightarrow> distinct (map fst row) \<Longrightarrow> renderRow fl row crawled = renderRow fl row' crawled"
  by (simp add: renderRow_def row_items_order ucount_order [of row row'])

text \<open>
  C21. The text report is determined by the figures. Go iterates over its maps in random order and
  sorts the rows with an unstable sort; two results that agree on every figure, however their maps
  are laid out, are rendered as the same text. In every row the statuses come in descending order
  of their counts.
\<close>
theorem render_order_irrelevant:
  assumes rows: "\<forall>st. distinct (map fst (row_of res st)) \<and> mset (row_of res' st) = mset (row_of res st)"
    and targets: "map_of (cr_Targets res') = map_of (cr_Targets res)"
    and others: "res'\<lparr>cr_Transitions := [], cr_Targets := []\<rparr> = res\<lparr>cr_Transitions := [], cr_Targets := []\<rparr>"
  shows "compare_RenderText fl res' = compare_RenderText fl res \<and>
     sorted (map (\<lambda>kv. - int (unat (snd kv))) (row_items (row_of res st)))"
proof -
  have u: "ucount (row_of res' st) k = ucount (row_of res st) k" for st k using rows ucount_order by metis
  have r: "renderRow fl (row_of res' st) c = renderRow fl (row_of res st) c" for st c using rows renderRow_order by metis
  have c: "row_crawled (row_of res' st) = row_crawled (row_of res st)" for st using rows row_crawled_order by metis
  have t: "sortedStatusKeys (cr_Targets res') = sortedStatusKeys (cr_Targets res)" "ucount (cr_Targets res') k = ucount (cr_Targets res) k" for k
    by (simp_all add: sortedStatusKeys_def ucount_def targets)
  have o: "cr_Old res' = cr_Old res" "cr_New res' = cr_New res" "cr_DaysBetween res' = cr_DaysBetween res"
    "cr_ComparedShards res' = cr_ComparedShards res" "cr_MissingNewShards res' = cr_MissingNewShards res"
    "cr_TruncatedNewShards res' = cr_TruncatedNewShards res" "cr_TargetStatuses res' = cr_TargetStatuses res"
    "cr_PTRUnchanged res' = cr_PTRUnchanged res" "cr_PTRChanged res' = cr_PTRChanged res" "cr_FC res' = cr_FC res"
    "cr_Gained res' = cr_Gained res" "cr_Headline res' = cr_Headline res" "cr_OldDupTargets res' = cr_OldDupTargets res"
    "cr_NewDupRecords res' = cr_NewDupRecords res" "cr_UnexpectedNew res' = cr_UnexpectedNew res"
    using others by (cases res, cases res', simp)+
  have "render_heading res' = render_heading res" "render_net res' = render_net res" by (simp_all only: render_heading_def render_net_def u o)
  moreover have "render_timeout fl res' = render_timeout fl res" by (simp only: render_timeout_def r o)
  moreover have "render_other fl res' = render_other fl res" by (simp only: render_other_def Let_def u r c t)
  moreover have "render_has_ptr fl res' = render_has_ptr fl res" by (simp only: render_has_ptr_def r o)
  ultimately have "compare_RenderText fl res' = compare_RenderText fl res" by (simp only: compare_RenderText_def o)
  moreover have "sorted (map (\<lambda>kv. - int (unat (snd kv))) (row_items row))" for row
  proof -
    have "sorted (map (\<lambda>kv. (- int (unat (snd kv)), fst kv)) (row_items row))" by (simp add: row_items_def)
    then show ?thesis by (rule sorted_fst_of_pair)
  qed
  ultimately show ?thesis by blast
qed

section \<open>Witnesses\<close>

definition report_example :: "ucounter \<Rightarrow> compare_Result" where
  "report_example row = (zero_compare_Result info_example info_example ''has_ptr'' 0)
     \<lparr>cr_Targets := [(''has_ptr'', 5)], cr_Transitions := [(''has_ptr'', row)]\<rparr>"

theorem render_order_irrelevant_witness:
  "compare_RenderText id (report_example [(''timeout'', 2), (''missing'', 1), (''nxdomain'', 2)]) =
   compare_RenderText id (report_example [(''nxdomain'', 2), (''timeout'', 2), (''missing'', 1)])"
proof -
  have "compare_RenderText id (report_example [(''timeout'', 2), (''missing'', 1), (''nxdomain'', 2)]) =
      compare_RenderText id (report_example [(''nxdomain'', 2), (''timeout'', 2), (''missing'', 1)]) \<and>
    sorted (map (\<lambda>kv. - int (unat (snd kv))) (row_items (row_of (report_example [(''nxdomain'', 2), (''timeout'', 2), (''missing'', 1)]) [])))"
    by (rule render_order_irrelevant) (simp_all add: report_example_def row_of_def add_mset_commute)
  then show ?thesis by blast
qed

end
