(* ===== verification/Cli_Main.thy ===== *)
theory Cli_Main
  imports Cli_Flags Summary_Report Merge_Report Compare_Report
begin

text \<open>
  The program as a whole (\<^verbatim>\<open>src/cmd/rdns-crawler/main.go\<close>): what every mode prints and the code it
  exits with, and \<open>main_run\<close>, which relates the command line, the file system before and after,
  standard output and the exit code. An error before the worker pool starts ends a crawling mode with
  code 1 and is not a run of the relation (the plans \<open>crawl_plan\<close> and \<open>recrawl_plan\<close> report it).
\<close>

section \<open>The modes\<close>

fun sink_PrintSummary :: "(real \<Rightarrow> real) \<Rightarrow> fs \<Rightarrow> nat \<Rightarrow> backend \<Rightarrow> go_error + string" where
  "sink_PrintSummary fl fs elapsed (Rdnsz w) = PrintSummary fl fs elapsed w"
| "sink_PrintSummary fl fs elapsed (Jsonl w) = Inr (output_PrintSummary fl elapsed w)"

text \<open>\<open>filepath.Base\<close>.\<close>

definition path_base :: "string \<Rightarrow> string" where
  "path_base p =
     (if p = [] then ''.''
      else let q = rev (dropWhile (\<lambda>c. c = CHR ''/'') (rev p)) in
        if q = [] then ''/'' else (case last_index q (CHR ''/'') of None \<Rightarrow> q | Some i \<Rightarrow> drop (i + 1) q))"

definition info_line :: "string \<Rightarrow> Header \<Rightarrow> string" where
  "info_line p h =
     fprintln (pad_right 24 (path_base p) @ '' shard '' @ pad_left 2 (show_word (h_ShardID h)) @ ''/'' @ show_word (h_Shards h) @
       ''  total='' @ pad_right 12 (show_word (h_Total h)) @ '' has_ptr='' @ pad_right 12 (show_word (header_Count h CodeHasPTR)) @
       '' timeout='' @ pad_right 12 (show_word (header_Count h CodeTimeout)) @ '' created='' @ date_of (unix_time (h_Created h)))"

text \<open>Every line is printed before the next header is read.\<close>

fun info_loop :: "fs \<Rightarrow> string list \<Rightarrow> u64 \<Rightarrow> u64 list \<Rightarrow> string \<Rightarrow> string \<times> (go_error + (u64 \<times> u64 list))" where
  "info_loop fs [] totl counts out = (out, Inr (totl, counts))"
| "info_loop fs (p # ps) totl counts out =
     (case ReadHeader fs p of
        Inl e \<Rightarrow> (out, Inl e)
      | Inr h \<Rightarrow> info_loop fs ps (totl + h_Total h) (map2 (+) counts (h_Counts h)) (out @ info_line p h))"

definition info_rows :: "(real \<Rightarrow> real) \<Rightarrow> u64 \<Rightarrow> u64 list \<Rightarrow> string" where
  "info_rows fl totl counts = concat (map (\<lambda>c.
     if counts ! c = 0 then []
     else fprintln (''  '' @ pad_right 16 (StatusString (of_nat c)) @ '' '' @ pad_right 13 (show_word (counts ! c)) @ '' '' @
            pad_left 5 (fmt_f 2 (percent_of fl (counts ! c) totl)) @ ''%'')) [0..<NumStatusCodes])"

definition info_tail :: "(real \<Rightarrow> real) \<Rightarrow> nat \<Rightarrow> u64 \<Rightarrow> u64 list \<Rightarrow> string" where
  "info_tail fl files totl counts =
     (if 1 < files then fprintln (newline # ''aggregate over '' @ show_nat files @ '' files: total='' @ show_word totl)
      else fprintln (newline # ''total='' @ show_word totl)) @
     info_rows fl totl counts @
     (let recrawlSet = counts ! unat CodeHasPTR + counts ! unat CodeTimeout in
      if 0 < totl \<and> 0 < recrawlSet then
        fprintln (''  re-crawl target set (has_ptr+timeout): '' @ show_word recrawlSet @ '' ('' @ fmt_f 1 (percent_of fl recrawlSet totl) @ ''%)'')
      else [])"

text \<open>Standard output and exit code of \<open>info\<close>.\<close>

definition info_main :: "(real \<Rightarrow> real) \<Rightarrow> fs \<Rightarrow> string list \<Rightarrow> string \<times> nat" where
  "info_main fl fs args =
     (case info_paths fs args of
        Inl e \<Rightarrow> ([], 1)
      | Inr paths \<Rightarrow>
          if paths = [] then ([], 1)
          else case info_loop fs paths 0 (replicate NumStatusCodes 0) [] of
              (out, Inl e) \<Rightarrow> (out, 1)
            | (out, Inr (totl, counts)) \<Rightarrow> (out @ info_tail fl (length paths) totl counts, 0))"

text \<open>
  The other offline modes. \<open>json.MarshalIndent\<close> of the two result types is the parameter
  \<open>marshal\<close>; an error after the report was printed still ends the program with code 1.
\<close>

definition write_json :: "fs \<Rightarrow> string \<Rightarrow> go_error + string \<Rightarrow> fs \<times> nat" where
  "write_json fs path data =
     (if path = [] then (fs, 0)
      else case data of
          Inl e \<Rightarrow> (fs, 1)
        | Inr d \<Rightarrow> (case os_write_file fs path (bytes_of d) of Inl e \<Rightarrow> (fs, 1) | Inr fs' \<Rightarrow> (fs', 0)))"

definition compare_main ::
  "env \<Rightarrow> (real \<Rightarrow> real) \<Rightarrow> (compare_Result \<Rightarrow> go_error + string) \<Rightarrow> fs \<Rightarrow> string \<Rightarrow> string \<Rightarrow> string \<Rightarrow> string \<Rightarrow> int \<Rightarrow>
   fs \<times> string \<times> nat" where
  "compare_main E fl marshal fs old new statuses json top_tlds =
     (case runCompare E fl fs old new statuses top_tlds of
        Inl e \<Rightarrow> (fs, [], 1)
      | Inr res \<Rightarrow> (case write_json fs json (marshal res) of (fs', code) \<Rightarrow> (fs', compare_RenderText fl res, code)))"

definition merge_main ::
  "env \<Rightarrow> (real \<Rightarrow> real) \<Rightarrow> (Result \<Rightarrow> go_error + string) \<Rightarrow> u64 \<Rightarrow> fs \<Rightarrow> string \<Rightarrow> string \<Rightarrow> string \<Rightarrow> string \<Rightarrow> string \<Rightarrow> bool \<Rightarrow>
   fs \<times> string \<times> nat" where
  "merge_main E fl marshal now fs old new out statuses json partial =
     (case runMerge E now fs old new out statuses partial of
        (fs', Inl e) \<Rightarrow> (fs', [], 1)
      | (fs', Inr res) \<Rightarrow> (case write_json fs' json (marshal res) of (fs'', code) \<Rightarrow> (fs'', merge_RenderText fl res, code)))"

definition dump_main :: "env \<Rightarrow> fs \<Rightarrow> string \<Rightarrow> bool \<Rightarrow> bool \<Rightarrow> string \<times> nat" where
  "dump_main E fs path asCompact asText =
     (case runDump E fs path asCompact asText of (bs, err) \<Rightarrow> (string_of bs, if err = None then 0 else 1))"

text \<open>The line about the file that \<open>dump\<close> prints to standard error.\<close>

definition dump_banner :: "string \<Rightarrow> Header \<Rightarrow> string" where
  "dump_banner path h =
     fprintln (''[rdns] '' @ path_base path @ '': v'' @ show_word (h_Version h) @ '' shard '' @ show_word (h_ShardID h) @ ''/'' @
       show_word (h_Shards h) @ '' | total='' @ show_word (h_Total h) @ '' |'' @
       concat (map (\<lambda>c. if 0 < header_Count h c then '' '' @ StatusString c @ ''='' @ show_word (header_Count h c) else [])
         (map of_nat [0..<NumStatusCodes])))"

section \<open>Header summaries\<close>

lemma info_loop_spec:
  assumes "map (ReadHeader fs) paths = map Inr hs" "list_all (\<lambda>h. length (h_Counts h) = n) hs" "length counts = n"
  shows "info_loop fs paths totl counts out =
     (out @ concat (map2 info_line paths hs),
      Inr (totl + sum_list (map h_Total hs), map (\<lambda>c. counts ! c + (\<Sum>h\<leftarrow>hs. h_Counts h ! c)) [0..<n]))"
  using assms
proof (induction paths arbitrary: hs totl counts out)
  case Nil
  then show ?case using map_nth [of counts] by simp
next
  case (Cons p paths)
  then obtain h hs' where h: "hs = h # hs'" "ReadHeader fs p = Inr h" "map (ReadHeader fs) paths = map Inr hs'" by (cases hs) auto
  have l: "length (map2 (+) counts (h_Counts h)) = n" using Cons.prems(2,3) h(1) by simp
  have "map2 (+) counts (h_Counts h) ! c = counts ! c + h_Counts h ! c" if "c < n" for c
    using that Cons.prems(2,3) h(1) by simp
  then show ?case using Cons.IH [OF h(3) _ l] Cons.prems(2) by (simp add: h ac_simps)
qed

lemma info_loop_fails: "p \<in> set paths \<Longrightarrow> ReadHeader fs p = Inl e \<Longrightarrow> \<exists>out' e'. info_loop fs paths totl counts out = (out', Inl e')"
  by (induction paths arbitrary: totl counts out) (auto split: sum.split)

lemma ReadHeader_Counts: "ReadHeader fs p = Inr h \<Longrightarrow> length (h_Counts h) = NumStatusCodes"
  by (auto simp: ReadHeader_def parse_header_def Let_def split: option.splits if_splits)

text \<open>
  C22. \<open>info\<close> reports what the headers say. It ends with code 0 exactly if every file it was given
  has a readable header; then it prints one line per file, in order, and the totals and the counts
  per status are the sums over the files. With an unreadable header it ends with code 1.
\<close>
theorem info_exact:
  assumes paths: "info_paths fs args = Inr paths" "paths \<noteq> []"
  shows "(snd (info_main fl fs args) = 0 \<longleftrightarrow> (\<exists>hs. map (ReadHeader fs) paths = map Inr hs)) \<and>
     (\<forall>hs. map (ReadHeader fs) paths = map Inr hs \<longrightarrow>
        info_main fl fs args =
          (concat (map2 info_line paths hs) @
           info_tail fl (length paths) (sum_list (map h_Total hs)) (map (\<lambda>c. \<Sum>h\<leftarrow>hs. h_Counts h ! c) [0..<NumStatusCodes]), 0)) \<and>
     snd (info_main fl fs args) \<le> 1"
proof -
  have good: "info_main fl fs args =
      (concat (map2 info_line paths hs) @
       info_tail fl (length paths) (sum_list (map h_Total hs)) (map (\<lambda>c. \<Sum>h\<leftarrow>hs. h_Counts h ! c) [0..<NumStatusCodes]), 0)"
    if hs: "map (ReadHeader fs) paths = map Inr hs" for hs
  proof -
    have "length (h_Counts h) = NumStatusCodes" if "h \<in> set hs" for h
    proof -
      have "Inr h \<in> set (map (ReadHeader fs) paths)" unfolding hs using that by simp
      then show ?thesis using ReadHeader_Counts by (metis imageE list.set_map)
    qed
    then have "list_all (\<lambda>h. length (h_Counts h) = NumStatusCodes) hs" by (simp add: list_all_iff)
    note l = info_loop_spec [OF hs this, of "replicate NumStatusCodes 0" 0 "[]"]
    have eq: "map (\<lambda>c. replicate NumStatusCodes 0 ! c + (\<Sum>h\<leftarrow>hs. h_Counts h ! c)) [0..<NumStatusCodes] =
        map (\<lambda>c. \<Sum>h\<leftarrow>hs. h_Counts h ! c) [0..<NumStatusCodes]" by (intro map_cong) auto
    show ?thesis using l paths unfolding eq by (simp add: info_main_def)
  qed
  have bad: "snd (info_main fl fs args) = 1" if "\<nexists>hs. map (ReadHeader fs) paths = map Inr hs"
  proof -
    have "\<exists>p\<in>set paths. \<exists>e. ReadHeader fs p = Inl e"
    proof (rule ccontr)
      assume "\<not> ?thesis"
      then have "\<forall>p\<in>set paths. ReadHeader fs p = Inr (projr (ReadHeader fs p))" by (metis sum.collapse(2) sum.exhaust_sel)
      then have "map (ReadHeader fs) paths = map Inr (map (\<lambda>p. projr (ReadHeader fs p)) paths)" by simp
      then show False using that by blast
    qed
    then obtain out' e' where "info_loop fs paths 0 (replicate NumStatusCodes 0) [] = (out', Inl e')"
      using info_loop_fails by metis
    then show ?thesis using paths by (simp add: info_main_def)
  qed
  show ?thesis using good bad by (metis le_numeral_extra(4) le_zero_eq snd_conv zero_neq_one nat_le_linear zero_le_one)
qed

section \<open>The program\<close>

text \<open>
  A run of the program: the arguments and the file system at the start, the final state of the worker
  pool (for the crawling modes that reach it), the file system, standard output and exit code at the
  end. The clock readings of a run are arbitrary. \<open>rng\<close> is the seeded source of \<open>math/rand\<close>.
\<close>

inductive main_run ::
  "env \<Rightarrow> dns_lib \<Rightarrow> (real \<Rightarrow> real) \<Rightarrow> (string \<Rightarrow> int option) \<Rightarrow> (string \<Rightarrow> real option) \<Rightarrow> (int \<Rightarrow> nat \<Rightarrow> u32) \<Rightarrow>
   (compare_Result \<Rightarrow> go_error + string) \<Rightarrow> (Result \<Rightarrow> go_error + string) \<Rightarrow>
   string list \<Rightarrow> fs \<Rightarrow> pool option \<Rightarrow> fs \<Rightarrow> string \<Rightarrow> nat \<Rightarrow> bool"
  for E D fl pd pf rng mc mm argv fs where
  usage: "parse_command pd pf t argv = Cmd_Usage code \<Longrightarrow> main_run E D fl pd pf rng mc mm argv fs None fs [] code"
| flags: "parse_command pd pf t argv = Cmd_Exit code \<Longrightarrow> main_run E D fl pd pf rng mc mm argv fs None fs [] code"
| test: "parse_command pd pf t argv = Cmd_Test c cnt seed \<Longrightarrow> runTest E D c (rng seed) cnt ts now fs s fs' \<Longrightarrow>
     setup_mode c ''test'' 0 0 False ts now fs = Inr (fs1, res, wr, crw) \<Longrightarrow>
     sink_PrintSummary fl fs' elapsed (sink_Consume E (pl_out s) wr) = Inr out \<Longrightarrow>
     main_run E D fl pd pf rng mc mm argv fs (Some s) fs' out 0"
| crawl: "parse_command pd pf t argv = Cmd_Crawl f \<Longrightarrow> runCrawl E D (\<lambda>p. fl (p / 100)) f ts ts' now fs s fs' \<Longrightarrow>
     crawl_plan (\<lambda>p. fl (p / 100)) f ts ts' now fs = Inr (fs1, crw, wr, cfg, cp) \<Longrightarrow>
     sink_PrintSummary fl fs' elapsed (sink_Consume E (pl_out s) wr) = Inr out \<Longrightarrow>
     main_run E D fl pd pf rng mc mm argv fs (Some s) fs' out 0"
| recrawl: "parse_command pd pf t argv = Cmd_Recrawl r \<Longrightarrow> runRecrawl E D r ts now fs s fs' err \<Longrightarrow>
     recrawl_plan E r ts now fs = Inr (fs1, crw, wr, msk, skip, expected, cp) \<Longrightarrow>
     sink_PrintSummary fl fs' elapsed (sink_Consume E (pl_out s) wr) = Inr out \<Longrightarrow>
     main_run E D fl pd pf rng mc mm argv fs (Some s) fs' out (if err = None then 0 else 1)"
| compare: "parse_command pd pf t argv = Cmd_Compare old new statuses json top_tlds \<Longrightarrow>
     compare_main E fl mc fs old new statuses json top_tlds = (fs', out, code) \<Longrightarrow>
     main_run E D fl pd pf rng mc mm argv fs None fs' out code"
| merge: "parse_command pd pf t argv = Cmd_Merge old new outDir statuses json partial \<Longrightarrow>
     merge_main E fl mm now fs old new outDir statuses json partial = (fs', out, code) \<Longrightarrow>
     main_run E D fl pd pf rng mc mm argv fs None fs' out code"
| info: "parse_command pd pf t argv = Cmd_Info args \<Longrightarrow> info_main fl fs args = (out, code) \<Longrightarrow>
     main_run E D fl pd pf rng mc mm argv fs None fs out code"
| sweep: "parse_command pd pf t argv = Cmd_Sweep c startIP cnt \<Longrightarrow> runSweep E D c startIP cnt ts now fs s fs' \<Longrightarrow>
     setup_mode c ''sweep'' 0 0 False ts now fs = Inr (fs1, res, wr, crw) \<Longrightarrow>
     sink_PrintSummary fl fs' elapsed (sink_Consume E (pl_out s) wr) = Inr out \<Longrightarrow>
     main_run E D fl pd pf rng mc mm argv fs (Some s) fs' out 0"
| dump: "parse_command pd pf t argv = Cmd_Dump path asCompact asText \<Longrightarrow> dump_main E fs path asCompact asText = (out, code) \<Longrightarrow>
     main_run E D fl pd pf rng mc mm argv fs None fs out code"

inductive_cases main_runE: "main_run E D fl pd pf rng mc mm argv fs so fs' out code"

text \<open>What a compact writer that has only seen these records prints.\<close>

definition store_summary :: "env \<Rightarrow> (real \<Rightarrow> real) \<Rightarrow> nat \<Rightarrow> string \<Rightarrow> string \<Rightarrow> Record list \<Rightarrow> string" where
  "store_summary E fl elapsed disk path recs =
     fprintln [] @ rule_line 68 @ fprintln (''  rDNS-Crawler '' @ em_dash @ '' results (.rdnsz v2)'') @ rule_line 68 @
     tabwrite (crawled_row fl elapsed recs @ exact_rows fl recs @ fc_row fl [] recs) @ disk @
     tld_section E recs @ fprintln (newline # ''  Output: '' @ path) @ rule_line 68"

lemma fresh_summary:
  assumes "length recs < 2 ^ 64"
    and "PrintSummary fl fs elapsed (Consume E recs (newWriter hdr path sh sid now)) = Inr out"
  shows "\<exists>disk. out = store_summary E fl elapsed disk path recs"
proof -
  let ?v = "newWriter hdr path sh sid now"
  have v: "w_Total ?v = 0" "w_counts ?v = replicate 8 0" "w_FCChecked ?v = 0" "w_FCMatch ?v = 0" "w_tldCounts ?v = []" "w_Path ?v = path"
    by (simp_all add: newWriter_def NumStatusCodes_def)
  have "summary_table fl elapsed (Consume E recs ?v) = crawled_row fl elapsed recs @ exact_rows fl recs @ fc_row fl [] recs"
    using store_sink.total_fold [of E recs ?v] store_sink.by_code_fold [of ?v _ E recs] store_sink.fc_fold [of E recs ?v] v
    by (intro summary_exact assms(1)) (simp_all add: Consume_def)
  note st = this store_tld_fold [of E recs ?v, unfolded v(5)] trans [OF Consume_frame(1) v(6), of E recs]
  show ?thesis
  proof (cases "disk_line fl fs (Consume E recs ?v)")
    case (Inl e)
    then show ?thesis using assms(2) by (simp add: PrintSummary_def)
  next
    case (Inr disk)
    have "out = store_summary E fl elapsed disk path recs"
      using assms(2) unfolding PrintSummary_def Inr store_summary_def tld_section_def Let_def st(1,3) st(2) [symmetric]
      by (cases "w_tldCounts (Consume E recs ?v) = []") simp_all
    then show ?thesis by blast
  qed
qed

text \<open>
  C1. The crawl, from the command line to the report. When the program is started as \<open>crawl\<close> with the
  flags of a full-space crawl (a shard layout, no resume, no limit, the compact format) and its run
  is not cancelled, it ends with code 0; the output file scans cleanly and holds exactly one record
  per routable address of the shard, in the sample and from the start address on; and the report on
  standard output shows exactly these records: their number, the number with each status, the
  forward-confirmation figures and the top-level domains. The names that the servers send are assumed
  to be free of the marker bytes of the templating and within the size of a DNS name.
\<close>
theorem main_crawl_exact:
  assumes run: "main_run E D fl pd pf rng mc mm (prog # ''crawl'' # map (flag_arg sd sf) (crawl_assign f)) fs (Some s) fs' out code"
    and "\<not> pl_cancelled s"
    and E: "zstd_ok E" "sorts_keys (env_sort_slice E)"
    and args: "common_ok pd sd (fl_common f)" "pf (sf (fl_samplePct f)) = Some (fl_samplePct f)"
    and f: "k_out (fl_common f) \<noteq> []" "\<not> fl_resume f" "k_format (fl_common f) \<noteq> ''jsonl''" "fl_limit f = 0"
    and names: "\<forall>nm\<in>dns_names D. set nm \<inter> markers = {} \<and> length nm \<le> 1004"
  shows "code = 0 \<and> (\<exists>rs elapsed disk. Scan E fs' (k_out (fl_common f)) collect [] = (rs, None) \<and> distinct (map s_IP rs) \<and>
     s_IP ` set rs = {ip. IPToInt (fl_start f) \<le> ip \<and> \<not> IsReserved ip \<and>
        inShardSample ip (norm_shards \<lparr>c_Shards = ucast (fl_shards f), c_ShardID = ucast (fl_shardID f),
          c_StartIP = IPToInt (fl_start f), c_Limit = 0,
          c_SampleThreshold = SampleThresholdForPercent (\<lambda>p. fl (p / 100)) (fl_samplePct f)\<rparr>)} \<and>
     mset rs = mset (map stored (pl_out s)) \<and>
     out = store_summary E fl elapsed disk (k_out (fl_common f)) (pl_out s))"
proof -
  note cmd = crawl_assigned [where pf = pf and sf = sf, OF args]
  from run show ?thesis
  proof (cases rule: main_run.cases)
    case (crawl t f' ts ts' now fs1 crw wr cfg cp elapsed)
    have [simp]: "f' = f" using crawl(2) cmd by simp
    obtain rs where rs: "Scan E fs' (k_out (fl_common f)) collect [] = (rs, None)" "distinct (map s_IP rs)"
      "s_IP ` set rs = {ip. IPToInt (fl_start f) \<le> ip \<and> \<not> IsReserved ip \<and>
        inShardSample ip (norm_shards \<lparr>c_Shards = ucast (fl_shards f), c_ShardID = ucast (fl_shardID f),
          c_StartIP = IPToInt (fl_start f), c_Limit = 0,
          c_SampleThreshold = SampleThresholdForPercent (\<lambda>p. fl (p / 100)) (fl_samplePct f)\<rparr>)}"
      "mset rs = mset (map stored (pl_out s))"
      using crawl_run [OF crawl(3) [simplified] assms(2) E f names] by blast
    obtain now' where wr: "wr = Rdnsz (newWriter (replicate headerSize 0) (k_out (fl_common f)) (ucast (fl_shards f)) (ucast (fl_shardID f)) now')"
      using crawl_plan_Inr [OF crawl(4) [simplified] f(1-3)] by auto
    have "length (pl_out s) = length rs" using rs(4) by (metis length_map size_mset)
    also have "\<dots> = card (set (map s_IP rs))" using rs(2) distinct_card by fastforce
    also have "\<dots> \<le> card (UNIV :: u32 set)" by (intro card_mono) simp_all
    finally have "length (pl_out s) < 2 ^ 64" by (simp add: card_word)
    then obtain disk where "out = store_summary E fl elapsed disk (k_out (fl_common f)) (pl_out s)"
      using fresh_summary crawl(5) unfolding wr by fastforce
    then show ?thesis using rs crawl by blast
  qed (use cmd in simp_all)
qed


section \<open>Witnesses\<close>

lemma k_out_example: "k_out common_example = path_example"
  by (simp add: common_example_def)

lemma IPToInt_zero: "IPToInt ''0.0.0.0'' = 0"
  by code_simp

theorem main_crawl_exact_witness:
  "\<exists>s fs' out rs elapsed disk. main_run test_env dns_example id (\<lambda>_. Some 3000000000) (\<lambda>_. Some 100) (\<lambda>_ _. 0) (\<lambda>_. Inr []) (\<lambda>_. Inr [])
       (''rdns'' # ''crawl'' # map (flag_arg (\<lambda>_. ''3s'') (\<lambda>_. ''100'')) (crawl_assign crawl_example)) fs_example (Some s) fs' out 0 \<and>
     Scan test_env fs' path_example collect [] = (rs, None) \<and> length (pl_out s) = length rs \<and> rs \<noteq> [] \<and>
     out = store_summary test_env id elapsed disk path_example (pl_out s)"
proof -
  let ?d = "\<lambda>p. id (p / 100)" and ?argv = "''rdns'' # ''crawl'' # map (flag_arg (\<lambda>_. ''3s'') (\<lambda>_. ''100'')) (crawl_assign crawl_example)"
    and ?pd = "\<lambda>_. Some 3000000000" and ?pf = "\<lambda>_. Some 100"
  have args: "common_ok ?pd (\<lambda>_. ''3s'') (fl_common crawl_example)" "?pf ((\<lambda>_. ''100'') (fl_samplePct crawl_example)) = Some (fl_samplePct crawl_example)"
    by (simp_all add: common_ok_def crawl_example_def common_example_def)
  obtain s fs' where run: "runCrawl test_env dns_example ?d crawl_example [] [] 99 fs_example s fs'" "\<not> pl_cancelled s"
    using crawl_run_example by blast
  obtain fs1 crw wr cfg cp where pl: "crawl_plan ?d crawl_example [] [] 99 fs_example = Inr (fs1, crw, wr, cfg, cp)"
    using crawl_plan_example by blast
  then obtain w where "wr = Rdnsz w" using crawl_plan_Inr [OF pl] crawl_example_flags by auto
  then obtain out where out: "sink_PrintSummary id fs' 0 (sink_Consume test_env (pl_out s) wr) = Inr out"
    using PrintSummary_total(2) by fastforce
  have main: "main_run test_env dns_example id ?pd ?pf (\<lambda>_ _. 0) (\<lambda>_. Inr []) (\<lambda>_. Inr []) ?argv fs_example (Some s) fs' out 0"
    using main_run.crawl [OF crawl_assigned [where pf = ?pf and sf = "\<lambda>_. ''100''", OF args] run(1) pl out] by blast
  note fl = crawl_example_flags
  have ne: "k_out (fl_common crawl_example) \<noteq> []" by (simp add: fl)
  obtain rs elapsed disk where rs: "Scan test_env fs' path_example collect [] = (rs, None)"
      "s_IP ` set rs = {ip. \<not> IsReserved ip \<and> ip mod 4 = 1}"
      "mset rs = mset (map stored (pl_out s))" "out = store_summary test_env id elapsed disk path_example (pl_out s)"
    using main_crawl_exact [where pf = ?pf and sf = "\<lambda>_. ''100''", OF main run(2) zstd_ok_test_env test_env_sorts(1) args ne fl(3-5) dns_example_names]
      IPToInt_zero
    by (auto simp: k_out_example crawl_example_def inShardSample_def SampleThresholdForPercent_def norm_shards_def)
  have "\<not> IsReserved 16777217" by (simp add: IsReserved_def ReservedIPv4Ranges_def in_range_def)
  then have "16777217 \<in> s_IP ` set rs" unfolding rs(2) by simp
  then have "rs \<noteq> []" by auto
  moreover have "length (pl_out s) = length rs" using rs(3) by (metis length_map size_mset)
  ultimately show ?thesis using main rs(1,4) by blast
qed

theorem info_exact_witness:
  "\<exists>h1 h2. info_main id fs_pair [''o/s.rdnsz'', ''-v'', ''n/s.rdnsz''] =
     (info_line ''o/s.rdnsz'' h1 @ info_line ''n/s.rdnsz'' h2 @
      info_tail id 2 (h_Total h1 + h_Total h2) (map (\<lambda>c. h_Counts h1 ! c + h_Counts h2 ! c) [0..<NumStatusCodes]), 0)"
proof -
  obtain h1 h2 where h: "ReadHeader fs_pair ''o/s.rdnsz'' = Inr h1" "ReadHeader fs_pair ''n/s.rdnsz'' = Inr h2"
    using fs_pair_headers by blast
  have "info_paths fs_pair [''o/s.rdnsz'', ''-v'', ''n/s.rdnsz''] = Inr [''o/s.rdnsz'', ''n/s.rdnsz'']"
    using os_stat_header [OF h(1)] os_stat_header [OF h(2)] by auto
  note e = info_exact [OF this, of id]
  have "map (ReadHeader fs_pair) [''o/s.rdnsz'', ''n/s.rdnsz''] = map Inr [h1, h2]" using h by simp
  then have "info_main id fs_pair [''o/s.rdnsz'', ''-v'', ''n/s.rdnsz''] =
      (concat (map2 info_line [''o/s.rdnsz'', ''n/s.rdnsz''] [h1, h2]) @
       info_tail id (length [''o/s.rdnsz'', ''n/s.rdnsz'']) (sum_list (map h_Total [h1, h2]))
         (map (\<lambda>c. \<Sum>h\<leftarrow>[h1, h2]. h_Counts h ! c) [0..<NumStatusCodes]), 0)" using e by blast
  then show ?thesis by (intro exI [of _ h1] exI [of _ h2]) (simp add: numeral_2_eq_2)
qed


end
