(* ===== verification/Spec2Isabelle.thy ===== *)
theory Spec2Isabelle
  imports Cycle Crawler_Progress Cli_Main
begin

text \<open>
  Verification of rDNS-Crawler, a reverse-DNS crawler for the IPv4 space (Go, under \<^verbatim>\<open>src/\<close>).

  \<^bold>\<open>The program.\<close> A producer walks the routable addresses of one shard (\<^verbatim>\<open>internal/ipgen\<close>) or the
  interesting addresses of a previous pass (\<^verbatim>\<open>internal/store/targets.go\<close>). A pool of workers
  (\<^verbatim>\<open>internal/crawler\<close>) looks each address up through a rotating set of name servers
  (\<^verbatim>\<open>internal/resolver\<close>) and sends one record per address to a backend: the compact block format
  \<^verbatim>\<open>.rdnsz\<close> (\<^verbatim>\<open>internal/store\<close>) or JSONL (\<^verbatim>\<open>internal/output\<close>). Two offline tools join passes:
  \<^verbatim>\<open>internal/merge\<close> folds a re-crawl into its baseline, \<^verbatim>\<open>internal/compare\<close> counts what changed.
  \<^verbatim>\<open>cmd/rdns-crawler/main.go\<close> wires the parts together and keeps cursor files for resuming.

  \<^bold>\<open>Foundations.\<close>
  \<^item> \<open>Rdns_Prelude\<close>: integer types, error values, the parameters for code outside the repository
    (\<open>env\<close>: the zstd codec, Unicode case mapping, the two library sorts) with their documented laws
    \<open>zstd_ok\<close> and \<open>sorts_keys\<close>, and the callback fold \<open>fold_err\<close>.
  \<^item> \<open>Go_Strings\<close>, \<open>Go_Bytes\<close>, \<open>Go_Net\<close>, \<open>Go_FS\<close>, \<open>Go_Json\<close>, \<open>Go_Fmt\<close>, \<open>Go_Tabwriter\<close>, \<open>Go_Flag\<close>:
    the parts of the standard library that the sources use (string functions, varints and big-endian
    fields, \<open>net.ParseIP\<close>, a file system of whole files with \<open>bufio\<close> buffering, the JSON encoder, the
    verbs and widths of \<open>fmt\<close>, durations and dates as text, the column alignment of \<open>text/tabwriter\<close>,
    the parser of \<open>flag\<close>).
  \<^item> Contracts as locales: \<open>Sink_Contract\<close> (the output backends; interpreted by the store writer and
    the JSONL writer), \<open>Sorted_Table\<close> (the join table; \<open>obs_table\<close> interpreted by compare,
    \<open>first_table\<close> by merge), \<open>walk\<close> in \<open>Ipgen\<close> (ascending address walks; interpreted by the
    sequential and the sharded generator), \<open>address_set\<close> in \<open>Merge\<close> (the bit set of seen addresses)
    and \<open>Run_System\<close> (terminating step relations with an invariant; interpreted by the worker pool).

  \<^bold>\<open>Components.\<close>
  \<^item> \<open>Model_Record\<close> (\<^verbatim>\<open>internal/model/record.go\<close>): status names, codes and masks; the parser
    accepts exactly lists of status names, and parsing a printed mask gives the mask back.
  \<^item> \<open>Store_Template\<close> (\<^verbatim>\<open>template.go\<close>), \<open>Store_Format\<close> (\<^verbatim>\<open>format.go\<close> and the block codec of
    \<^verbatim>\<open>writer.go\<close>/\<^verbatim>\<open>reader.go\<close>), \<open>Store_Writer\<close>, \<open>Store_Reader\<close>, \<open>Store_File\<close>: the file as bytes. A
    created, filled and closed file scans back to exactly the stored records with an exact header;
    a resumed file keeps its records; an unclosed file yields a sub-multiset of the records and a
    truncation error at worst; a length field of \<open>2 ^ 63\<close> or more panics the decoder.
  \<^item> \<open>Store_Targets\<close>: counting and streaming re-crawl targets; interrupted and resumed streams hand
    out each target once.
  \<^item> \<open>Ipgen\<close>: reserved ranges, address text, the random, sequential and sharded generators; shards
    partition the space and a resumed walk loses nothing.
  \<^item> \<open>Resolver\<close>: the retry loop against an arbitrary DNS package and arbitrary interference of other
    goroutines with the rotation counter; a query returns its first definitive answer, a lookup
    is always well-formed, and with two servers retries never change the server.
  \<^item> \<open>Crawler\<close>: \<open>process\<close> is a function; the pool is the step relation \<open>pool_step\<close> over worker
    states, with cancellation, the rate limiter, both choices of every select and the two separate
    additions of \<open>tally\<close>. Every address is
    accounted for in every reachable state, an uncancelled run is complete with exact counters, and
    every run ends with the output closed; forward confirmation is exact for arbitrary name servers.
  \<^item> \<open>Output_Writer\<close>: the JSONL backend; one line per record, and the same statistics as the store.
  \<^item> \<open>Name_Hash\<close>, \<open>Merge\<close> (\<^verbatim>\<open>internal/merge/merge.go\<close>): discovery, the arena of new names, the policy
    per address, the whole run. Each shard of the result has one record per baseline address, chosen
    by the policy; error paths and the cases in which the code fails are stated separately.
    \<open>Merge_Figures\<close> shows that the counters of the report are the numbers of records of each kind,
    \<open>Merge_Output\<close> what the output files of a run hold.
  \<^item> \<open>Compare\<close> (\<^verbatim>\<open>internal/compare/compare.go\<close>): every target is counted once in the transition matrix,
    and the figures of a report agree. Floating-point results take the rounding as a parameter.
  \<^item> \<open>Merge_Compare\<close> and \<open>Cycle\<close> (components together): merge and compare, given the same two passes,
    report the same numbers; a re-crawl asks exactly the targets of the baseline, and merging its
    file into the baseline gives every address the record that the policy chooses between the two
    passes.
  \<^item> \<open>Summary_Report\<close> (the \<open>PrintSummary\<close> of the two backends), \<open>Merge_Report\<close>, \<open>Compare_Report\<close>
    (\<open>RenderText\<close>) and \<open>Crawler_Progress\<close> (\<open>printProgress\<close>): every report as the text it prints. Both
    backends print the same figures for the same records, the figures of the merge report are those of
    the files it wrote, the comparison report does not depend on the order in which Go walks its maps,
    and a progress line, whose counters are loaded while the workers run, is off by at most one address
    per worker.
  \<^item> \<open>Cli\<close> (\<^verbatim>\<open>cmd/rdns-crawler/main.go\<close>): backends, cursor files, \<open>pipeline\<close> and the modes. An
    uncancelled \<open>crawl\<close> leaves a readable file with exactly one record per routable address of its
    shard; cursors round-trip; the rewind of a resumed \<open>recrawl\<close> does not exclude holes.
  \<^item> \<open>Cli_Flags\<close> and \<open>Cli_Main\<close> (the same file): the flag sets and the dispatch of \<open>main\<close>, the standard
    output and exit code of every mode, and the relation \<open>main_run\<close> between command line, file system,
    output and exit code. A command line made from a configuration is read back as it; the results
    for \<open>crawl\<close>, \<open>info\<close> and \<open>dump\<close> hold from the command line to the printed text.

  \<^bold>\<open>Conventions.\<close> Goroutines that only produce a channel are functions of their delivery schedule;
  the pool, whose interleavings matter, is a relation. Errors are \<open>go_error\<close> in a sum, run-time
  panics are \<open>EPanic\<close>, callbacks return the state reached with an optional error. Counters are
  words of their Go width. There is no fuel: loops recurse on data or have a measure, the random
  generator (which may run forever on an adverse source) is a \<open>partial_function\<close> in \<open>option\<close> whose
  termination is proved for every source that shows enough addresses, and the pool has a rank.

  \<^bold>\<open>Not modelled.\<close> The lines that the modes and \<open>merge\<close> write to standard error while they start and
  run (except the banner of \<open>dump\<close>), the JSON encoding of the two offline results (the parameter
  \<open>marshal\<close>), the deployment scripts and the JavaScript tools. \<open>time.ParseDuration\<close>,
  \<open>strconv.ParseFloat\<close> and the rounding of \<open>float64\<close> are parameters. File-system writes on an open
  file do not fail in the model, and time is an argument.

  \<^bold>\<open>Plan.\<close> Next: the JSON encoding of the two offline results, and the re-crawl and merge cycle as
  runs of the whole program.
\<close>

end
